(* ===== verification/Prelude.thy ===== *)
theory Prelude
  imports Main "HOL-Library.Word"
begin

text \<open>
  The shared vocabulary of the development: the machine integers of the C++ code, the way a
  C++ function can fail (an exception, a failed assertion, undefined behaviour, a wait that
  nobody in the modelled thread can end), the combinators that run such functions in
  sequence, bounds-checked views of byte buffers (\<open>std::span\<close>, \<open>std::memcpy\<close>), and the
  little-endian byte encoding that the on-disk formats use.
\<close>

unbundle bit_operations_syntax

section \<open>Machine integers\<close>

type_synonym u8 = "8 word"
type_synonym u32 = "32 word"
type_synonym u64 = "64 word"
type_synonym bytes = "u8 list"
type_synonym path = "string list"

named_theorems res_simps \<open>evaluation of the result combinators\<close>
named_theorems buf_simps \<open>bounds-checked views and copies of byte buffers\<close>

section \<open>Failing computations\<close>

text \<open>
  Each constructor of \<open>fault\<close> is one way the code leaves the normal path.  The thrown
  exceptions carry the message of the source.  \<open>Undefined\<close> is undefined behaviour in the
  C++ sense (an out-of-range access, an oversized shift), \<open>Blocked\<close> is a condition variable
  whose predicate is false and that the running thread cannot make true.
  \<open>Out_Of_Fuel\<close> is no behaviour of the code: a recursion that has no evident measure is
  given fuel, and its theorems show that the fuel it is run with is enough.
\<close>

datatype fault =
    Invalid_Argument string
  | Runtime_Error string
  | Logic_Error string
  | Filesystem_Error
  | Assert_Failed string
  | Undefined
  | Blocked
  | Out_Of_Fuel

type_synonym 'a res = "fault + 'a"

fun rbind :: "'a res \<Rightarrow> ('a \<Rightarrow> 'b res) \<Rightarrow> 'b res" where
  "rbind (Inl e) f = Inl e"
| "rbind (Inr x) f = f x"

fun rfold :: "('s \<Rightarrow> 'a \<Rightarrow> 's res) \<Rightarrow> 's \<Rightarrow> 'a list \<Rightarrow> 's res" where
  "rfold f s [] = Inr s"
| "rfold f s (x # xs) = rbind (f s x) (\<lambda>s'. rfold f s' xs)"

lemmas [res_simps] = rbind.simps rfold.simps

lemma rbind_eq_Inr [res_simps]:
  "rbind m f = Inr y \<longleftrightarrow> (\<exists>x. m = Inr x \<and> f x = Inr y)"
  by (cases m) auto

lemma rbind_eq_Inl:
  "rbind m f = Inl e \<longleftrightarrow> m = Inl e \<or> (\<exists>x. m = Inr x \<and> f x = Inl e)"
  by (cases m) auto

lemma rbind_assoc: "rbind (rbind m f) g = rbind m (\<lambda>x. rbind (f x) g)"
  by (cases m) auto

lemma rbind_cong [fundef_cong]:
  "m = m' \<Longrightarrow> (\<And>x. m' = Inr x \<Longrightarrow> f x = g x) \<Longrightarrow> rbind m f = rbind m' g"
  by (cases m') auto

lemma rfold_append [res_simps]:
  "rfold f s (xs @ ys) = rbind (rfold f s xs) (\<lambda>s'. rfold f s' ys)"
  by (induction xs arbitrary: s) (auto simp: rbind_assoc)

text \<open>A loop invariant indexed by the part of the list already processed.\<close>

lemma rfold_invariant:
  assumes init: "P [] s"
    and step: "\<And>ys x zs s. xs = ys @ x # zs \<Longrightarrow> P ys s \<Longrightarrow> \<exists>s'. f s x = Inr s' \<and> P (ys @ [x]) s'"
  shows "\<exists>s'. rfold f s xs = Inr s' \<and> P xs s'"
proof -
  have "\<exists>s'. rfold f s ys = Inr s' \<and> P ys s'" if "\<exists>zs. xs = ys @ zs" for ys
    using that
  proof (induction ys rule: rev_induct)
    case Nil
    then show ?case using init by simp
  next
    case (snoc y ys)
    then obtain zs where zs: "xs = ys @ y # zs" by auto
    then obtain s1 where s1: "rfold f s ys = Inr s1" "P ys s1" using snoc.IH by blast
    from step [OF zs s1(2)] s1(1) show ?case by (auto simp: rfold_append)
  qed
  then show ?thesis by simp
qed

section \<open>Views and copies of buffers\<close>

text \<open>
  \<open>subspan\<close> is \<open>std::span::subspan(offset, count)\<close>; a view that leaves the buffer is
  undefined behaviour.  \<open>buf_write\<close> is \<open>std::memcpy\<close> into a caller-provided buffer.
\<close>

definition subspan :: "'a list \<Rightarrow> nat \<Rightarrow> nat \<Rightarrow> 'a list res" where
  "subspan xs off cnt =
     (if off + cnt \<le> length xs then Inr (take cnt (drop off xs)) else Inl Undefined)"

definition buf_write :: "nat \<Rightarrow> 'a list \<Rightarrow> 'a list \<Rightarrow> 'a list res" where
  "buf_write off src buf =
     (if off + length src \<le> length buf
      then Inr (take off buf @ src @ drop (off + length src) buf) else Inl Undefined)"

definition read_at :: "'a list \<Rightarrow> nat \<Rightarrow> 'a res" where
  "read_at xs i = (if i < length xs then Inr (xs ! i) else Inl Undefined)"

lemma subspan_Inr [buf_simps]:
  "off + cnt \<le> length xs \<Longrightarrow> subspan xs off cnt = Inr (take cnt (drop off xs))"
  by (simp add: subspan_def)

lemma subspan_all [simp]: "subspan xs 0 (length xs) = Inr xs"
  by (simp add: subspan_def)

lemma buf_write_Inr [buf_simps]:
  "off + length src \<le> length buf \<Longrightarrow>
   buf_write off src buf = Inr (take off buf @ src @ drop (off + length src) buf)"
  by (simp add: buf_write_def)

lemma buf_write_length:
  "buf_write off src buf = Inr buf' \<Longrightarrow> length buf' = length buf"
  by (auto simp: buf_write_def split: if_splits)

lemma read_at_Inr [buf_simps]: "i < length xs \<Longrightarrow> read_at xs i = Inr (xs ! i)"
  by (simp add: read_at_def)

section \<open>Little-endian byte strings\<close>

text \<open>
  The value of a byte string stored least significant byte first, as a number
  (\<open>le_nat\<close>) and as the \<open>uint64_t\<close> that \<open>memcpy\<close> into a zeroed variable yields
  (\<open>le_word\<close>); \<open>le_bytes k w\<close> are the first \<open>k\<close> bytes of the object representation of
  the \<open>uint64_t\<close> \<open>w\<close>.
\<close>

fun le_nat :: "bytes \<Rightarrow> nat" where
  "le_nat [] = 0"
| "le_nat (b # bs) = unat b + 256 * le_nat bs"

definition le_word :: "bytes \<Rightarrow> u64" where
  "le_word bs = of_nat (le_nat bs)"

definition le_bytes :: "nat \<Rightarrow> u64 \<Rightarrow> bytes" where
  "le_bytes k w = map (\<lambda>i. ucast (drop_bit (8 * i) w)) [0..<k]"

lemma length_le_bytes [simp]: "length (le_bytes k w) = k"
  by (simp add: le_bytes_def)

lemma le_bytes_0 [simp]: "le_bytes 0 w = []"
  by (simp add: le_bytes_def)

lemma le_bytes_Suc: "le_bytes (Suc k) w = le_bytes k w @ [ucast (drop_bit (8 * k) w)]"
  by (simp add: le_bytes_def)

lemma le_nat_append: "le_nat (xs @ ys) = le_nat xs + 256 ^ length xs * le_nat ys"
  by (induction xs) (auto simp: algebra_simps)

lemma unat_u8_less: "unat (b :: u8) < 256"
  using unsigned_less [of b, where ?'a = nat] by simp

lemma le_nat_less: "le_nat bs < 256 ^ length bs"
proof (induction bs)
  case Nil
  then show ?case by simp
next
  case (Cons b bs)
  then have "le_nat bs + 1 \<le> 256 ^ length bs" by simp
  then have "256 * (le_nat bs + 1) \<le> 256 * 256 ^ length bs" by (rule mult_le_mono2)
  then show ?case using unat_u8_less [of b] by simp
qed

lemma le_nat_take_drop:
  "le_nat (take n bs) = le_nat bs mod 256 ^ n" (is ?T)
  "n \<le> length bs \<Longrightarrow> le_nat (drop n bs) = le_nat bs div 256 ^ n"
proof -
  have split: "le_nat bs = le_nat (take n bs) + 256 ^ n * le_nat (drop n bs)" if "n \<le> length bs"
    using le_nat_append [of "take n bs" "drop n bs"] that by simp
  have less: "le_nat (take n bs) < 256 ^ n" if "n \<le> length bs"
    using le_nat_less [of "take n bs"] that by simp
  show ?T
  proof (cases "n \<le> length bs")
    case True
    then show ?thesis using split less by simp
  next
    case False
    then have "(256 :: nat) ^ length bs \<le> 256 ^ n" by (intro power_increasing) auto
    with le_nat_less [of bs] have "le_nat bs < 256 ^ n" by linarith
    with False show ?thesis by simp
  qed
  show "n \<le> length bs \<Longrightarrow> le_nat (drop n bs) = le_nat bs div 256 ^ n"
    by (subst split) (simp_all add: less)
qed

lemma le_nat_inject:
  "length xs = length ys \<Longrightarrow> le_nat xs = le_nat ys \<longleftrightarrow> xs = ys"
proof (induction xs ys rule: list_induct2)
  case Nil
  then show ?case by simp
next
  case (Cons x xs y ys)
  have "unat x = unat y \<and> le_nat xs = le_nat ys"
    if "unat x + 256 * le_nat xs = unat y + 256 * le_nat ys"
  proof -
    have "(unat x + 256 * le_nat xs) mod 256 = (unat y + 256 * le_nat ys) mod 256"
      using that by simp
    then have "unat x = unat y" using unat_u8_less [of x] unat_u8_less [of y] by simp
    with that show ?thesis by simp
  qed
  with Cons show ?case by (auto simp: word_unat_eq_iff)
qed

lemma unat_byte_of_word: "unat (ucast (drop_bit (8 * k) (w :: u64)) :: u8) = unat w div 256 ^ k mod 256"
proof -
  have "unat (ucast (drop_bit (8 * k) w) :: u8) = unat (drop_bit (8 * k) w) mod 2 ^ 8"
    by (simp add: unsigned_ucast_eq take_bit_eq_mod)
  also have "unat (drop_bit (8 * k) w) = unat w div 2 ^ (8 * k)"
    by (subst unat_drop_bit_eq) (rule drop_bit_eq_div)
  finally show ?thesis by (simp add: power_mult)
qed

lemma le_nat_le_bytes: "le_nat (le_bytes k w) = unat w mod 256 ^ k"
proof (induction k)
  case 0
  then show ?case by simp
next
  case (Suc k)
  have "le_nat (le_bytes (Suc k) w) = unat w mod 256 ^ k + 256 ^ k * (unat w div 256 ^ k mod 256)"
    by (simp add: le_bytes_Suc le_nat_append Suc unat_byte_of_word)
  also have "\<dots> = unat w mod (256 ^ k * 256)"
    by (simp add: mod_mult2_eq)
  finally show ?case by (simp add: mult.commute)
qed

lemma unat_le_word: "length bs \<le> 8 \<Longrightarrow> unat (le_word bs) = le_nat bs"
proof -
  assume "length bs \<le> 8"
  then have "(256 :: nat) ^ length bs \<le> 256 ^ 8" by (rule power_increasing) simp
  with le_nat_less [of bs] have "le_nat bs < 2 ^ 64" by simp
  then show ?thesis by (simp add: le_word_def unat_of_nat)
qed

lemma le_word_le_bytes:
  "unat w < 256 ^ k \<Longrightarrow> k \<le> 8 \<Longrightarrow> le_word (le_bytes k w) = w"
  by (simp add: word_unat_eq_iff unat_le_word le_nat_le_bytes)

lemma le_bytes_le_word: "length bs \<le> 8 \<Longrightarrow> le_bytes (length bs) (le_word bs) = bs"
  by (rule le_nat_inject [THEN iffD1])
     (use le_nat_less [of bs] in \<open>simp_all add: le_nat_le_bytes unat_le_word\<close>)

lemma le_nat_all_ones: "\<forall>b \<in> set bs. b = 255 \<Longrightarrow> le_nat bs = 256 ^ length bs - 1"
proof (induction bs)
  case Nil
  then show ?case by simp
next
  case (Cons b bs)
  then have "le_nat (b # bs) = 255 + 256 * (256 ^ length bs - 1)" by simp
  also have "\<dots> = 256 ^ Suc (length bs) - 1"
    using zero_less_power [of "256 :: nat" "length bs"] by (simp add: diff_mult_distrib2)
  finally show ?case by simp
qed

lemma le_bytes_all_ones_iff:
  assumes "k \<le> 8" "unat w < 256 ^ k"
  shows "(\<forall>b \<in> set (le_bytes k w). b = 255) \<longleftrightarrow> unat w = 256 ^ k - 1"
proof
  assume "\<forall>b \<in> set (le_bytes k w). b = 255"
  then have "le_nat (le_bytes k w) = 256 ^ k - 1" using le_nat_all_ones by fastforce
  then show "unat w = 256 ^ k - 1" using assms by (simp add: le_nat_le_bytes)
next
  assume w: "unat w = 256 ^ k - 1"
  have "le_nat (le_bytes k w) = le_nat (replicate k 255)"
    using w assms le_nat_all_ones [of "replicate k 255"] by (simp add: le_nat_le_bytes)
  then have "le_bytes k w = replicate k 255" by (simp add: le_nat_inject)
  then show "\<forall>b \<in> set (le_bytes k w). b = 255" by simp
qed

lemma word_eq_of_nat: "unat w = n \<Longrightarrow> w = of_nat n"
  by auto

section \<open>Low-bit masks\<close>

text \<open>The expression \<open>(n == 64) ? ~0ULL : ((1ULL << n) - 1)\<close>, which recurs in the code.\<close>

definition low_mask :: "nat \<Rightarrow> u64" where
  "low_mask n = (if n = 64 then NOT 0 else push_bit n 1 - 1)"

lemma and_low_mask: "n \<le> 64 \<Longrightarrow> x AND low_mask n = take_bit n x"
proof (cases "n = 64")
  case True
  have "low_mask 64 = - 1" by (simp add: low_mask_def)
  then have "x AND low_mask 64 = x" by (simp only: bit.conj_one_right)
  moreover have "take_bit 64 x = x" by (rule take_bit_word_eq_self) simp
  ultimately show ?thesis using True by simp
next
  case False
  then show ?thesis by (simp add: low_mask_def take_bit_eq_mask mask_eq_exp_minus_1 push_bit_eq_mult)
qed

lemma unat_take_bit: "unat (take_bit n (x :: u64)) = unat x mod 2 ^ n"
  by (subst unsigned_take_bit_eq) (rule take_bit_eq_mod)

lemma unat_and_low_mask: "n \<le> 64 \<Longrightarrow> unat (x AND low_mask n) = unat x mod 2 ^ n"
  by (simp only: and_low_mask unat_take_bit)

lemma unat_drop_bit: "unat (drop_bit n (x :: u64)) = unat x div 2 ^ n"
  by (subst unat_drop_bit_eq) (rule drop_bit_eq_div)

lemma low_mask_nat: "n \<le> 64 \<Longrightarrow> low_mask n = of_nat (2 ^ n - 1)"
proof -
  assume n: "n \<le> 64"
  have "low_mask n = (- 1) AND low_mask n" by simp
  then have "unat (low_mask n) = unat (- 1 :: u64) mod 2 ^ n"
    using unat_and_low_mask [OF n, of "- 1"] by simp
  also have "\<dots> = (2 ^ 64 - 1) mod 2 ^ n" by (simp add: unsigned_minus_1_eq_mask mask_eq_exp_minus_1)
  also have "\<dots> = 2 ^ n - 1"
  proof -
    have "(2 :: nat) ^ n \<le> 2 ^ 64" using n by (rule power_increasing) simp
    then have eq: "(2 ^ 64 - 1 :: nat) = (2 ^ n - 1) + 2 ^ n * (2 ^ (64 - n) - 1)"
      using n by (simp add: algebra_simps flip: power_add)
    show ?thesis unfolding eq mod_mult_self2 by (rule mod_less) simp
  qed
  finally show ?thesis by (rule word_eq_of_nat)
qed


end
