(* ===== verification/Buffer_Room.thy ===== *)
theory Buffer_Room
  imports Prelude
begin

text \<open>
  \<^verbatim>\<open>libs/evolving_disk_state/include/evolving_disk_state/buffer_room.hpp\<close>: the room of at most
  \<open>C\<close> items between two tiers.  A producer feeds it item by item and waits while it is full; the
  worker of the next tier waits until it is full and then sees all of it; searching threads see
  whatever is there; \<open>Discard\<close> waits for all of them and empties it.

  The first part models each operation as one thread runs it without interference; a wait whose
  predicate is false is the fault \<open>Blocked\<close>.  The second part models the locks: a step relation
  over any number of threads whose program counters stand at the places where the code can be
  interleaved.  There a wait is the step of a thread that got the mutex and found its predicate
  true; the threads that find it false, their sleep and the notifications are added in
  \<^verbatim>\<open>Room_Wakeups\<close>, which proves that they do not change what is reached here.
\<close>

section \<open>The operations of one thread\<close>

record 'a buffer_room =
  items :: "'a list"
  active_readers :: nat
  is_discarding :: bool

definition empty_room :: "'a buffer_room" where
  "empty_room = \<lparr>items = [], active_readers = 0, is_discarding = False\<rparr>"

definition InitializeAdd :: "nat \<Rightarrow> 'a \<Rightarrow> 'a buffer_room \<Rightarrow> 'a buffer_room res" where
  "InitializeAdd C item r =
     (if length (items r) \<ge> C
      then Inl (Invalid_Argument ''BufferRoom::InitializeAdd(): buffer room already at capacity'')
      else Inr (r\<lparr>items := items r @ [item]\<rparr>))"

definition producer_may_run :: "nat \<Rightarrow> 'a buffer_room \<Rightarrow> bool" where
  "producer_may_run C r \<longleftrightarrow> length (items r) < C \<and> \<not> is_discarding r"

definition consumer_may_run :: "nat \<Rightarrow> 'a buffer_room \<Rightarrow> bool" where
  "consumer_may_run C r \<longleftrightarrow> length (items r) = C \<or> is_discarding r"

definition Feed :: "nat \<Rightarrow> 'a \<Rightarrow> 'a buffer_room \<Rightarrow> 'a buffer_room res" where
  "Feed C item r =
     (if \<not> producer_may_run C r then Inl Blocked else Inr (r\<lparr>items := items r @ [item]\<rparr>))"

text \<open>\<open>ReaderScope\<close> counts the reader while its lambda runs.\<close>

definition reader_enter :: "'a buffer_room \<Rightarrow> 'a buffer_room" where
  "reader_enter r = r\<lparr>active_readers := active_readers r + 1\<rparr>"

definition reader_exit :: "'a buffer_room \<Rightarrow> 'a buffer_room" where
  "reader_exit r = r\<lparr>active_readers := active_readers r - 1\<rparr>"

definition with_contents_when_filled ::
    "nat \<Rightarrow> ('a list \<Rightarrow> 'b) \<Rightarrow> 'a buffer_room \<Rightarrow> ('a buffer_room \<times> 'b option) res" where
  "with_contents_when_filled C worker_lambda r =
     (if \<not> consumer_may_run C r then Inl Blocked
      else if is_discarding r then Inr (r, None)
      else let r1 = reader_enter r;
               result = worker_lambda (take C (items r1))
           in Inr (reader_exit r1, Some result))"

definition with_current_contents ::
    "('a list \<Rightarrow> 'b) \<Rightarrow> 'a buffer_room \<Rightarrow> 'a buffer_room \<times> 'b option" where
  "with_current_contents reader_lambda r =
     (if is_discarding r then (r, None)
      else let r1 = reader_enter r;
               result = reader_lambda (items r1)
           in (reader_exit r1, Some result))"

definition Discard :: "'a buffer_room \<Rightarrow> 'a buffer_room res" where
  "Discard r =
     (let r1 = r\<lparr>is_discarding := True\<rparr> in
      if \<not> active_readers r1 = 0 then Inl Blocked
      else Inr (r1\<lparr>items := [], is_discarding := False\<rparr>))"

section \<open>Interleaved threads\<close>

text \<open>
  Where a thread can stand between two steps.  The boolean of the readers tells the worker of
  \<open>with_contents_when_filled\<close> from a searching thread.
\<close>

datatype 'a pc =
    Idle
  | Feed_Wait 'a | Feed_Locked 'a | Feed_Data 'a | Feed_Check
  | Filled_Wait | Search_Start
  | Registered bool | Reading bool | Deregister bool
  | Discard_Start | Discard_Wait | Discard_Unlocked | Discard_Clearing | Discard_Reset

record 'a threads =
  room :: "'a buffer_room"
  pc :: "nat \<Rightarrow> 'a pc"

definition goto :: "nat \<Rightarrow> 'a pc \<Rightarrow> 'a buffer_room \<Rightarrow> 'a threads \<Rightarrow> 'a threads" where
  "goto t p r s = \<lparr>room = r, pc = (pc s)(t := p)\<rparr>"

text \<open>
  \<open>state_mutex_\<close> is held across steps only by a feeding thread, from its wait to the test of the
  size after its push (elsewhere its critical section is one step); \<open>data_mutex_\<close> is held exclusively while an item is pushed or the items are
  cleared, and shared while a lambda runs.
\<close>

fun holds_state :: "'a pc \<Rightarrow> bool" where
  "holds_state (Feed_Locked _) = True"
| "holds_state (Feed_Data _) = True"
| "holds_state Feed_Check = True"
| "holds_state _ = False"

fun will_push :: "'a pc \<Rightarrow> bool" where
  "will_push (Feed_Locked _) = True"
| "will_push (Feed_Data _) = True"
| "will_push _ = False"

fun writes_data :: "'a pc \<Rightarrow> bool" where
  "writes_data (Feed_Data _) = True"
| "writes_data Discard_Clearing = True"
| "writes_data _ = False"

fun reads_data :: "'a pc \<Rightarrow> bool" where
  "reads_data (Reading _) = True"
| "reads_data _ = False"

fun is_reader :: "'a pc \<Rightarrow> bool" where
  "is_reader (Registered _) = True"
| "is_reader (Reading _) = True"
| "is_reader (Deregister _) = True"
| "is_reader _ = False"

fun is_discarder :: "'a pc \<Rightarrow> bool" where
  "is_discarder Discard_Wait = True"
| "is_discarder Discard_Unlocked = True"
| "is_discarder Discard_Clearing = True"
| "is_discarder Discard_Reset = True"
| "is_discarder _ = False"

definition state_free :: "'a threads \<Rightarrow> bool" where
  "state_free s \<longleftrightarrow> (\<forall>t. \<not> holds_state (pc s t))"

definition no_writer :: "'a threads \<Rightarrow> bool" where
  "no_writer s \<longleftrightarrow> (\<forall>t. \<not> writes_data (pc s t))"

definition data_free :: "'a threads \<Rightarrow> bool" where
  "data_free s \<longleftrightarrow> (\<forall>t. \<not> writes_data (pc s t) \<and> \<not> reads_data (pc s t))"

text \<open>
  The steps.  The flag \<open>multi\<close> says whether a \<open>Discard\<close> may start while another one runs; the
  code does not prevent it.
\<close>

inductive room_step :: "nat \<Rightarrow> bool \<Rightarrow> 'a threads \<Rightarrow> 'a threads \<Rightarrow> bool" for C multi where
  call_feed: "pc s t = Idle \<Longrightarrow> room_step C multi s (goto t (Feed_Wait x) (room s) s)"
| call_filled: "pc s t = Idle \<Longrightarrow> room_step C multi s (goto t Filled_Wait (room s) s)"
| call_search: "pc s t = Idle \<Longrightarrow> room_step C multi s (goto t Search_Start (room s) s)"
| call_discard: "pc s t = Idle \<Longrightarrow> room_step C multi s (goto t Discard_Start (room s) s)"
| feed_enter: "pc s t = Feed_Wait x \<Longrightarrow> state_free s \<Longrightarrow> producer_may_run C (room s) \<Longrightarrow>
    room_step C multi s (goto t (Feed_Locked x) (room s) s)"
| feed_data: "pc s t = Feed_Locked x \<Longrightarrow> data_free s \<Longrightarrow>
    room_step C multi s (goto t (Feed_Data x) (room s) s)"
| feed_push: "pc s t = Feed_Data x \<Longrightarrow>
    room_step C multi s (goto t Feed_Check ((room s)\<lparr>items := items (room s) @ [x]\<rparr>) s)"
| feed_done: "pc s t = Feed_Check \<Longrightarrow> room_step C multi s (goto t Idle (room s) s)"
| filled_abort: "pc s t = Filled_Wait \<Longrightarrow> state_free s \<Longrightarrow> is_discarding (room s) \<Longrightarrow>
    room_step C multi s (goto t Idle (room s) s)"
| filled_enter: "pc s t = Filled_Wait \<Longrightarrow> state_free s \<Longrightarrow> consumer_may_run C (room s) \<Longrightarrow>
    \<not> is_discarding (room s) \<Longrightarrow>
    room_step C multi s (goto t (Registered True) (reader_enter (room s)) s)"
| search_abort: "pc s t = Search_Start \<Longrightarrow> state_free s \<Longrightarrow> is_discarding (room s) \<Longrightarrow>
    room_step C multi s (goto t Idle (room s) s)"
| search_enter: "pc s t = Search_Start \<Longrightarrow> state_free s \<Longrightarrow> \<not> is_discarding (room s) \<Longrightarrow>
    room_step C multi s (goto t (Registered False) (reader_enter (room s)) s)"
| read_begin: "pc s t = Registered w \<Longrightarrow> no_writer s \<Longrightarrow>
    room_step C multi s (goto t (Reading w) (room s) s)"
| read_end: "pc s t = Reading w \<Longrightarrow> room_step C multi s (goto t (Deregister w) (room s) s)"
| deregister: "pc s t = Deregister w \<Longrightarrow> state_free s \<Longrightarrow>
    room_step C multi s (goto t Idle (reader_exit (room s)) s)"
| discard_begin: "pc s t = Discard_Start \<Longrightarrow> state_free s \<Longrightarrow>
    multi \<or> (\<forall>u. \<not> is_discarder (pc s u)) \<Longrightarrow>
    room_step C multi s (goto t Discard_Wait ((room s)\<lparr>is_discarding := True\<rparr>) s)"
| discard_waited: "pc s t = Discard_Wait \<Longrightarrow> state_free s \<Longrightarrow> active_readers (room s) = 0 \<Longrightarrow>
    room_step C multi s (goto t Discard_Unlocked (room s) s)"
| discard_data: "pc s t = Discard_Unlocked \<Longrightarrow> data_free s \<Longrightarrow>
    room_step C multi s (goto t Discard_Clearing (room s) s)"
| discard_clear: "pc s t = Discard_Clearing \<Longrightarrow>
    room_step C multi s (goto t Discard_Reset ((room s)\<lparr>items := []\<rparr>) s)"
| discard_reset: "pc s t = Discard_Reset \<Longrightarrow> state_free s \<Longrightarrow>
    room_step C multi s (goto t Idle ((room s)\<lparr>is_discarding := False\<rparr>) s)"

definition room_start :: "'a threads" where
  "room_start = \<lparr>room = empty_room, pc = (\<lambda>_. Idle)\<rparr>"

inductive room_reachable :: "nat \<Rightarrow> bool \<Rightarrow> 'a threads \<Rightarrow> bool" for C multi where
  reach_start: "room_reachable C multi room_start"
| reach_step: "room_reachable C multi s \<Longrightarrow> room_step C multi s s' \<Longrightarrow> room_reachable C multi s'"

lemma goto_simps [simp]:
  "room (goto t p r s) = r" "pc (goto t p r s) u = (if u = t then p else pc s u)"
  by (simp_all add: goto_def)

lemma reader_simps [simp]:
  "items (reader_enter r) = items r" "is_discarding (reader_enter r) = is_discarding r"
  "active_readers (reader_enter r) = active_readers r + 1"
  "items (reader_exit r) = items r" "is_discarding (reader_exit r) = is_discarding r"
  "active_readers (reader_exit r) = active_readers r - 1"
  by (simp_all add: reader_enter_def reader_exit_def)

section \<open>Invariants of the interleaving\<close>

inductive_cases room_step_cases: "room_step C multi s s'"

definition locks_inv :: "nat \<Rightarrow> 'a threads \<Rightarrow> bool" where
  "locks_inv C s \<longleftrightarrow>
     finite {t. pc s t \<noteq> Idle}
   \<and> (\<forall>t u. holds_state (pc s t) \<longrightarrow> holds_state (pc s u) \<longrightarrow> t = u)
   \<and> (\<forall>t u. writes_data (pc s t) \<longrightarrow> writes_data (pc s u) \<or> reads_data (pc s u) \<longrightarrow> t = u)
   \<and> (\<forall>t. will_push (pc s t) \<longrightarrow> length (items (room s)) < C)
   \<and> length (items (room s)) \<le> C
   \<and> active_readers (room s) = card {t. is_reader (pc s t)}"

lemma finite_step: "room_step C multi s s' \<Longrightarrow> finite {t. pc s t \<noteq> Idle} \<Longrightarrow> finite {t. pc s' t \<noteq> Idle}"
proof -
  assume "room_step C multi s s'" and fin: "finite {t. pc s t \<noteq> Idle}"
  then obtain t where "\<forall>u. u \<noteq> t \<longrightarrow> pc s' u = pc s u" by cases auto
  then have "{t. pc s' t \<noteq> Idle} \<subseteq> insert t {t. pc s t \<noteq> Idle}" by auto
  with fin show ?thesis by (meson finite.insertI finite_subset)
qed

lemma state_mutex_step:
  "room_step C multi s s' \<Longrightarrow> (\<forall>t u. holds_state (pc s t) \<longrightarrow> holds_state (pc s u) \<longrightarrow> t = u) \<Longrightarrow>
    (\<forall>t u. holds_state (pc s' t) \<longrightarrow> holds_state (pc s' u) \<longrightarrow> t = u)"
  by (erule room_step.cases) (auto simp: state_free_def split: if_splits)

lemma data_mutex_step:
  "room_step C multi s s' \<Longrightarrow>
    (\<forall>t u. writes_data (pc s t) \<longrightarrow> writes_data (pc s u) \<or> reads_data (pc s u) \<longrightarrow> t = u) \<Longrightarrow>
    (\<forall>t u. writes_data (pc s' t) \<longrightarrow> writes_data (pc s' u) \<or> reads_data (pc s' u) \<longrightarrow> t = u)"
  by (erule room_step.cases) (auto simp: data_free_def no_writer_def split: if_splits)

lemma will_push_holds: "will_push p \<Longrightarrow> holds_state p" by (cases p) auto

lemma room_to_push_step:
  assumes "room_step C multi s s'"
    and "\<forall>t u. holds_state (pc s t) \<longrightarrow> holds_state (pc s u) \<longrightarrow> t = u"
    and "\<forall>t. will_push (pc s t) \<longrightarrow> length (items (room s)) < C"
  shows "\<forall>t. will_push (pc s' t) \<longrightarrow> length (items (room s')) < C"
  using assms
  by (cases rule: room_step.cases)
    (auto simp: producer_may_run_def; metis will_push.simps will_push_holds holds_state.simps)+

lemma size_step:
  assumes "room_step C multi s s'"
    and "\<forall>t. will_push (pc s t) \<longrightarrow> length (items (room s)) < C" "length (items (room s)) \<le> C"
  shows "length (items (room s')) \<le> C"
  using assms by (cases rule: room_step.cases) (auto; metis Suc_leI will_push.simps(2))+

lemma is_reader_update:
  "{u. is_reader (if u = t then p else f u)} =
     (if is_reader p then insert t {u. is_reader (f u)} else {u. is_reader (f u)} - {t})"
  by auto

lemma readers_step:
  assumes "room_step C multi s s'" "finite {t. pc s t \<noteq> Idle}"
    and "active_readers (room s) = card {t. is_reader (pc s t)}"
  shows "active_readers (room s') = card {t. is_reader (pc s' t)}"
proof -
  have fin: "finite {t. is_reader (pc s t)}"
    by (rule finite_subset [OF _ assms(2)]) (auto split: pc.splits)
  have same: "{t. is_reader (pc s t)} - {u} = {t. is_reader (pc s t)}" if "\<not> is_reader (pc s u)" for u
    using that by auto
  have in': "insert u {t. is_reader (pc s t)} = {t. is_reader (pc s t)}" if "is_reader (pc s u)" for u
    using that by auto
  show ?thesis
    using assms(1,3) fin
    by (cases rule: room_step.cases) (simp_all add: is_reader_update same in' card_Diff_singleton)
qed

lemma locks_invD:
  assumes "locks_inv C s"
  shows "finite {t. pc s t \<noteq> Idle}"
    "\<forall>t u. holds_state (pc s t) \<longrightarrow> holds_state (pc s u) \<longrightarrow> t = u"
    "\<forall>t u. writes_data (pc s t) \<longrightarrow> writes_data (pc s u) \<or> reads_data (pc s u) \<longrightarrow> t = u"
    "\<forall>t. will_push (pc s t) \<longrightarrow> length (items (room s)) < C"
    "length (items (room s)) \<le> C"
    "active_readers (room s) = card {t. is_reader (pc s t)}"
  using assms by (simp_all add: locks_inv_def)

lemma locks_inv_step:
  assumes step: "room_step C multi s s'" and inv: "locks_inv C s"
  shows "locks_inv C s'"
  unfolding locks_inv_def
proof (intro conjI)
  note i = locks_invD [OF inv]
  show "finite {t. pc s' t \<noteq> Idle}" by (rule finite_step [OF step i(1)])
  show "\<forall>t u. holds_state (pc s' t) \<longrightarrow> holds_state (pc s' u) \<longrightarrow> t = u"
    by (rule state_mutex_step [OF step i(2)])
  show "\<forall>t u. writes_data (pc s' t) \<longrightarrow> writes_data (pc s' u) \<or> reads_data (pc s' u) \<longrightarrow> t = u"
    by (rule data_mutex_step [OF step i(3)])
  show "\<forall>t. will_push (pc s' t) \<longrightarrow> length (items (room s')) < C"
    by (rule room_to_push_step [OF step i(2,4)])
  show "length (items (room s')) \<le> C" by (rule size_step [OF step i(4,5)])
  show "active_readers (room s') = card {t. is_reader (pc s' t)}"
    by (rule readers_step [OF step i(1,6)])
qed

lemma locks_inv_start: "locks_inv C room_start"
  by (simp add: locks_inv_def room_start_def empty_room_def)

lemma locks_inv_reachable: "room_reachable C multi s \<Longrightarrow> locks_inv C s"
  by (induction rule: room_reachable.induct) (auto intro: locks_inv_start locks_inv_step)

text \<open>With one \<open>Discard\<close> at a time the flag belongs to it, and it clears only a quiet room.\<close>

fun is_clearer :: "'a pc \<Rightarrow> bool" where
  "is_clearer Discard_Unlocked = True"
| "is_clearer Discard_Clearing = True"
| "is_clearer _ = False"

fun is_worker :: "'a pc \<Rightarrow> bool" where
  "is_worker (Registered w) = w"
| "is_worker (Reading w) = w"
| "is_worker _ = False"

definition discard_inv :: "nat \<Rightarrow> 'a threads \<Rightarrow> bool" where
  "discard_inv C s \<longleftrightarrow>
     (\<forall>t u. is_discarder (pc s t) \<longrightarrow> is_discarder (pc s u) \<longrightarrow> t = u)
   \<and> (is_discarding (room s) \<longleftrightarrow> (\<exists>t. is_discarder (pc s t)))
   \<and> (\<forall>t. holds_state (pc s t) \<longrightarrow> \<not> is_discarding (room s))
   \<and> (\<forall>t u. is_clearer (pc s t) \<longrightarrow> \<not> is_reader (pc s u))
   \<and> (\<forall>t. is_worker (pc s t) \<longrightarrow> length (items (room s)) = C)"

lemma discard_invD:
  assumes "discard_inv C s"
  shows "\<forall>t u. is_discarder (pc s t) \<longrightarrow> is_discarder (pc s u) \<longrightarrow> t = u"
    "is_discarding (room s) \<longleftrightarrow> (\<exists>t. is_discarder (pc s t))"
    "\<forall>t. holds_state (pc s t) \<longrightarrow> \<not> is_discarding (room s)"
    "\<forall>t u. is_clearer (pc s t) \<longrightarrow> \<not> is_reader (pc s u)"
    "\<forall>t. is_worker (pc s t) \<longrightarrow> length (items (room s)) = C"
  using assms unfolding discard_inv_def by blast+

lemma is_clearer_discarder: "is_clearer p \<Longrightarrow> is_discarder p" by (cases p) auto
lemma is_worker_reader: "is_worker p \<Longrightarrow> is_reader p" by (cases p) auto

lemma discarder_unique_step:
  assumes "room_step C False s s'" "\<forall>t u. is_discarder (pc s t) \<longrightarrow> is_discarder (pc s u) \<longrightarrow> t = u"
  shows "\<forall>t u. is_discarder (pc s' t) \<longrightarrow> is_discarder (pc s' u) \<longrightarrow> t = u"
  using assms by (cases rule: room_step.cases) (auto split: if_splits; metis is_discarder.simps)+

lemma flag_owner_step:
  assumes "room_step C False s s'" "\<forall>t u. is_discarder (pc s t) \<longrightarrow> is_discarder (pc s u) \<longrightarrow> t = u"
    "is_discarding (room s) \<longleftrightarrow> (\<exists>t. is_discarder (pc s t))"
  shows "is_discarding (room s') \<longleftrightarrow> (\<exists>t. is_discarder (pc s' t))"
  using assms by (cases rule: room_step.cases) (auto split: if_splits; metis is_discarder.simps)+

lemma feeding_flag_step:
  assumes "room_step C False s s'" "\<forall>t. holds_state (pc s t) \<longrightarrow> \<not> is_discarding (room s)"
  shows "\<forall>t. holds_state (pc s' t) \<longrightarrow> \<not> is_discarding (room s')"
  using assms
  by (cases rule: room_step.cases)
    (auto simp: state_free_def producer_may_run_def split: if_splits; metis holds_state.simps(1,2,3))+

lemma no_reader_iff:
  assumes "locks_inv C s"
  shows "active_readers (room s) = 0 \<longleftrightarrow> (\<forall>t. \<not> is_reader (pc s t))"
proof -
  have "finite {t. is_reader (pc s t)}"
    by (rule finite_subset [OF _ locks_invD(1) [OF assms]]) (auto split: pc.splits)
  then show ?thesis using locks_invD(6) [OF assms] by auto
qed

lemma quiet_clear_step:
  assumes step: "room_step C False s s'" and inv: "locks_inv C s" "discard_inv C s"
  shows "\<forall>t u. is_clearer (pc s' t) \<longrightarrow> \<not> is_reader (pc s' u)"
  using step
proof cases
  case (discard_waited t)
  then show ?thesis using no_reader_iff [OF inv(1)] by auto
next
  case (filled_enter t)
  then have "\<forall>u. \<not> is_clearer (pc s u)" using discard_invD(2) [OF inv(2)] is_clearer_discarder by blast
  with filled_enter show ?thesis by auto
next
  case (search_enter t)
  then have "\<forall>u. \<not> is_clearer (pc s u)" using discard_invD(2) [OF inv(2)] is_clearer_discarder by blast
  with search_enter show ?thesis by auto
qed (use discard_invD(4) [OF inv(2)] in \<open>auto split: if_splits; metis is_clearer.simps is_reader.simps\<close>)+

lemma worker_full_step:
  assumes step: "room_step C False s s'" and inv: "locks_inv C s" "discard_inv C s"
  shows "\<forall>t. is_worker (pc s' t) \<longrightarrow> length (items (room s')) = C"
  using step
proof cases
  case (filled_enter t)
  then show ?thesis by (auto simp: consumer_may_run_def)
next
  case (feed_push t x)
  then have "length (items (room s)) < C" using locks_invD(4) [OF inv(1)] by (metis will_push.simps(2))
  then have "\<forall>u. \<not> is_worker (pc s u)" using discard_invD(5) [OF inv(2)] by auto
  with feed_push show ?thesis by auto
next
  case (discard_clear t)
  then have "\<forall>u. \<not> is_worker (pc s u)"
    using discard_invD(4) [OF inv(2)] is_worker_reader by (metis is_clearer.simps(2))
  with discard_clear show ?thesis by auto
qed (use discard_invD(5) [OF inv(2)] in \<open>auto split: if_splits; metis is_worker.simps\<close>)+

lemma discard_inv_step:
  assumes step: "room_step C False s s'" and inv: "locks_inv C s" "discard_inv C s"
  shows "discard_inv C s'"
  unfolding discard_inv_def
proof (intro conjI)
  note i = discard_invD [OF inv(2)]
  show "\<forall>t u. is_discarder (pc s' t) \<longrightarrow> is_discarder (pc s' u) \<longrightarrow> t = u"
    by (rule discarder_unique_step [OF step i(1)])
  show "is_discarding (room s') \<longleftrightarrow> (\<exists>t. is_discarder (pc s' t))"
    by (rule flag_owner_step [OF step i(1,2)])
  show "\<forall>t. holds_state (pc s' t) \<longrightarrow> \<not> is_discarding (room s')"
    by (rule feeding_flag_step [OF step i(3)])
  show "\<forall>t u. is_clearer (pc s' t) \<longrightarrow> \<not> is_reader (pc s' u)"
    by (rule quiet_clear_step [OF step inv])
  show "\<forall>t. is_worker (pc s' t) \<longrightarrow> length (items (room s')) = C"
    by (rule worker_full_step [OF step inv])
qed

lemma discard_inv_start: "discard_inv C room_start"
  by (simp add: discard_inv_def room_start_def empty_room_def)

lemma discard_inv_reachable: "room_reachable C False s \<Longrightarrow> discard_inv C s"
proof (induction rule: room_reachable.induct)
  case reach_start
  show ?case by (rule discard_inv_start)
next
  case (reach_step s s')
  then show ?case using discard_inv_step locks_inv_reachable by blast
qed

lemma items_step:
  assumes "room_step C multi s s'" "locks_inv C s"
  shows "items (room s') = items (room s)
     \<or> (\<exists>u x. writes_data (pc s u) \<and> items (room s') = items (room s) @ [x] \<and> length (items (room s)) < C)
     \<or> (\<exists>u. writes_data (pc s u) \<and> items (room s') = [])"
  using assms(1)
proof cases
  case (feed_push t x)
  then have "length (items (room s)) < C" using locks_invD(4) [OF assms(2)] by (metis will_push.simps(2))
  with feed_push show ?thesis by (intro disjI2 disjI1 exI [where x = t] exI [where x = x]) simp
next
  case (discard_clear t)
  then show ?thesis by (auto intro!: exI [where x = t])
qed auto

section \<open>Data races\<close>

text \<open>
  Beside the vector accesses under \<open>data_mutex_\<close>, the code reads \<open>items_.size()\<close> with only
  \<open>state_mutex_\<close> held: in the predicates of the waits of \<open>Feed\<close> and \<open>with_contents_when_filled\<close>,
  which a thread at its wait evaluates when it gets the mutex, and in the test of \<open>Feed\<close> after its
  push.  Two threads race when one can write the vector while the other can access it.
\<close>

definition reads_size :: "'a threads \<Rightarrow> nat \<Rightarrow> bool" where
  "reads_size s t \<longleftrightarrow>
     (case pc s t of
        Feed_Wait _ \<Rightarrow> state_free s
      | Filled_Wait \<Rightarrow> state_free s
      | Feed_Check \<Rightarrow> True
      | _ \<Rightarrow> False)"

definition data_race :: "'a threads \<Rightarrow> nat \<Rightarrow> nat \<Rightarrow> bool" where
  "data_race s t u \<longleftrightarrow> t \<noteq> u \<and> writes_data (pc s t)
     \<and> (writes_data (pc s u) \<or> reads_data (pc s u) \<or> reads_size s u)"

lemma size_reader_mutex:
  assumes "locks_inv C s" "reads_size s u" "pc s t = Feed_Data x"
  shows "t = u"
proof (cases "pc s u")
  case Feed_Check
  then show ?thesis using locks_invD(2) [OF assms(1)] assms(3) by (metis holds_state.simps(2,3))
qed (use assms(2,3) in \<open>auto simp: reads_size_def state_free_def; metis holds_state.simps(2)\<close>)+

lemma only_clear_races:
  assumes "locks_inv C s" "data_race s t u"
  shows "pc s t = Discard_Clearing" "reads_size s u"
proof -
  have r: "t \<noteq> u" "writes_data (pc s t)" using assms(2) by (simp_all add: data_race_def)
  show size: "reads_size s u" using locks_invD(3) [OF assms(1)] assms(2) by (auto simp: data_race_def)
  show "pc s t = Discard_Clearing"
    using r size_reader_mutex [OF assms(1) size] by (cases "pc s t") auto
qed

section \<open>Operations as runs\<close>

text \<open>
  An operation called while no thread is inside a critical section runs through the steps of its
  thread to the result of the first part.
\<close>

definition calm :: "'a threads \<Rightarrow> bool" where
  "calm s \<longleftrightarrow> (\<forall>u. \<not> holds_state (pc s u) \<and> \<not> writes_data (pc s u) \<and> \<not> reads_data (pc s u))"

abbreviation room_steps :: "nat \<Rightarrow> bool \<Rightarrow> 'a threads \<Rightarrow> 'a threads \<Rightarrow> bool" where
  "room_steps C multi \<equiv> (room_step C multi)\<^sup>*\<^sup>*"

lemma steps_reachable: "room_steps C multi s s' \<Longrightarrow> room_reachable C multi s \<Longrightarrow> room_reachable C multi s'"
  by (induction rule: rtranclp_induct) (auto intro: room_reachable.reach_step)

lemma goto_goto [simp]: "goto t p r (goto t p' r' s) = goto t p r s"
  by (simp add: goto_def)

lemma goto_idle [simp]: "pc s t = Idle \<Longrightarrow> goto t Idle r s = s\<lparr>room := r\<rparr>"
  by (simp add: goto_def fun_upd_idem)

lemma calm_free:
  assumes "calm s"
  shows "state_free (goto t p r s) \<longleftrightarrow> \<not> holds_state p"
    "no_writer (goto t p r s) \<longleftrightarrow> \<not> writes_data p"
    "data_free (goto t p r s) \<longleftrightarrow> \<not> writes_data p \<and> \<not> reads_data p"
  using assms by (auto simp: calm_def state_free_def no_writer_def data_free_def)

lemma calm_room [simp]: "calm (s\<lparr>room := r\<rparr>) = calm s"
  by (simp add: calm_def)

lemma step_then: "room_step C multi s s1 \<Longrightarrow> room_steps C multi s1 s2 \<Longrightarrow> room_steps C multi s s2"
  by (rule converse_rtranclp_into_rtranclp)

lemma feed_run:
  assumes s: "calm s" "pc s t = Idle" and ok: "Feed C x (room s) = Inr r"
  shows "room_steps C multi s (s\<lparr>room := r\<rparr>)"
proof -
  have may: "producer_may_run C (room s)" and r: "r = (room s)\<lparr>items := items (room s) @ [x]\<rparr>"
    using ok by (auto simp: Feed_def split: if_splits)
  let ?s = "\<lambda>p. goto t p (room s) s"
  have "room_step C multi s (?s (Feed_Wait x))"
    by (rule room_step.call_feed [OF s(2)])
  moreover have "room_step C multi (?s (Feed_Wait x)) (?s (Feed_Locked x))"
    using room_step.feed_enter [where s = "?s (Feed_Wait x)" and t = t] s(1) may by (simp add: calm_free)
  moreover have "room_step C multi (?s (Feed_Locked x)) (?s (Feed_Data x))"
    using room_step.feed_data [where s = "?s (Feed_Locked x)" and t = t] s(1) by (simp add: calm_free)
  moreover have "room_step C multi (?s (Feed_Data x)) (goto t Feed_Check r s)"
    using room_step.feed_push [where s = "?s (Feed_Data x)" and t = t] r by simp
  moreover have "room_step C multi (goto t Feed_Check r s) (s\<lparr>room := r\<rparr>)"
    using room_step.feed_done [where s = "goto t Feed_Check r s" and t = t] s(2) by simp
  ultimately show ?thesis by (meson step_then rtranclp.rtrancl_refl)
qed

lemma read_run:
  assumes s: "calm s" "pc s t = Idle"
  shows "room_steps C multi (goto t (Registered w) (reader_enter (room s)) s) (goto t (Reading w) (reader_enter (room s)) s)"
    and "room_steps C multi (goto t (Reading w) (reader_enter (room s)) s) s"
proof -
  let ?r = "reader_enter (room s)"
  let ?s = "\<lambda>p. goto t p ?r s"
  have leave: "reader_exit ?r = room s" by (simp add: reader_enter_def reader_exit_def)
  have "room_step C multi (?s (Registered w)) (?s (Reading w))"
    using room_step.read_begin [where s = "?s (Registered w)" and t = t] s(1) by (simp add: calm_free)
  then show "room_steps C multi (?s (Registered w)) (?s (Reading w))" by blast
  have "room_step C multi (?s (Reading w)) (?s (Deregister w))"
    using room_step.read_end [where s = "?s (Reading w)" and t = t] by simp
  moreover have "room_step C multi (?s (Deregister w)) s"
    using room_step.deregister [where s = "?s (Deregister w)" and t = t] s by (simp add: calm_free leave)
  ultimately show "room_steps C multi (?s (Reading w)) s" by (meson step_then rtranclp.rtrancl_refl)
qed

lemma filled_run:
  assumes s: "calm s" "pc s t = Idle" and ok: "with_contents_when_filled C f (room s) = Inr (r, Some v)"
  shows "room_steps C multi s (goto t (Reading True) (reader_enter (room s)) s)"
    and "room_steps C multi (goto t (Reading True) (reader_enter (room s)) s) (s\<lparr>room := r\<rparr>)"
    and "v = f (items (room s))" "r = room s" "length (items (room s)) = C"
proof -
  have may: "consumer_may_run C (room s)" and open_: "\<not> is_discarding (room s)"
    and res: "r = reader_exit (reader_enter (room s))" "v = f (take C (items (room s)))"
    using ok by (auto simp: with_contents_when_filled_def Let_def split: if_splits)
  show r: "r = room s" using res(1) by (simp add: reader_enter_def reader_exit_def)
  show len: "length (items (room s)) = C" using may open_ by (simp add: consumer_may_run_def)
  show "v = f (items (room s))" using res(2) len by simp
  let ?s = "goto t Filled_Wait (room s) s"
  have "room_step C multi s ?s" by (rule room_step.call_filled [OF s(2)])
  moreover have "room_step C multi ?s (goto t (Registered True) (reader_enter (room s)) s)"
    using room_step.filled_enter [where s = ?s and t = t] s(1) may open_ by (simp add: calm_free)
  ultimately show "room_steps C multi s (goto t (Reading True) (reader_enter (room s)) s)"
    using read_run(1) [OF s] by (meson step_then)
  show "room_steps C multi (goto t (Reading True) (reader_enter (room s)) s) (s\<lparr>room := r\<rparr>)"
    using read_run(2) [OF s] by (simp add: r)
qed

lemma search_run:
  assumes s: "calm s" "pc s t = Idle" and ok: "with_current_contents f (room s) = (r, Some v)"
  shows "room_steps C multi s (goto t (Reading False) (reader_enter (room s)) s)"
    and "room_steps C multi (goto t (Reading False) (reader_enter (room s)) s) (s\<lparr>room := r\<rparr>)"
    and "v = f (items (room s))" "r = room s"
proof -
  have open_: "\<not> is_discarding (room s)"
    and res: "r = reader_exit (reader_enter (room s))" "v = f (items (room s))"
    using ok by (auto simp: with_current_contents_def Let_def split: if_splits)
  show r: "r = room s" using res(1) by (simp add: reader_enter_def reader_exit_def)
  show "v = f (items (room s))" by (rule res(2))
  let ?s = "goto t Search_Start (room s) s"
  have "room_step C multi s ?s" by (rule room_step.call_search [OF s(2)])
  moreover have "room_step C multi ?s (goto t (Registered False) (reader_enter (room s)) s)"
    using room_step.search_enter [where s = ?s and t = t] s(1) open_ by (simp add: calm_free)
  ultimately show "room_steps C multi s (goto t (Reading False) (reader_enter (room s)) s)"
    using read_run(1) [OF s] by (meson step_then)
  show "room_steps C multi (goto t (Reading False) (reader_enter (room s)) s) (s\<lparr>room := r\<rparr>)"
    using read_run(2) [OF s] by (simp add: r)
qed

lemma discard_runs:
  assumes s: "calm s" "pc s t = Idle" and ok: "Discard (room s) = Inr r"
    and one: "multi \<or> (\<forall>u. \<not> is_discarder (pc s u))"
  shows "room_steps C multi s (goto t Discard_Unlocked ((room s)\<lparr>is_discarding := True\<rparr>) s)"
    and "room_steps C multi (goto t Discard_Unlocked ((room s)\<lparr>is_discarding := True\<rparr>) s) (s\<lparr>room := r\<rparr>)"
proof -
  have none: "active_readers (room s) = 0"
    and r: "r = (room s)\<lparr>items := [], is_discarding := False\<rparr>"
    using ok by (auto simp: Discard_def Let_def split: if_splits)
  let ?r = "(room s)\<lparr>is_discarding := True\<rparr>"
  let ?s = "\<lambda>p. goto t p ?r s"
  have "room_step C multi s (goto t Discard_Start (room s) s)"
    by (rule room_step.call_discard [OF s(2)])
  moreover have "room_step C multi (goto t Discard_Start (room s) s) (?s Discard_Wait)"
    using room_step.discard_begin [where s = "goto t Discard_Start (room s) s" and t = t and multi = multi] s(1) one
    by (auto simp: calm_free)
  moreover have "room_step C multi (?s Discard_Wait) (?s Discard_Unlocked)"
    using room_step.discard_waited [where s = "?s Discard_Wait" and t = t] s(1) none by (simp add: calm_free)
  ultimately show "room_steps C multi s (?s Discard_Unlocked)" by (meson step_then rtranclp.rtrancl_refl)
  have "room_step C multi (?s Discard_Unlocked) (?s Discard_Clearing)"
    using room_step.discard_data [where s = "?s Discard_Unlocked" and t = t] s(1) by (simp add: calm_free)
  moreover have "room_step C multi (?s Discard_Clearing) (goto t Discard_Reset (?r\<lparr>items := []\<rparr>) s)"
    using room_step.discard_clear [where s = "?s Discard_Clearing" and t = t] by simp
  moreover have "room_step C multi (goto t Discard_Reset (?r\<lparr>items := []\<rparr>) s) (s\<lparr>room := r\<rparr>)"
    using room_step.discard_reset [where s = "goto t Discard_Reset (?r\<lparr>items := []\<rparr>) s" and t = t] s r
    by (simp add: calm_free)
  ultimately show "room_steps C multi (?s Discard_Unlocked) (s\<lparr>room := r\<rparr>)"
    by (meson step_then rtranclp.rtrancl_refl)
qed

lemma feeds_run:
  assumes "calm s" "pc s t = Idle" "\<not> is_discarding (room s)" "length (items (room s)) + length xs \<le> C"
  shows "room_steps C multi s (s\<lparr>room := (room s)\<lparr>items := items (room s) @ xs\<rparr>\<rparr>)"
  using assms
proof (induction xs arbitrary: s)
  case (Cons x xs)
  let ?r = "(room s)\<lparr>items := items (room s) @ [x]\<rparr>"
  have "Feed C x (room s) = Inr ?r"
    using Cons.prems by (simp add: Feed_def producer_may_run_def)
  from feed_run [OF Cons.prems(1,2) this]
  have first: "room_steps C multi s (s\<lparr>room := ?r\<rparr>)" .
  have "room_steps C multi (s\<lparr>room := ?r\<rparr>) (s\<lparr>room := (room s)\<lparr>items := items (room s) @ x # xs\<rparr>\<rparr>)"
    using Cons.IH [of "s\<lparr>room := ?r\<rparr>"] Cons.prems by simp
  with first show ?case by (rule rtranclp_trans)
qed simp

text \<open>The schedule of two overlapping discards: the second ends before the first clears.\<close>

definition overlap_1 :: "'a threads" where
  "overlap_1 = goto 0 Discard_Unlocked (empty_room\<lparr>is_discarding := True\<rparr>) room_start"

definition overlap_2 :: "'a list \<Rightarrow> 'a threads" where
  "overlap_2 xs = overlap_1\<lparr>room := empty_room\<lparr>items := xs\<rparr>\<rparr>"

lemma calm_overlap: "calm room_start" "calm overlap_1" "calm (overlap_2 xs)"
  by (auto simp: calm_def overlap_1_def overlap_2_def room_start_def)

lemma overlap_reachable:
  assumes "length xs \<le> C"
  shows "room_reachable C True (overlap_2 xs)"
proof -
  have start: "room_reachable C True (room_start :: 'a threads)" by (rule room_reachable.reach_start)
  have d: "Discard (room room_start) = Inr (empty_room :: 'a buffer_room)"
    by (simp add: Discard_def room_start_def empty_room_def)
  have "room_steps C True (room_start :: 'a threads) overlap_1"
    using discard_runs(1) [OF calm_overlap(1) _ d, where t = 0 and multi = True and C = C]
    by (simp add: overlap_1_def room_start_def)
  then have one: "room_reachable C True (overlap_1 :: 'a threads)" by (rule steps_reachable [OF _ start])
  have d2: "Discard (room overlap_1) = Inr (empty_room :: 'a buffer_room)"
    by (simp add: Discard_def overlap_1_def empty_room_def)
  have i1: "pc (overlap_1 :: 'a threads) 1 = Idle" by (simp add: overlap_1_def room_start_def)
  have "room_steps C True (overlap_1 :: 'a threads) (overlap_1\<lparr>room := empty_room\<rparr>)"
    using rtranclp_trans [OF discard_runs(1,2) [OF calm_overlap(2) i1 d2]] by simp
  then have two: "room_reachable C True (overlap_1\<lparr>room := empty_room\<rparr> :: 'a threads)"
    by (rule steps_reachable [OF _ one])
  have "room_steps C True (overlap_1\<lparr>room := empty_room\<rparr>) (overlap_2 xs)"
    using feeds_run [of "overlap_1\<lparr>room := empty_room\<rparr>" 1 xs C True] assms i1
    by (simp add: calm_overlap overlap_2_def) (simp add: empty_room_def)
  then show ?thesis by (rule steps_reachable [OF _ two])
qed

lemma overlap_race:
  assumes xs: "length (xs :: 'a list) = C"
  shows "\<exists>s. room_reachable C True s \<and> pc s 1 = Reading True \<and> items (room s) = ([] :: 'a list)"
proof -
  let ?s = "overlap_2 xs"
  have "pc ?s 0 = Discard_Unlocked" by (simp add: overlap_1_def overlap_2_def)
  moreover have "pc ?s u = Idle" if "u \<noteq> 0" for u
    using that by (simp add: overlap_1_def overlap_2_def room_start_def)
  ultimately have pcs: "pc ?s 0 = Discard_Unlocked" "pc ?s 1 = Idle" "\<And>u. u \<noteq> 0 \<Longrightarrow> pc ?s u = Idle"
    by simp_all
  have r0: "room ?s = empty_room\<lparr>items := xs\<rparr>" by (simp add: overlap_2_def)
  let ?w = "\<lambda>p r. goto 1 p r ?s"
  let ?r = "reader_enter (room ?s)"
  let ?c = "\<lambda>p. goto 0 p ?r (?w (Registered True) ?r)"
  have all_pcs: "pc (?c p) u = (if u = 0 then p else if u = 1 then Registered True else Idle)" for p u
    using pcs by simp
  have "room_step C True ?s (?w Filled_Wait (room ?s))"
    by (rule room_step.call_filled) (use pcs in simp)
  moreover have "room_step C True (?w Filled_Wait (room ?s)) (?w (Registered True) ?r)"
    using room_step.filled_enter [where s = "?w Filled_Wait (room ?s)" and t = 1 and C = C and multi = True] xs
    by (simp add: calm_free calm_overlap consumer_may_run_def r0) (simp add: empty_room_def)
  moreover have "room_step C True (?w (Registered True) ?r) (?c Discard_Clearing)"
    using room_step.discard_data [where s = "?w (Registered True) ?r" and t = 0] pcs
    by (simp add: calm_free calm_overlap)
  moreover have "room_step C True (?c Discard_Clearing) (goto 0 Discard_Reset (?r\<lparr>items := []\<rparr>) (?c Discard_Clearing))"
    using room_step.discard_clear [where s = "?c Discard_Clearing" and t = 0] by simp
  moreover have "no_writer (goto 0 Discard_Reset (?r\<lparr>items := []\<rparr>) (?c Discard_Clearing))"
    using pcs by (simp add: no_writer_def)
  ultimately have "room_reachable C True
      (goto 1 (Reading True) (?r\<lparr>items := []\<rparr>) (goto 0 Discard_Reset (?r\<lparr>items := []\<rparr>) (?c Discard_Clearing)))"
    using overlap_reachable [of xs C] xs
      room_step.read_begin [where s = "goto 0 Discard_Reset (?r\<lparr>items := []\<rparr>) (?c Discard_Clearing)" and t = 1 and w = True]
    by (simp del: goto_goto) (meson room_reachable.reach_step)
  then show ?thesis
    by (intro exI [where x = "goto 1 (Reading True) (?r\<lparr>items := []\<rparr>)
          (goto 0 Discard_Reset (?r\<lparr>items := []\<rparr>) (?c Discard_Clearing))"]) simp
qed

text \<open>A waiting worker can evaluate its predicate while a \<open>Discard\<close> clears the vector.\<close>

lemma clear_race_reachable:
  "\<exists>s :: 'a threads. room_reachable C False s \<and> pc s 0 = Discard_Clearing \<and> pc s 1 = Filled_Wait \<and> data_race s 0 1"
proof -
  have d: "Discard (room room_start) = Inr (empty_room :: 'a buffer_room)"
    by (simp add: Discard_def room_start_def empty_room_def)
  have "room_steps C False (room_start :: 'a threads) overlap_1"
    using discard_runs(1) [OF calm_overlap(1) _ d, where t = 0 and multi = False and C = C]
    by (simp add: overlap_1_def room_start_def)
  then have 1: "room_reachable C False (overlap_1 :: 'a threads)"
    by (rule steps_reachable [OF _ room_reachable.reach_start])
  let ?s2 = "goto 0 Discard_Clearing (room overlap_1) (overlap_1 :: 'a threads)"
  have "room_step C False overlap_1 ?s2"
    using room_step.discard_data [where s = overlap_1 and t = 0]
    by (simp add: overlap_1_def calm_free calm_overlap(1))
  with 1 have 2: "room_reachable C False ?s2" by (rule room_reachable.reach_step)
  let ?s3 = "goto 1 Filled_Wait (room ?s2) ?s2"
  have pcs: "pc ?s3 u = (if u = 0 then Discard_Clearing else if u = 1 then Filled_Wait else Idle)" for u
    by (simp add: overlap_1_def room_start_def)
  have "room_step C False ?s2 ?s3"
    by (rule room_step.call_filled) (simp add: overlap_1_def room_start_def)
  with 2 have 3: "room_reachable C False ?s3" by (rule room_reachable.reach_step)
  have "state_free ?s3" unfolding state_free_def pcs by simp
  then have "data_race ?s3 0 1" unfolding data_race_def reads_size_def pcs by simp
  with 3 show ?thesis unfolding pcs by (intro exI [where x = ?s3] conjI) (simp_all only: pcs; simp)+
qed

section \<open>Properties\<close>

text \<open>C28: Whatever the threads do, overlapping discards included, the room never holds more than
  \<open>C\<close> items, \<open>active_readers_\<close> counts the registered readers, a thread that holds \<open>data_mutex_\<close> to
  push or clear is alone with it, and no step of any thread changes the items under a running
  lambda.  The one data race is that of \<open>Discard\<close>, which clears the vector without
  \<open>state_mutex_\<close>, with a thread that reads \<open>items_.size()\<close> under \<open>state_mutex_\<close> alone; and this race
  is real: a single \<open>Discard\<close> and a waiting worker are enough to reach it.\<close>

theorem room_is_thread_safe:
  assumes "room_reachable C multi (s :: 'a threads)"
  shows "length (items (room s)) \<le> C
    \<and> active_readers (room s) = card {t. is_reader (pc s t)}
    \<and> (\<forall>t u. writes_data (pc s t) \<and> (writes_data (pc s u) \<or> reads_data (pc s u)) \<longrightarrow> t = u)
    \<and> (\<forall>t s'. reads_data (pc s t) \<and> room_step C multi s s' \<longrightarrow> items (room s') = items (room s))
    \<and> (\<forall>t u. data_race s t u \<longrightarrow> pc s t = Discard_Clearing \<and> reads_size s u)
    \<and> (\<exists>(s1 :: 'a threads) t u. room_reachable C False s1 \<and> data_race s1 t u)"
proof -
  have inv: "locks_inv C s" by (rule locks_inv_reachable [OF assms])
  have excl: "t = u" if "writes_data (pc s t)" "writes_data (pc s u) \<or> reads_data (pc s u)" for t u
    using locks_invD(3) [OF inv] that by blast
  have same: "items (room s') = items (room s)" if "reads_data (pc s t)" "room_step C multi s s'" for t s'
  proof -
    have "\<not> writes_data (pc s u)" for u
      using excl [of u t] that(1) by (cases "pc s u"; cases "pc s t") auto
    then show ?thesis using items_step [OF that(2) inv] by blast
  qed
  have race: "\<exists>(s1 :: 'a threads) t u. room_reachable C False s1 \<and> data_race s1 t u"
    using clear_race_reachable by blast
  show ?thesis
    using locks_invD(5,6) [OF inv] excl same only_clear_races [OF inv] race by blast
qed

theorem room_is_thread_safe_witness:
  "length (items (room (overlap_2 [5 :: int]))) \<le> 1
    \<and> active_readers (room (overlap_2 [5 :: int])) = card {t. is_reader (pc (overlap_2 [5 :: int]) t)}"
  using room_is_thread_safe [OF overlap_reachable [where xs = "[5 :: int]" and C = 1]] by simp

text \<open>C29: While at most one \<open>Discard\<close> runs at a time, the lambda that
  \<open>with_contents_when_filled\<close> runs sees exactly \<open>C\<close> items: the \<open>std::span\<close> of \<open>C\<close> elements it is
  given is within the vector, from the start of the lambda to its end.\<close>

theorem worker_sees_full_batch:
  assumes "room_reachable C False s" "pc s t = Reading True"
  shows "length (items (room s)) = C"
  using discard_invD(5) [OF discard_inv_reachable [OF assms(1)]] assms(2) by (metis is_worker.simps(2))

lemma filled_room_reachable:
  "room_reachable 1 multi (goto 0 (Reading True) (reader_enter (empty_room\<lparr>items := [5 :: int]\<rparr>))
     (room_start\<lparr>room := empty_room\<lparr>items := [5]\<rparr>\<rparr>))"
proof -
  let ?s = "room_start\<lparr>room := empty_room\<lparr>items := [5 :: int]\<rparr>\<rparr>"
  have idle: "pc room_start t = Idle" for t by (simp add: room_start_def)
  have f: "Feed 1 5 (room room_start) = Inr (empty_room\<lparr>items := [5 :: int]\<rparr>)"
    by (simp add: Feed_def producer_may_run_def room_start_def empty_room_def)
  have "room_reachable 1 multi ?s"
    by (rule steps_reachable [OF feed_run [OF calm_overlap(1) idle f] room_reachable.reach_start])
  moreover have "with_contents_when_filled 1 hd (room ?s) = Inr (empty_room\<lparr>items := [5]\<rparr>, Some 5)"
    by (simp add: with_contents_when_filled_def consumer_may_run_def empty_room_def
        reader_enter_def reader_exit_def)
  note w = filled_run(1) [OF _ _ this, where t = 0 and multi = multi]
  have "room_steps 1 multi ?s (goto 0 (Reading True) (reader_enter (empty_room\<lparr>items := [5]\<rparr>)) ?s)"
    using w by (simp add: calm_overlap idle)
  ultimately show ?thesis by (rule steps_reachable [rotated])
qed

theorem worker_sees_full_batch_witness:
  "length (items (reader_enter (empty_room\<lparr>items := [5 :: int]\<rparr>))) = 1"
  using worker_sees_full_batch [OF filled_room_reachable, where t = 0] by simp

text \<open>C30: Two overlapping calls of \<open>Discard\<close> break that promise: the second resets
  \<open>is_discarding_\<close> while the first has waited but not yet cleared; the room is filled again, a
  worker is admitted, and the first \<open>Discard\<close> clears the vector before the worker's lambda gets
  its span of \<open>C\<close> elements.\<close>

theorem overlapping_discards_race:
  "\<exists>s. room_reachable C True s \<and> pc s 1 = Reading True \<and> items (room s) = ([] :: 'a list)"
  by (rule overlap_race [where xs = "replicate C undefined"]) simp

text \<open>C32: The operations of the first part are what the locks implement: called while no thread is
  inside a critical section, \<open>Feed\<close>, \<open>with_contents_when_filled\<close>, \<open>with_current_contents\<close> and
  \<open>Discard\<close> have a run of the calling thread's steps that ends in the room they return, and a
  lambda runs on the items its result was computed from.\<close>

theorem room_calls_are_runs:
  assumes "calm s" "pc s t = Idle"
  shows "(\<forall>x r. Feed C x (room s) = Inr r \<longrightarrow> room_steps C multi s (s\<lparr>room := r\<rparr>))
    \<and> (\<forall>f r v. with_contents_when_filled C f (room s) = Inr (r, Some v) \<longrightarrow>
        (\<exists>s1. room_steps C multi s s1 \<and> pc s1 t = Reading True \<and> v = f (items (room s1))
          \<and> room_steps C multi s1 (s\<lparr>room := r\<rparr>)))
    \<and> (\<forall>f r v. with_current_contents f (room s) = (r, Some v) \<longrightarrow>
        (\<exists>s1. room_steps C multi s s1 \<and> pc s1 t = Reading False \<and> v = f (items (room s1))
          \<and> room_steps C multi s1 (s\<lparr>room := r\<rparr>)))
    \<and> (\<forall>r. Discard (room s) = Inr r \<and> (\<forall>u. \<not> is_discarder (pc s u)) \<longrightarrow>
        room_steps C multi s (s\<lparr>room := r\<rparr>))"
proof (intro conjI allI impI)
  fix x r assume "Feed C x (room s) = Inr r"
  then show "room_steps C multi s (s\<lparr>room := r\<rparr>)" by (rule feed_run [OF assms])
next
  fix f :: "'a list \<Rightarrow> 'b" and r v assume "with_contents_when_filled C f (room s) = Inr (r, Some v)"
  note run = filled_run [OF assms this]
  show "\<exists>s1. room_steps C multi s s1 \<and> pc s1 t = Reading True \<and> v = f (items (room s1))
      \<and> room_steps C multi s1 (s\<lparr>room := r\<rparr>)"
    using run(1,2) run(3) by (intro exI [where x = "goto t (Reading True) (reader_enter (room s)) s"]) simp
next
  fix f :: "'a list \<Rightarrow> 'c" and r v assume "with_current_contents f (room s) = (r, Some v)"
  note run = search_run [OF assms this]
  show "\<exists>s1. room_steps C multi s s1 \<and> pc s1 t = Reading False \<and> v = f (items (room s1))
      \<and> room_steps C multi s1 (s\<lparr>room := r\<rparr>)"
    using run(1,2) run(3) by (intro exI [where x = "goto t (Reading False) (reader_enter (room s)) s"]) simp
next
  fix r assume d: "Discard (room s) = Inr r \<and> (\<forall>u. \<not> is_discarder (pc s u))"
  then have ok: "Discard (room s) = Inr r" and one: "multi \<or> (\<forall>u. \<not> is_discarder (pc s u))" by auto
  show "room_steps C multi s (s\<lparr>room := r\<rparr>)"
    by (rule rtranclp_trans [OF discard_runs [OF assms ok one]])
qed

theorem room_calls_are_runs_witness:
  "room_steps 1 False room_start (room_start\<lparr>room := empty_room\<lparr>items := [7 :: int]\<rparr>\<rparr>)"
proof -
  have "pc (room_start :: int threads) 0 = Idle" by (simp add: room_start_def)
  from conjunct1 [OF room_calls_are_runs [OF calm_overlap(1) this, where C = 1 and multi = False]]
  have "Feed 1 (7 :: int) (room room_start) = Inr r \<longrightarrow> room_steps 1 False room_start (room_start\<lparr>room := r\<rparr>)" for r
    by blast
  then show ?thesis by (simp add: Feed_def producer_may_run_def room_start_def empty_room_def)
qed

end
