(* ===== verification/Pi_Types.thy ===== *)
theory Pi_Types
  imports Prelude
begin

text \<open>
  \<^verbatim>\<open>apps/wedding_cake/include/types.hpp\<close>: the two strong index types (\<open>LocalPi\<close>, relative to a
  donut, and \<open>GlobalPi\<close>, absolute) with their sentinel and their translation operators, and
  the hash types.  The C++ template parameter \<open>HashBytesCount\<close> is the length of a byte
  list here.
\<close>

section \<open>Strong presentation indices\<close>

definition PI_NO_MATCH_VAL :: u64 where
  "PI_NO_MATCH_VAL = - 1"

datatype local_pi = LocalPi (lpi_int: u64)

datatype global_pi = GlobalPi (gpi_int: u64)

definition LOCAL_PI_NO_MATCH :: local_pi where
  "LOCAL_PI_NO_MATCH = LocalPi PI_NO_MATCH_VAL"

definition GLOBAL_PI_NO_MATCH :: global_pi where
  "GLOBAL_PI_NO_MATCH = GlobalPi PI_NO_MATCH_VAL"

definition lpi_is_no_match :: "local_pi \<Rightarrow> bool" where
  "lpi_is_no_match l \<longleftrightarrow> lpi_int l = PI_NO_MATCH_VAL"

definition gpi_is_no_match :: "global_pi \<Rightarrow> bool" where
  "gpi_is_no_match g \<longleftrightarrow> gpi_int g = PI_NO_MATCH_VAL"

text \<open>The defaulted three-way comparison orders the indices by their value.\<close>

instantiation local_pi :: linorder
begin
definition less_eq_local_pi :: "local_pi \<Rightarrow> local_pi \<Rightarrow> bool" where
  "less_eq_local_pi a b \<longleftrightarrow> lpi_int a \<le> lpi_int b"
definition less_local_pi :: "local_pi \<Rightarrow> local_pi \<Rightarrow> bool" where
  "less_local_pi a b \<longleftrightarrow> lpi_int a < lpi_int b"
instance
  by standard (auto simp: less_eq_local_pi_def less_local_pi_def local_pi.expand)
end

instantiation global_pi :: linorder
begin
definition less_eq_global_pi :: "global_pi \<Rightarrow> global_pi \<Rightarrow> bool" where
  "less_eq_global_pi a b \<longleftrightarrow> gpi_int a \<le> gpi_int b"
definition less_global_pi :: "global_pi \<Rightarrow> global_pi \<Rightarrow> bool" where
  "less_global_pi a b \<longleftrightarrow> gpi_int a < gpi_int b"
instance
  by standard (auto simp: less_eq_global_pi_def less_global_pi_def global_pi.expand)
end

subsection \<open>Translation between local and global indices\<close>

text \<open>The sum wraps in \<open>uint64_t\<close>; the guards only absorb the sentinel.\<close>

definition lpi_plus_gpi :: "local_pi \<Rightarrow> global_pi \<Rightarrow> global_pi" where
  "lpi_plus_gpi l base =
     (if lpi_is_no_match l \<or> gpi_is_no_match base then GLOBAL_PI_NO_MATCH
      else GlobalPi (lpi_int l + gpi_int base))"

definition gpi_plus_lpi :: "global_pi \<Rightarrow> local_pi \<Rightarrow> global_pi" where
  "gpi_plus_lpi base l = lpi_plus_gpi l base"

definition gpi_minus_gpi :: "global_pi \<Rightarrow> global_pi \<Rightarrow> local_pi" where
  "gpi_minus_gpi target base =
     (if gpi_is_no_match target \<or> gpi_is_no_match base \<or> gpi_int target < gpi_int base
      then LOCAL_PI_NO_MATCH
      else LocalPi (gpi_int target - gpi_int base))"

definition gpi_minus_lpi :: "global_pi \<Rightarrow> local_pi \<Rightarrow> global_pi" where
  "gpi_minus_lpi target l =
     (if gpi_is_no_match target \<or> lpi_is_no_match l \<or> gpi_int target < lpi_int l
      then GLOBAL_PI_NO_MATCH
      else GlobalPi (gpi_int target - lpi_int l))"

definition pi_distance :: "global_pi \<Rightarrow> global_pi \<Rightarrow> u64" where
  "pi_distance high low =
     (if gpi_is_no_match high \<or> gpi_is_no_match low \<or> gpi_int high < gpi_int low then 0
      else gpi_int high - gpi_int low)"

lemma no_match_simps [simp]:
  "lpi_is_no_match LOCAL_PI_NO_MATCH" "gpi_is_no_match GLOBAL_PI_NO_MATCH"
  "lpi_is_no_match l \<longleftrightarrow> l = LOCAL_PI_NO_MATCH" "gpi_is_no_match g \<longleftrightarrow> g = GLOBAL_PI_NO_MATCH"
  by (auto simp: lpi_is_no_match_def gpi_is_no_match_def LOCAL_PI_NO_MATCH_def
      GLOBAL_PI_NO_MATCH_def local_pi.expand global_pi.expand)

lemma unat_no_match_val: "unat PI_NO_MATCH_VAL = 2 ^ 64 - 1"
  by (simp add: PI_NO_MATCH_VAL_def unsigned_minus_1_eq_mask mask_eq_exp_minus_1)

lemma lpi_of_nat_no_match: "n < 2 ^ 64 - 1 \<Longrightarrow> LocalPi (of_nat n) \<noteq> LOCAL_PI_NO_MATCH"
  by (auto simp: LOCAL_PI_NO_MATCH_def unat_of_nat dest!: arg_cong [where f = unat]
      simp: unat_no_match_val)

lemma gpi_of_nat_no_match: "n < 2 ^ 64 - 1 \<Longrightarrow> GlobalPi (of_nat n) \<noteq> GLOBAL_PI_NO_MATCH"
  by (auto simp: GLOBAL_PI_NO_MATCH_def unat_of_nat dest!: arg_cong [where f = unat]
      simp: unat_no_match_val)

lemma gpi_no_match_iff: "g = GLOBAL_PI_NO_MATCH \<longleftrightarrow> unat (gpi_int g) = 2 ^ 64 - 1"
  by (cases g) (simp add: GLOBAL_PI_NO_MATCH_def word_unat_eq_iff unat_no_match_val)

lemma lpi_no_match_iff: "l = LOCAL_PI_NO_MATCH \<longleftrightarrow> unat (lpi_int l) = 2 ^ 64 - 1"
  by (cases l) (simp add: LOCAL_PI_NO_MATCH_def word_unat_eq_iff unat_no_match_val)

text \<open>Below the sentinel the sum is exact, so it is undone by the difference.\<close>

lemma lpi_plus_gpi_of_nat:
  assumes "n + unat (gpi_int base) < 2 ^ 64 - 1"
  shows "lpi_plus_gpi (LocalPi (of_nat n)) base = GlobalPi (of_nat (n + unat (gpi_int base)))"
proof -
  have "LocalPi (of_nat n) \<noteq> LOCAL_PI_NO_MATCH" using assms by (intro lpi_of_nat_no_match) simp
  moreover have "base \<noteq> GLOBAL_PI_NO_MATCH" using assms by (simp add: gpi_no_match_iff)
  ultimately show ?thesis by (simp add: lpi_plus_gpi_def)
qed

lemma gpi_minus_gpi_of_nat:
  assumes "unat (gpi_int base) \<le> n" "n < 2 ^ 64 - 1"
  shows "gpi_minus_gpi (GlobalPi (of_nat n)) base = LocalPi (of_nat (n - unat (gpi_int base)))"
proof -
  have "GlobalPi (of_nat n) \<noteq> GLOBAL_PI_NO_MATCH" using assms by (intro gpi_of_nat_no_match) simp
  moreover have "base \<noteq> GLOBAL_PI_NO_MATCH" using assms by (simp add: gpi_no_match_iff)
  moreover have "\<not> of_nat n < gpi_int base" using assms by (simp add: word_less_nat_alt unat_of_nat)
  ultimately show ?thesis using assms by (simp add: gpi_minus_gpi_def of_nat_diff)
qed

section \<open>Hashes\<close>

type_synonym hash = bytes

definition hash_wf :: "nat \<Rightarrow> hash \<Rightarrow> bool" where
  "hash_wf N h \<longleftrightarrow> length h = N"

text \<open>\<open>HashView::operator==\<close> compares the sizes, then the bytes.\<close>

definition hash_view_eq :: "bytes \<Rightarrow> bytes \<Rightarrow> bool" where
  "hash_view_eq a b \<longleftrightarrow>
     (if length a \<noteq> length b then False else list_all2 (=) a b)"

text \<open>\<open>std::lexicographical_compare\<close> on the byte arrays: the key order of every map keyed by hash.\<close>

fun hash_less :: "bytes \<Rightarrow> bytes \<Rightarrow> bool" where
  "hash_less _ [] = False"
| "hash_less [] (_ # _) = True"
| "hash_less (a # as) (b # bs) = (if a < b then True else if b < a then False else hash_less as bs)"

record hash_local_presentation =
  hlp_hash :: hash
  hlp_pi :: local_pi

record hash_global_presentation =
  hgp_hash :: hash
  hgp_pi :: global_pi

text \<open>A view is the bytes it spans; indexing past them is undefined.\<close>

definition hash_view_size :: "bytes \<Rightarrow> nat" where
  "hash_view_size v = length v"

definition hash_view_empty :: "bytes \<Rightarrow> bool" where
  "hash_view_empty v \<longleftrightarrow> v = []"

definition hash_view_at :: "bytes \<Rightarrow> nat \<Rightarrow> u8 res" where
  "hash_view_at v index = read_at v index"

definition hgp_view :: "hash_global_presentation \<Rightarrow> bytes" where
  "hgp_view p = hgp_hash p"

definition hlp_view :: "hash_local_presentation \<Rightarrow> bytes" where
  "hlp_view p = hlp_hash p"

lemma hash_view_eq_at:
  "hash_view_eq a b \<longleftrightarrow> hash_view_size a = hash_view_size b \<and>
     (\<forall>i < hash_view_size a. hash_view_at a i = hash_view_at b i)"
  by (auto simp: hash_view_eq_def hash_view_size_def hash_view_at_def read_at_def list_all2_conv_all_nth)

lemma hash_view_eq_iff: "hash_view_eq a b \<longleftrightarrow> a = b"
  by (auto simp: hash_view_eq_def list_all2_eq dest: list_all2_lengthD)

lemma hash_less_irrefl: "\<not> hash_less a a"
  by (induction a) auto

lemma hash_less_trans: "hash_less a b \<Longrightarrow> hash_less b c \<Longrightarrow> hash_less a c"
proof (induction a b arbitrary: c rule: hash_less.induct)
  case (1 a)
  then show ?case by simp
next
  case (2 b bs)
  then show ?case by (cases c) auto
next
  case (3 a as b bs)
  then show ?case by (cases c) (auto split: if_splits)
qed

lemma hash_less_total: "a \<noteq> b \<Longrightarrow> hash_less a b \<or> hash_less b a"
proof (induction a b rule: hash_less.induct)
  case (1 a)
  then show ?case by (cases a) auto
next
  case (2 b bs)
  then show ?case by simp
next
  case (3 a as b bs)
  then show ?case by (cases "a = b") (auto simp: not_less_iff_gr_or_eq)
qed

end
