(* ===== verification/Hash_Prefix_Suffix.thy ===== *)
theory Hash_Prefix_Suffix
  imports Pi_Types
begin

text \<open>
  \<^verbatim>\<open>apps/wedding_cake/include/hash_prefix_suffix.hpp\<close>: the split of an \<open>8 * N\<close>-bit hash,
  stored least significant byte first, into a prefix of its \<open>p\<close> most significant bits and a
  suffix of the others, as byte views, as masked byte vectors and as an index; and the path
  of the file that holds the hashes of one prefix.  \<open>N\<close> is the template parameter
  \<open>HashBytesCount\<close>; the functions take \<open>p\<close> as the \<open>uint8_t\<close> of the source.
\<close>

section \<open>Byte views\<close>

datatype ms_prefix_index_t = MsPrefixIndex (mpi_value: u64)

definition ms_prefix_bytes_count :: "u8 \<Rightarrow> nat" where
  "ms_prefix_bytes_count p = (unat p + 7) div 8"

definition ms_prefix_bytes :: "nat \<Rightarrow> hash \<Rightarrow> u8 \<Rightarrow> bytes res" where
  "ms_prefix_bytes N h p =
     (let prefix_bytes_count = ms_prefix_bytes_count p
      in subspan h (N - prefix_bytes_count) prefix_bytes_count)"

text \<open>The suffix sizes are computed in \<open>size_t\<close>, where the subtraction may wrap.\<close>

definition ls_suffix_bits_count :: "nat \<Rightarrow> u8 \<Rightarrow> u64" where
  "ls_suffix_bits_count N p = of_nat (N * 8) - ucast p"

definition ls_suffix_bytes_count :: "nat \<Rightarrow> u8 \<Rightarrow> nat" where
  "ls_suffix_bytes_count N p = unat ((ls_suffix_bits_count N p + 7) div 8)"

definition ls_suffix_bytes :: "nat \<Rightarrow> hash \<Rightarrow> u8 \<Rightarrow> bytes res" where
  "ls_suffix_bytes N h p = subspan h 0 (ls_suffix_bytes_count N p)"

section \<open>Masked byte vectors\<close>

definition ms_prefix_bytes_masked :: "nat \<Rightarrow> hash \<Rightarrow> u8 \<Rightarrow> bytes res" where
  "ms_prefix_bytes_masked N h p =
     (let prefix_bytes_count = ms_prefix_bytes_count p in
      rbind (ms_prefix_bytes N h p) (\<lambda>vec.
        let num_zero_bits = prefix_bytes_count * 8 - unat p in
        if num_zero_bits > 0
        then rbind (read_at vec 0) (\<lambda>b0. Inr (vec[0 := b0 AND push_bit num_zero_bits 0xFF]))
        else Inr vec))"

definition ls_suffix_bytes_masked :: "nat \<Rightarrow> hash \<Rightarrow> u8 \<Rightarrow> bytes res" where
  "ls_suffix_bytes_masked N h p =
     rbind (ls_suffix_bytes N h p) (\<lambda>vec.
       let suffix_bits_count = ls_suffix_bits_count N p;
           suffix_bytes_count = length vec;
           num_zero_bits = unat (of_nat suffix_bytes_count * 8 - suffix_bits_count)
       in if num_zero_bits > 0
          then if num_zero_bits \<ge> 32 \<or> suffix_bytes_count = 0 then Inl Undefined
               else let last_i = suffix_bytes_count - 1
                    in Inr (vec[last_i := vec ! last_i AND drop_bit num_zero_bits 0xFF])
          else Inr vec)"

section \<open>The prefix as an index\<close>

definition ms_prefix_index :: "nat \<Rightarrow> hash \<Rightarrow> u8 \<Rightarrow> ms_prefix_index_t res" where
  "ms_prefix_index N h p =
     (if \<not> p \<le> 64 then Inl (Assert_Failed ''Prefix index cannot exceed 64 bits'')
      else if p = 0 then Inr (MsPrefixIndex 0)
      else let bytes_to_copy = min N 8 in
           rbind (subspan h (N - bytes_to_copy) bytes_to_copy) (\<lambda>window.
             let msb_window = le_word window;
                 unused_bits_in_window = bytes_to_copy * 8 - unat p
             in if unat p > bytes_to_copy * 8 then Inl Undefined
                else Inr (MsPrefixIndex (drop_bit unused_bits_in_window msb_window))))"

definition ms_prefix_index_max :: "u8 \<Rightarrow> ms_prefix_index_t res" where
  "ms_prefix_index_max p =
     (if \<not> p \<le> 64 then Inl (Assert_Failed ''Prefix index cannot exceed 64 bits'')
      else if p = 0 then Inr (MsPrefixIndex 0)
      else Inr (MsPrefixIndex (low_mask (unat p))))"

section \<open>The path of a suffix file\<close>

definition HASHES_ORDER_FILENAME :: string where
  "HASHES_ORDER_FILENAME = ''HashesOrder.bin''"

definition hex_digit :: "nat \<Rightarrow> char" where
  "hex_digit n = ''0123456789ABCDEF'' ! n"

text \<open>\<open>std::format("{:02X}", byte)\<close>\<close>

definition hex2 :: "u8 \<Rightarrow> string" where
  "hex2 b = [hex_digit (unat b div 16), hex_digit (unat b mod 16)]"

definition prefix_path_levels :: "nat \<Rightarrow> u64 \<Rightarrow> path" where
  "prefix_path_levels num_levels masked_index =
     map (\<lambda>level.
       let shift_amount = num_levels * 8 - (level + 1) * 8;
           byte_val = ucast (drop_bit shift_amount masked_index AND 0xFF) :: u8;
           hex_str = hex2 byte_val
       in if level = num_levels - 1 then hex_str @ ''_LsSuffixEntries.bin'' else hex_str)
     [0..<num_levels]"

definition make_ms_prefix_path :: "path \<Rightarrow> u8 \<Rightarrow> ms_prefix_index_t \<Rightarrow> path res" where
  "make_ms_prefix_path base_dir p idx =
     (if p > 64 then Inl (Invalid_Argument ''prefix_bits_count cannot exceed 64'')
      else if p = 0 then Inr (base_dir @ [''HashEntries.bin''])
      else let num_levels = (unat p + 7) div 8;
               max_bits_mask = low_mask (unat p);
               masked_index = mpi_value idx AND max_bits_mask
           in Inr (base_dir @ [''MsPrefix''] @ prefix_path_levels num_levels masked_index))"


section \<open>What the definitions compute\<close>

text \<open>
  The hash is the number \<open>le_nat h\<close>, and \<open>tail_bits N p\<close> is the width of its suffix.
\<close>

abbreviation tail_bits :: "nat \<Rightarrow> u8 \<Rightarrow> nat" where
  "tail_bits N p \<equiv> 8 * N - unat p"

lemma u8_le_64 [simp]: "(p :: u8) \<le> 64 \<longleftrightarrow> unat p \<le> 64"
  by (simp add: word_le_nat_alt)

lemma u8_eq_0: "(p :: u8) = 0 \<longleftrightarrow> unat p = 0"
  by (simp add: unat_0_iff)

lemma unat_ls_suffix_bits_count:
  assumes "unat p \<le> 8 * N" "8 * N < 2 ^ 64"
  shows "unat (ls_suffix_bits_count N p) = tail_bits N p"
proof -
  have "ls_suffix_bits_count N p = of_nat (8 * N - unat p)"
    using assms(1) by (simp add: ls_suffix_bits_count_def of_nat_diff mult.commute)
  moreover have "unat (of_nat (8 * N - unat p) :: u64) = tail_bits N p"
    using assms(2) by (subst unat_of_nat) simp
  ultimately show ?thesis by simp
qed

lemma ls_suffix_bytes_count_eq:
  assumes "unat p \<le> 8 * N" "8 * N + 7 < 2 ^ 64"
  shows "ls_suffix_bytes_count N p = (tail_bits N p + 7) div 8"
proof -
  have "unat (ls_suffix_bits_count N p + 7) = tail_bits N p + 7"
    using assms unat_ls_suffix_bits_count [of p N] by (simp add: unat_word_ariths)
  then show ?thesis by (simp add: ls_suffix_bytes_count_def unat_div_distrib)
qed

lemma ms_prefix_bytes_count_le: "unat p \<le> 8 * N \<Longrightarrow> ms_prefix_bytes_count p \<le> N"
  by (simp add: ms_prefix_bytes_count_def)

lemma pow256: "(256 :: nat) ^ n = 2 ^ (8 * n)"
  by (simp add: power_mult)

lemma ms_prefix_index_eq:
  assumes "hash_wf N h" "unat p \<le> 64" "unat p \<le> 8 * N"
  shows "ms_prefix_index N h p = Inr (MsPrefixIndex (of_nat (le_nat h div 2 ^ tail_bits N p)))"
proof (cases "p = 0")
  case True
  then show ?thesis
    using le_nat_less [of h] assms(1) by (simp add: ms_prefix_index_def hash_wf_def pow256)
next
  case False
  define b where "b = min N 8"
  have b: "b \<le> N" "unat p \<le> b * 8" "b \<le> 8" using assms by (auto simp: b_def)
  have len: "length h = N" using assms(1) by (simp add: hash_wf_def)
  have "le_nat (drop (N - b) h) = le_nat h div 2 ^ (8 * (N - b))"
    by (simp add: le_nat_take_drop len pow256)
  moreover have "unat (le_word (drop (N - b) h)) = le_nat (drop (N - b) h)"
    using b len by (intro unat_le_word) simp
  ultimately have "unat (drop_bit (b * 8 - unat p) (le_word (drop (N - b) h)))
      = le_nat h div (2 ^ (8 * (N - b)) * 2 ^ (b * 8 - unat p))"
    by (simp add: unat_drop_bit div_mult2_eq)
  also have "(2 :: nat) ^ (8 * (N - b)) * 2 ^ (b * 8 - unat p) = 2 ^ tail_bits N p"
    using b by (simp flip: power_add add: algebra_simps)
  finally have "drop_bit (b * 8 - unat p) (le_word (drop (N - b) h)) = of_nat (le_nat h div 2 ^ tail_bits N p)"
    by (rule word_eq_of_nat)
  then show ?thesis
    using False assms b len
    by (simp add: ms_prefix_index_def subspan_Inr flip: b_def)
qed

lemma ms_prefix_index_max_eq:
  "unat p \<le> 64 \<Longrightarrow> ms_prefix_index_max p = Inr (MsPrefixIndex (of_nat (2 ^ unat p - 1)))"
  by (simp add: ms_prefix_index_max_def low_mask_nat u8_eq_0)

subsection \<open>The masked bytes as numbers\<close>

lemma ff_u8: "(0xFF :: u8) = - 1"
  by simp

lemma unat_u8_and_high: "k \<le> 8 \<Longrightarrow> unat ((b :: u8) AND push_bit k 0xFF) = unat b div 2 ^ k * 2 ^ k"
proof -
  assume k: "k \<le> 8"
  have "b AND push_bit k 0xFF = push_bit k (drop_bit k b)"
    unfolding ff_u8 using k by (intro bit_word_eqI) (auto simp: bit_simps)
  moreover have "unat (push_bit k (drop_bit k b)) = unat b div 2 ^ k * 2 ^ k"
  proof -
    have "unat b div 2 ^ k * 2 ^ k \<le> unat b" by simp
    then have "unat b div 2 ^ k * 2 ^ k < 256" using unat_u8_less [of b] by linarith
    moreover have "unat (push_bit k (drop_bit k b)) = take_bit 8 (push_bit k (drop_bit k (unat b)))"
      by (simp only: unsigned_push_bit_eq unat_drop_bit_eq) simp
    ultimately show ?thesis
      by (simp only: push_bit_eq_mult drop_bit_eq_div take_bit_eq_mod) simp
  qed
  ultimately show ?thesis by simp
qed

lemma unat_u8_and_low: "k \<le> 8 \<Longrightarrow> unat ((b :: u8) AND drop_bit k 0xFF) = unat b mod 2 ^ (8 - k)"
proof -
  assume k: "k \<le> 8"
  have "b AND drop_bit k 0xFF = take_bit (8 - k) b"
    unfolding ff_u8 using k by (intro bit_word_eqI) (auto simp: bit_simps)
  moreover have "unat (take_bit (8 - k) b) = unat b mod 2 ^ (8 - k)"
    by (subst unsigned_take_bit_eq) (rule take_bit_eq_mod)
  ultimately show ?thesis by simp
qed

lemma ms_prefix_bytes_masked_value:
  assumes "hash_wf N h" "unat p \<le> 8 * N"
  obtains v where "ms_prefix_bytes_masked N h p = Inr v" "length v = ms_prefix_bytes_count p"
    "le_nat v = le_nat h div 2 ^ tail_bits N p * 2 ^ (ms_prefix_bytes_count p * 8 - unat p)"
proof -
  define c where "c = ms_prefix_bytes_count p"
  define z where "z = c * 8 - unat p"
  have c: "c \<le> N" "unat p \<le> c * 8" "z < 8" "unat p = 0 \<longrightarrow> c = 0"
    using assms(2) by (auto simp: c_def z_def ms_prefix_bytes_count_def)
  define u where "u = drop (N - c) h"
  have len: "length u = c" using c assms(1) by (simp add: u_def hash_wf_def)
  have u: "le_nat u = le_nat h div 2 ^ (8 * (N - c))"
    using assms(1) by (simp add: u_def le_nat_take_drop hash_wf_def pow256)
  have span: "ms_prefix_bytes N h p = Inr u"
    using c assms(1) by (simp add: ms_prefix_bytes_def c_def u_def subspan_Inr hash_wf_def)
  have split: "le_nat h div 2 ^ tail_bits N p = le_nat u div 2 ^ z"
    using c by (simp add: u z_def div_mult2_eq [symmetric] algebra_simps flip: power_add)
  show thesis
  proof (cases "z = 0")
    case True
    then have "ms_prefix_bytes_masked N h p = Inr u"
      using span by (simp add: ms_prefix_bytes_masked_def z_def flip: c_def)
    moreover have "le_nat u = le_nat h div 2 ^ tail_bits N p * 2 ^ z" using True split by simp
    ultimately show thesis using that len by (simp add: c_def z_def)
  next
    case False
    then have ne: "u \<noteq> []" using len c(2) z_def by auto
    define v where "v = u[0 := u ! 0 AND push_bit z 0xFF]"
    have "ms_prefix_bytes_masked N h p = Inr v"
      using span False ne len
      by (simp add: ms_prefix_bytes_masked_def v_def read_at_Inr z_def flip: c_def)
    moreover have "le_nat v = le_nat u div 2 ^ z * 2 ^ z"
    proof -
      obtain b bs where bs: "u = b # bs" using ne by (cases u) auto
      define q where "q = 2 ^ (8 - z) * le_nat bs"
      have q: "256 * le_nat bs = 2 ^ z * q"
        using c(3) by (simp add: q_def flip: mult.assoc power_add)
      have "(unat b + 2 ^ z * q) div 2 ^ z = unat b div 2 ^ z + q" by simp
      then have "(unat b + 256 * le_nat bs) div 2 ^ z * 2 ^ z = unat b div 2 ^ z * 2 ^ z + 256 * le_nat bs"
        by (simp only: q distrib_right) (simp only: mult.commute)
      moreover have "le_nat v = unat b div 2 ^ z * 2 ^ z + 256 * le_nat bs"
        using c(3) by (simp add: v_def bs unat_u8_and_high)
      ultimately show ?thesis by (simp add: bs)
    qed
    ultimately show thesis using that len split by (simp add: c_def z_def v_def)
  qed
qed

lemma ls_suffix_bytes_masked_value:
  assumes "hash_wf N h" "unat p \<le> 8 * N" "8 * N + 7 < 2 ^ 64"
  obtains v where "ls_suffix_bytes_masked N h p = Inr v" "length v = (tail_bits N p + 7) div 8"
    "le_nat v = le_nat h mod 2 ^ tail_bits N p"
proof -
  define t where "t = tail_bits N p"
  define c where "c = (t + 7) div 8"
  define z where "z = c * 8 - t"
  have c: "c \<le> N" "t \<le> c * 8" "z < 8" "t = 0 \<longrightarrow> c = 0" "t = c * 8 - z"
    using assms(2) by (auto simp: c_def z_def t_def)
  define u where "u = take c h"
  have len: "length u = c" using c(1) assms(1) by (simp add: u_def hash_wf_def)
  have u: "le_nat u = le_nat h mod 2 ^ (8 * c)"
    by (simp add: u_def le_nat_take_drop pow256)
  have cnt: "ls_suffix_bytes_count N p = c"
    using ls_suffix_bytes_count_eq [OF assms(2,3)] by (simp add: c_def t_def)
  have span: "ls_suffix_bytes N h p = Inr u"
    using c(1) assms(1) cnt by (simp add: ls_suffix_bytes_def u_def subspan_Inr hash_wf_def)
  have zero: "unat (of_nat c * 8 - ls_suffix_bits_count N p) = z"
  proof -
    have "ls_suffix_bits_count N p = of_nat t"
      using unat_ls_suffix_bits_count [of p N] assms by (intro word_eq_of_nat) (simp add: t_def)
    then have "of_nat c * 8 - ls_suffix_bits_count N p = of_nat z"
      using c(2) by (simp add: z_def of_nat_diff)
    moreover have "unat (of_nat z :: u64) = z" using c(3) by (subst unat_of_nat) simp
    ultimately show ?thesis by simp
  qed
  have split: "le_nat h mod 2 ^ t = le_nat u mod 2 ^ t"
    using c(2) by (simp add: u mod_mod_cancel le_imp_power_dvd mult.commute)
  show thesis
  proof (cases "z = 0")
    case True
    then have "ls_suffix_bytes_masked N h p = Inr u"
      using span zero len by (simp add: ls_suffix_bytes_masked_def)
    moreover have "le_nat u = le_nat h mod 2 ^ t"
      using True split c(5) le_nat_less [of u] len by (simp add: pow256 mult.commute)
    ultimately show thesis using that len by (simp add: c_def t_def)
  next
    case False
    then have ne: "u \<noteq> []" using len by (auto simp: z_def)
    define v where "v = u[c - 1 := u ! (c - 1) AND drop_bit z 0xFF]"
    have "ls_suffix_bytes_masked N h p = Inr v"
      using span zero len False ne c(3) by (auto simp add: ls_suffix_bytes_masked_def v_def Let_def)
    moreover have "le_nat v = le_nat u mod 2 ^ t"
    proof -
      obtain bs b where bs: "u = bs @ [b]" using ne by (cases u rule: rev_cases) auto
      have lb: "length bs = c - 1" "0 < c" using len bs by auto
      have t: "t = 8 * (c - 1) + (8 - z)" using c(3,5) lb by auto
      have "le_nat v = le_nat bs + 256 ^ (c - 1) * (unat b mod 2 ^ (8 - z))"
        using c(3) lb
        by (simp add: v_def bs nth_append list_update_append le_nat_append unat_u8_and_low)
      also have "\<dots> = (le_nat bs + 256 ^ (c - 1) * unat b) mod (256 ^ (c - 1) * 2 ^ (8 - z))"
        using le_nat_less [of bs] lb by (simp add: mod_mult2_eq)
      also have "\<dots> = le_nat u mod 2 ^ t"
        by (simp add: bs le_nat_append lb t pow256 flip: power_add)
      finally show ?thesis .
    qed
    ultimately show thesis using that len split by (simp add: c_def t_def v_def)
  qed
qed

subsection \<open>Distinct prefixes have distinct files\<close>

lemma hex_digit_inject: "a < 16 \<Longrightarrow> b < 16 \<Longrightarrow> hex_digit a = hex_digit b \<longleftrightarrow> a = b"
  by (simp add: hex_digit_def nth_eq_iff_index_eq)

lemma hex2_inject: "hex2 a = hex2 b \<longleftrightarrow> a = b"
proof
  assume eq: "hex2 a = hex2 b"
  have "unat a div 16 < 16" "unat b div 16 < 16"
    using unat_u8_less [of a] unat_u8_less [of b] by auto
  with eq have "unat a div 16 = unat b div 16" "unat a mod 16 = unat b mod 16"
    by (auto simp: hex2_def hex_digit_inject)
  then have "unat a = unat b" by (metis div_mult_mod_eq)
  then show "a = b" by (rule word_unat_eq_iff [THEN iffD2])
qed simp

lemma ucast_and_ff: "ucast ((x :: u64) AND 0xFF) = (ucast x :: u8)"
proof -
  have ff: "(0xFF :: u64) = mask 8" by (simp add: mask_eq_exp_minus_1)
  show ?thesis unfolding ff by (intro bit_word_eqI) (auto simp: bit_simps)
qed

lemma prefix_path_levels_inject:
  assumes eq: "prefix_path_levels L m = prefix_path_levels L m'"
    and m: "unat m < 256 ^ L" "unat m' < 256 ^ L"
  shows "m = m'"
proof -
  have bytes: "ucast (drop_bit (8 * i) m AND 0xFF) = (ucast (drop_bit (8 * i) m' AND 0xFF) :: u8)" if "i < L" for i
  proof -
    define lev where "lev = L - 1 - i"
    have lev: "lev < L" "L * 8 - (lev + 1) * 8 = 8 * i" using that by (auto simp: lev_def)
    have nth: "prefix_path_levels L x ! lev =
        (if lev = L - 1 then hex2 (ucast (drop_bit (8 * i) x AND 0xFF)) @ ''_LsSuffixEntries.bin''
         else hex2 (ucast (drop_bit (8 * i) x AND 0xFF)))" for x
      using lev(1) unfolding prefix_path_levels_def
      by (simp only: nth_map length_upt nth_upt diff_zero add_0 lev(2) Let_def)
    show ?thesis using nth [of m] nth [of m'] eq by (auto simp: hex2_inject split: if_splits)
  qed
  then have "le_bytes L m = le_bytes L m'"
    by (simp add: le_bytes_def ucast_and_ff)
  then have "unat m mod 256 ^ L = unat m' mod 256 ^ L" by (metis le_nat_le_bytes)
  with m show ?thesis by (simp add: word_unat_eq_iff)
qed

lemma make_ms_prefix_path_eq_iff:
  assumes "0 < unat p" "unat p \<le> 64"
  shows "make_ms_prefix_path base p i = make_ms_prefix_path base p j
    \<longleftrightarrow> unat (mpi_value i) mod 2 ^ unat p = unat (mpi_value j) mod 2 ^ unat p"
proof -
  define L where "L = (unat p + 7) div 8"
  have bound: "unat (x AND low_mask (unat p)) < 256 ^ L" for x
  proof -
    have "unat (x AND low_mask (unat p)) < 2 ^ unat p"
      using assms by (simp add: unat_and_low_mask)
    also have "(2 :: nat) ^ unat p \<le> 256 ^ L"
      unfolding pow256 by (rule power_increasing) (auto simp: L_def)
    finally show ?thesis .
  qed
  have "make_ms_prefix_path base p k = Inr (base @ [''MsPrefix''] @ prefix_path_levels L (mpi_value k AND low_mask (unat p)))" for k
    using assms by (simp add: make_ms_prefix_path_def L_def u8_eq_0 Let_def word_less_nat_alt)
  then have "make_ms_prefix_path base p i = make_ms_prefix_path base p j
     \<longleftrightarrow> mpi_value i AND low_mask (unat p) = mpi_value j AND low_mask (unat p)"
    using prefix_path_levels_inject [OF _ bound bound] by auto
  also have "\<dots> \<longleftrightarrow> unat (mpi_value i AND low_mask (unat p)) = unat (mpi_value j AND low_mask (unat p))"
    by (rule word_unat_eq_iff)
  also have "\<dots> \<longleftrightarrow> unat (mpi_value i) mod 2 ^ unat p = unat (mpi_value j) mod 2 ^ unat p"
    by (simp only: unat_and_low_mask [OF assms(2)])
  finally show ?thesis .
qed

subsection \<open>The top bits fit their index type\<close>

lemma top_bits:
  assumes "hash_wf N h" "unat p \<le> 64" "unat p \<le> 8 * N"
  shows top_bits_less: "le_nat h div 2 ^ tail_bits N p < 2 ^ unat p"
    and unat_of_top_bits: "unat (of_nat (le_nat h div 2 ^ tail_bits N p) :: u64) = le_nat h div 2 ^ tail_bits N p"
proof -
  have "le_nat h < 2 ^ tail_bits N p * 2 ^ unat p"
    using le_nat_less [of h] assms by (simp add: hash_wf_def pow256 flip: power_add)
  then show less: "le_nat h div 2 ^ tail_bits N p < 2 ^ unat p"
    by (simp add: less_mult_imp_div_less mult.commute)
  have "(2 :: nat) ^ unat p \<le> 2 ^ 64" using assms(2) by (rule power_increasing) simp
  with less show "unat (of_nat (le_nat h div 2 ^ tail_bits N p) :: u64) = le_nat h div 2 ^ tail_bits N p"
    by (subst unat_of_nat) simp
qed

section \<open>Properties\<close>

text \<open>C39: For every hash and every prefix width up to 64 bits, the prefix index is the number
formed by the most significant bits of the hash (read little-endian), and it never exceeds the
maximum that \<open>ms_prefix_index_max\<close> announces for this width.\<close>

theorem prefix_index_is_top_bits:
  assumes "hash_wf N h" "unat p \<le> 64" "unat p \<le> 8 * N"
  shows "\<exists>i m. ms_prefix_index N h p = Inr (MsPrefixIndex i)
    \<and> ms_prefix_index_max p = Inr (MsPrefixIndex m)
    \<and> unat i = le_nat h div 2 ^ (8 * N - unat p) \<and> i \<le> m"
proof -
  have "(2 :: nat) ^ unat p \<le> 2 ^ 64" using assms(2) by (rule power_increasing) simp
  then have "unat (of_nat (2 ^ unat p - 1) :: u64) = 2 ^ unat p - 1"
    by (subst unat_of_nat) simp
  then show ?thesis
    using top_bits [OF assms]
    by (simp add: ms_prefix_index_eq [OF assms] ms_prefix_index_max_eq [OF assms(2)] word_le_nat_alt)
qed

theorem prefix_index_is_top_bits_witness:
  "\<exists>i m. ms_prefix_index 2 [0x34, 0x12] 12 = Inr (MsPrefixIndex i)
    \<and> ms_prefix_index_max 12 = Inr (MsPrefixIndex m)
    \<and> unat i = le_nat [0x34, 0x12] div 2 ^ 4 \<and> i \<le> m"
  using prefix_index_is_top_bits [of 2 "[0x34, 0x12]" 12] by (simp add: hash_wf_def)

text \<open>Two hashes are stored in the same suffix file exactly when their prefixes agree: the path
is built from the index by an injective hexadecimal encoding, for every prefix width from 1 to 64
bits.\<close>

theorem suffix_file_iff_same_prefix:
  assumes "hash_wf N h" "hash_wf N h'" "0 < unat p" "unat p \<le> 64" "unat p \<le> 8 * N"
    and "ms_prefix_index N h p = Inr i" "ms_prefix_index N h' p = Inr j"
  shows "make_ms_prefix_path base p i = make_ms_prefix_path base p j
    \<longleftrightarrow> le_nat h div 2 ^ (8 * N - unat p) = le_nat h' div 2 ^ (8 * N - unat p)"
proof -
  have "unat (mpi_value k) mod 2 ^ unat p = le_nat x div 2 ^ (8 * N - unat p)"
    if "hash_wf N x" "ms_prefix_index N x p = Inr k" for x k
    using ms_prefix_index_eq [OF that(1) assms(4,5)] that(2) top_bits [OF that(1) assms(4,5)]
    by auto
  with assms show ?thesis by (simp add: make_ms_prefix_path_eq_iff)
qed

theorem suffix_file_iff_same_prefix_witness:
  "make_ms_prefix_path [''d''] 12 (MsPrefixIndex 0x123) \<noteq> make_ms_prefix_path [''d''] 12 (MsPrefixIndex 0x124)"
proof -
  have a: "ms_prefix_index 2 [0x34, 0x12] 12 = Inr (MsPrefixIndex 0x123)"
    by (subst ms_prefix_index_eq) (simp_all add: hash_wf_def)
  have b: "ms_prefix_index 2 [0x41, 0x12] 12 = Inr (MsPrefixIndex 0x124)"
    by (subst ms_prefix_index_eq) (simp_all add: hash_wf_def)
  show ?thesis
    using suffix_file_iff_same_prefix [of 2 "[0x34, 0x12]" "[0x41, 0x12]" 12, OF _ _ _ _ _ a b, of "[''d'']"]
    by (simp add: hash_wf_def)
qed

end
