(* ===== verification/Tier_Constants.thy ===== *)
theory Tier_Constants
  imports Prelude
begin

text \<open>
  \<^verbatim>\<open>apps/wedding_cake/include/tier_constants.hpp\<close>: the capacities of the tiers and the
  byte widths derived from them.
\<close>

text \<open>\<open>std::bit_width\<close>: the number of bits needed for a value, 0 for 0.\<close>

fun bit_width :: "nat \<Rightarrow> nat" where
  "bit_width n = (if n = 0 then 0 else Suc (bit_width (n div 2)))"

declare bit_width.simps [simp del]

definition ingester_donut_capacity :: nat where
  "ingester_donut_capacity = 65535"

definition tier_fanout_bit_count :: nat where
  "tier_fanout_bit_count = 2"

definition tier_fanout :: nat where
  "tier_fanout = push_bit tier_fanout_bit_count 1"

definition bytes_for :: "u64 \<Rightarrow> nat" where
  "bytes_for n = (if n = 0 then 0 else (bit_width (unat n) + 7) div 8)"

definition ingester_donut_local_pi_bytes :: nat where
  "ingester_donut_local_pi_bytes = bytes_for (of_nat ingester_donut_capacity)"

text \<open>The product of the fanouts is accumulated in a \<open>size_t\<close>, which wraps.\<close>

fun fanout_product :: "nat \<Rightarrow> u64 \<Rightarrow> u64" where
  "fanout_product 0 total_fanout = total_fanout"
| "fanout_product (Suc i) total_fanout = fanout_product i (total_fanout * of_nat tier_fanout)"

definition pi_bytes_count_for_tier :: "nat \<Rightarrow> nat" where
  "pi_bytes_count_for_tier n = bytes_for (fanout_product n 1 * of_nat ingester_donut_capacity)"

definition ms_prefix_bits_for_tier :: "nat \<Rightarrow> u64" where
  "ms_prefix_bits_for_tier n = of_nat n * of_nat tier_fanout"

section \<open>Widths\<close>

lemma bit_width_bounds: "n < 2 ^ bit_width n \<and> (0 < n \<longrightarrow> 2 ^ (bit_width n - 1) \<le> n)"
proof (induction n rule: bit_width.induct)
  case (1 n)
  show ?case
  proof (cases "n = 0")
    case True
    then show ?thesis by (simp add: bit_width.simps)
  next
    case False
    then have IH: "n div 2 < 2 ^ bit_width (n div 2)" "0 < n div 2 \<longrightarrow> 2 ^ (bit_width (n div 2) - 1) \<le> n div 2"
      using 1 by auto
    have w: "bit_width n = Suc (bit_width (n div 2))" using False by (simp add: bit_width.simps [of n])
    have "n < 2 * 2 ^ bit_width (n div 2)" using IH(1) by linarith
    moreover have "2 ^ bit_width (n div 2) \<le> n"
    proof (cases "n div 2 = 0")
      case True
      then show ?thesis using False by (simp add: bit_width.simps)
    next
      case False
      then have "2 * 2 ^ (bit_width (n div 2) - 1) \<le> n" using IH(2) by linarith
      moreover have "bit_width (n div 2) \<noteq> 0" using False by (simp add: bit_width.simps)
      ultimately show ?thesis by (metis Suc_pred' not_gr_zero power_Suc)
    qed
    ultimately show ?thesis by (simp add: w)
  qed
qed

lemma bit_width_le_iff: "bit_width n \<le> k \<longleftrightarrow> n < 2 ^ k"
proof
  assume "bit_width n \<le> k"
  then have "(2 :: nat) ^ bit_width n \<le> 2 ^ k" by (rule power_increasing) simp
  then show "n < 2 ^ k" using bit_width_bounds [of n] by linarith
next
  assume less: "n < 2 ^ k"
  show "bit_width n \<le> k"
  proof (rule ccontr)
    assume "\<not> bit_width n \<le> k"
    moreover from this have "0 < n" by (cases "n = 0") (auto simp: bit_width.simps)
    ultimately have "k \<le> bit_width n - 1" "2 ^ (bit_width n - 1) \<le> n"
      using bit_width_bounds [of n] by auto
    moreover from this(1) have "(2 :: nat) ^ k \<le> 2 ^ (bit_width n - 1)" by (rule power_increasing) simp
    ultimately show False using less by linarith
  qed
qed

text \<open>Rounding a bit width up to bytes gives the least number of base-256 digits.\<close>

lemma byte_width_le_iff: "(bit_width n + 7) div 8 \<le> k \<longleftrightarrow> n < 256 ^ k"
proof -
  have "(bit_width n + 7) div 8 \<le> k \<longleftrightarrow> bit_width n \<le> 8 * k" by auto
  then show ?thesis by (simp add: bit_width_le_iff power_mult)
qed

lemma bytes_for_le_iff: "bytes_for n \<le> k \<longleftrightarrow> unat n < 256 ^ k"
  by (simp add: bytes_for_def byte_width_le_iff)

lemma ingester_donut_local_pi_bytes_2 [simp]: "ingester_donut_local_pi_bytes = 2"
proof -
  have "unat (of_nat ingester_donut_capacity :: u64) = 65535"
    by (simp add: ingester_donut_capacity_def)
  then have "bytes_for (of_nat ingester_donut_capacity) \<le> 2" "\<not> bytes_for (of_nat ingester_donut_capacity) \<le> 1"
    by (simp_all add: bytes_for_le_iff)
  then show ?thesis by (simp add: ingester_donut_local_pi_bytes_def)
qed

lemma tier_fanout_4 [simp]: "tier_fanout = 4"
  by (simp add: tier_fanout_def tier_fanout_bit_count_def push_bit_eq_mult)

lemma fanout_product_eq: "fanout_product n t = t * 4 ^ n"
  by (induction n arbitrary: t) (auto simp: algebra_simps)

text \<open>C40: Up to tier 24, the number of bytes reserved for a local index of a tier is the least that
holds every index of a full donut of that tier and, above them, the all-ones sentinel.\<close>

theorem tier_pi_bytes_least:
  assumes "n \<le> 24"
  shows "pi_bytes_count_for_tier n \<le> k \<longleftrightarrow> tier_fanout ^ n * ingester_donut_capacity \<le> 256 ^ k - 1"
proof -
  have "(4 :: nat) ^ n \<le> 4 ^ 24" using assms by (rule power_increasing) simp
  then have "(4 :: nat) ^ n * 65535 < 2 ^ 64" by simp
  then have "unat (of_nat (4 ^ n * 65535) :: u64) = 4 ^ n * 65535" by (subst unat_of_nat) simp
  then have "unat (fanout_product n 1 * of_nat ingester_donut_capacity) = 4 ^ n * 65535"
    by (simp add: fanout_product_eq ingester_donut_capacity_def)
  moreover have "(0 :: nat) < 256 ^ k" by simp
  ultimately show ?thesis
    unfolding pi_bytes_count_for_tier_def bytes_for_le_iff
    by (simp only: tier_fanout_4 ingester_donut_capacity_def) linarith
qed

theorem tier_pi_bytes_least_witness: "pi_bytes_count_for_tier 4 = 3"
  using tier_pi_bytes_least [of 4 3] tier_pi_bytes_least [of 4 2] by (simp add: ingester_donut_capacity_def)

end
