(* ===== verification/Donut_Entries.thy ===== *)
theory Donut_Entries
  imports Hash_Prefix_Suffix Tier_Constants
begin

text \<open>
  \<^verbatim>\<open>apps/wedding_cake/include/donut_entries_calculator.hpp\<close>: the fixed-width records of the two
  kinds of files of a donut.  A record of \<open>HashesOrder.bin\<close> is the masked prefix of a hash and
  the index of its suffix record, or all ones for a gap; a suffix record is the masked suffix and
  the local presentation index.  The writers fill a caller-provided buffer and return the number
  of bytes they wrote together with the buffer.
\<close>

section \<open>The calculator\<close>

record donut_calc =
  dc_prefix_bits_count :: u64
  dc_suffix_bits_count :: u64
  dc_prefix_bytes_count :: nat
  dc_suffix_bytes_count :: nat
  dc_first_global_pi :: global_pi
  dc_entries_per_donut :: u64
  dc_bytes_per_local_pi :: nat

definition calculate_bytes_per_local_pi :: "u64 \<Rightarrow> nat res" where
  "calculate_bytes_per_local_pi entries_per_donut =
     (if entries_per_donut = 0
      then Inl (Invalid_Argument ''entries_per_donut must be greater than 0'')
      else let bits_needed = bit_width (unat entries_per_donut);
               bytes_needed = (bits_needed + 7) div 8
           in if bytes_needed \<le> 8 then Inr bytes_needed
              else Inl (Assert_Failed ''LocalPi cannot exceed 64-bit / 8-byte representation''))"

definition mk_donut_calc :: "nat \<Rightarrow> u64 \<Rightarrow> global_pi \<Rightarrow> u64 \<Rightarrow> donut_calc res" where
  "mk_donut_calc N prefix_bits_count first_global_pi entries_per_donut =
     (let suffix_bits_count = of_nat (N * 8) - prefix_bits_count in
      rbind (calculate_bytes_per_local_pi entries_per_donut) (\<lambda>bytes_per_local_pi.
        Inr \<lparr>dc_prefix_bits_count = prefix_bits_count,
             dc_suffix_bits_count = suffix_bits_count,
             dc_prefix_bytes_count = unat ((prefix_bits_count + 7) div 8),
             dc_suffix_bytes_count = unat ((suffix_bits_count + 7) div 8),
             dc_first_global_pi = first_global_pi,
             dc_entries_per_donut = entries_per_donut,
             dc_bytes_per_local_pi = bytes_per_local_pi\<rparr>))"

definition hashes_order_entry_size :: "donut_calc \<Rightarrow> nat \<Rightarrow> nat" where
  "hashes_order_entry_size c bytes_per_suffix_index = dc_prefix_bytes_count c + bytes_per_suffix_index"

definition suffixes_entry_size :: "donut_calc \<Rightarrow> nat" where
  "suffixes_entry_size c = dc_suffix_bytes_count c + dc_bytes_per_local_pi c"

section \<open>Writing records\<close>

definition write_hashes_order_file_entry ::
    "nat \<Rightarrow> donut_calc \<Rightarrow> hash option \<Rightarrow> u64 \<Rightarrow> nat \<Rightarrow> bytes \<Rightarrow> (nat \<times> bytes) res" where
  "write_hashes_order_file_entry N c optional_hash suffix_index bytes_per_suffix_index out_buffer =
     (let required_bytes = hashes_order_entry_size c bytes_per_suffix_index in
      if \<not> length out_buffer \<ge> required_bytes
      then Inl (Assert_Failed ''write_hashes_order_file_entry(): Output buffer too small for entry!'')
      else if \<not> bytes_per_suffix_index \<le> 8
      then Inl (Assert_Failed ''write_hashes_order_file_entry(): Suffix index bytes cannot exceed sizeof(uint64_t)'')
      else case optional_hash of
        None \<Rightarrow> rbind (buf_write 0 (replicate required_bytes 0xFF) out_buffer) (\<lambda>buf.
          Inr (required_bytes, buf))
      | Some h \<Rightarrow>
          rbind (ms_prefix_bytes_masked N h (ucast (dc_prefix_bits_count c))) (\<lambda>prefix_masked.
          rbind (subspan prefix_masked 0 (dc_prefix_bytes_count c)) (\<lambda>pre.
          rbind (buf_write 0 pre out_buffer) (\<lambda>buf1.
          rbind (buf_write (dc_prefix_bytes_count c) (le_bytes bytes_per_suffix_index suffix_index) buf1) (\<lambda>buf2.
            let suffix_bytes_all_ones =
                  list_all (\<lambda>i. buf2 ! (dc_prefix_bytes_count c + i) = 0xFF) [0..<bytes_per_suffix_index]
            in if suffix_bytes_all_ones
               then Inl (Assert_Failed ''write_hashes_order_file_entry(): Valid suffix_index collision with 0xFF... sentinel!'')
               else Inr (required_bytes, buf2))))))"

definition hashes_order_file_entry ::
    "nat \<Rightarrow> donut_calc \<Rightarrow> hash option \<Rightarrow> u64 \<Rightarrow> nat \<Rightarrow> bytes res" where
  "hashes_order_file_entry N c optional_hash suffix_index bytes_per_suffix_index =
     (let result = replicate (hashes_order_entry_size c bytes_per_suffix_index) 0 in
      rbind (write_hashes_order_file_entry N c optional_hash suffix_index bytes_per_suffix_index result)
        (\<lambda>(count, buf). if count = length buf then Inr buf
           else Inl (Assert_Failed ''write_hashes_order_file_entry(): Failed to write all bytes to output buffer!'')))"

definition write_suffixes_file_entry ::
    "nat \<Rightarrow> donut_calc \<Rightarrow> hash option \<Rightarrow> global_pi \<Rightarrow> bytes \<Rightarrow> (nat \<times> bytes) res" where
  "write_suffixes_file_entry N c optional_hash global_pi out_buffer =
     (let required_bytes = suffixes_entry_size c in
      if \<not> length out_buffer \<ge> required_bytes
      then Inl (Assert_Failed ''write_suffixes_file_entry(): Output buffer too small for entry!'')
      else case optional_hash of
        None \<Rightarrow> Inr (0, out_buffer)
      | Some h \<Rightarrow>
          rbind (ls_suffix_bytes_masked N h (ucast (dc_prefix_bits_count c))) (\<lambda>suffix_masked.
          rbind (subspan suffix_masked 0 (dc_suffix_bytes_count c)) (\<lambda>suf.
          rbind (buf_write 0 suf out_buffer) (\<lambda>buf1.
            let local_pi_int = lpi_int (gpi_minus_gpi global_pi (dc_first_global_pi c)) in
            rbind (buf_write (dc_suffix_bytes_count c) (le_bytes (dc_bytes_per_local_pi c) local_pi_int) buf1)
              (\<lambda>buf2. Inr (required_bytes, buf2))))))"

definition suffixes_file_entry :: "nat \<Rightarrow> donut_calc \<Rightarrow> hash \<Rightarrow> global_pi \<Rightarrow> bytes res" where
  "suffixes_file_entry N c h global_pi =
     rbind (write_suffixes_file_entry N c (Some h) global_pi (replicate (suffixes_entry_size c) 0))
       (\<lambda>(_, buf). Inr buf)"

section \<open>Reading records\<close>

record hashes_order_entry =
  hoe_ms_prefix_bytes :: bytes
  hoe_suffixes_file_index :: u64
  hoe_is_sentinel :: bool

record ls_suffix_entries_entry =
  lse_ls_suffix_bytes :: bytes
  lse_local_pi :: local_pi

definition hash_from_prefix_suffix :: "nat \<Rightarrow> donut_calc \<Rightarrow> bytes \<Rightarrow> bytes \<Rightarrow> hash res" where
  "hash_from_prefix_suffix N c ms_prefix ls_suffix =
     (let full_hash = replicate N 0;
          prefix_start_idx = N - dc_prefix_bytes_count c in
      rbind (subspan ls_suffix 0 (dc_suffix_bytes_count c)) (\<lambda>suf.
      rbind (buf_write 0 suf full_hash) (\<lambda>full1.
      if dc_prefix_bits_count c mod 8 = 0
      then rbind (subspan ms_prefix 0 (dc_prefix_bytes_count c)) (\<lambda>pre.
             buf_write prefix_start_idx pre full1)
      else rbind (if dc_prefix_bytes_count c > 1
                  then rbind (subspan ms_prefix 1 (dc_prefix_bytes_count c - 1)) (\<lambda>pre.
                         buf_write (prefix_start_idx + 1) pre full1)
                  else Inr full1) (\<lambda>full2.
           rbind (read_at ms_prefix 0) (\<lambda>p0.
           rbind (read_at full2 prefix_start_idx) (\<lambda>b.
             Inr (full2[prefix_start_idx := b OR p0])))))))"

definition read_hashes_order_entry_from_bytes ::
    "donut_calc \<Rightarrow> bytes \<Rightarrow> nat \<Rightarrow> hashes_order_entry res" where
  "read_hashes_order_entry_from_bytes c bs bytes_per_suffix_index =
     (let required = hashes_order_entry_size c bytes_per_suffix_index in
      if \<not> length bs \<ge> required
      then Inl (Assert_Failed ''read_hashes_order_entry_from_bytes(): Span too short!'')
      else let all_ones = list_all (\<lambda>i. bs ! i = 0xFF) [0..<required] in
        rbind (subspan bs 0 (dc_prefix_bytes_count c)) (\<lambda>pre.
        if all_ones
        then Inr \<lparr>hoe_ms_prefix_bytes = pre, hoe_suffixes_file_index = NOT 0, hoe_is_sentinel = True\<rparr>
        else if bytes_per_suffix_index > 8 then Inl Undefined
        else rbind (subspan bs (dc_prefix_bytes_count c) bytes_per_suffix_index) (\<lambda>idx.
          Inr \<lparr>hoe_ms_prefix_bytes = pre, hoe_suffixes_file_index = le_word idx, hoe_is_sentinel = False\<rparr>)))"

definition read_ls_suffixes_entry_from_bytes ::
    "donut_calc \<Rightarrow> bytes \<Rightarrow> ls_suffix_entries_entry res" where
  "read_ls_suffixes_entry_from_bytes c bs =
     (let required = suffixes_entry_size c in
      if \<not> length bs \<ge> required
      then Inl (Assert_Failed ''read_ls_suffixes_entry_from_bytes(): Span too short!'')
      else rbind (subspan bs 0 (dc_suffix_bytes_count c)) (\<lambda>suf.
           rbind (subspan bs (dc_suffix_bytes_count c) (dc_bytes_per_local_pi c)) (\<lambda>pib.
             Inr \<lparr>lse_ls_suffix_bytes = suf, lse_local_pi = LocalPi (le_word pib)\<rparr>)))"

section \<open>What a well-formed calculator computes\<close>

definition calc_ok :: "nat \<Rightarrow> nat \<Rightarrow> donut_calc \<Rightarrow> bool" where
  "calc_ok N p c \<longleftrightarrow>
     8 * N + 7 < 2 ^ 64 \<and> p \<le> 8 * N \<and> p \<le> 255
     \<and> dc_prefix_bits_count c = of_nat p
     \<and> dc_prefix_bytes_count c = (p + 7) div 8
     \<and> dc_suffix_bytes_count c = (8 * N - p + 7) div 8
     \<and> dc_bytes_per_local_pi c \<le> 8"

lemma calculate_bytes_per_local_pi_eq:
  "e \<noteq> 0 \<Longrightarrow> calculate_bytes_per_local_pi e = Inr ((bit_width (unat e) + 7) div 8)"
  using unsigned_less [of e, where ?'a = nat] byte_width_le_iff [of "unat e" 8]
  by (simp add: calculate_bytes_per_local_pi_def Let_def)

lemma bytes_per_local_pi_fit:
  assumes "calculate_bytes_per_local_pi e = Inr k"
  shows "k \<le> 8" "unat e \<le> 256 ^ k - 1"
proof -
  have e: "e \<noteq> 0" using assms by (auto simp: calculate_bytes_per_local_pi_def)
  then have k: "k = (bit_width (unat e) + 7) div 8" using assms calculate_bytes_per_local_pi_eq by simp
  then have "unat e < 256 ^ k" using byte_width_le_iff [of "unat e" k] by simp
  then show "unat e \<le> 256 ^ k - 1" by simp
  show "k \<le> 8" using e assms calculate_bytes_per_local_pi_eq [OF e]
    by (auto simp: calculate_bytes_per_local_pi_def Let_def split: if_splits)
qed

lemma mk_donut_calc_ok:
  assumes "mk_donut_calc N (of_nat p) g e = Inr c" "8 * N + 7 < 2 ^ 64" "p \<le> 8 * N" "p \<le> 255"
  shows "calc_ok N p c" "dc_first_global_pi c = g"
    "calculate_bytes_per_local_pi e = Inr (dc_bytes_per_local_pi c)"
proof -
  from assms(1) obtain k where k: "calculate_bytes_per_local_pi e = Inr k"
    and c: "c = \<lparr>dc_prefix_bits_count = of_nat p, dc_suffix_bits_count = of_nat (N * 8) - of_nat p,
      dc_prefix_bytes_count = unat ((of_nat p + 7 :: u64) div 8),
      dc_suffix_bytes_count = unat ((of_nat (N * 8) - of_nat p + 7 :: u64) div 8),
      dc_first_global_pi = g, dc_entries_per_donut = e, dc_bytes_per_local_pi = k\<rparr>"
    by (auto simp: mk_donut_calc_def Let_def rbind_eq_Inr)
  have a: "unat (of_nat p + 7 :: u64) = p + 7"
    using assms(4) unat_of_nat [of "p + 7", where ?'a = 64] by simp
  have "(of_nat (N * 8) - of_nat p + 7 :: u64) = of_nat (8 * N - p + 7)"
    using assms(3) by (simp add: of_nat_diff mult.commute)
  moreover have "unat (of_nat (8 * N - p + 7) :: u64) = 8 * N - p + 7"
    using assms(2) by (subst unat_of_nat) simp
  ultimately have b: "unat (of_nat (N * 8) - of_nat p + 7 :: u64) = 8 * N - p + 7" by simp
  show "calc_ok N p c"
    using assms bytes_per_local_pi_fit(1) [OF k] a b by (simp add: calc_ok_def c unat_div_distrib)
  show "dc_first_global_pi c = g" "calculate_bytes_per_local_pi e = Inr (dc_bytes_per_local_pi c)"
    by (simp_all add: c k)
qed

text \<open>The masked pieces of a hash, as the byte vectors the writers copy.\<close>

definition prefix_part :: "nat \<Rightarrow> nat \<Rightarrow> hash \<Rightarrow> bytes" where
  "prefix_part N p h = (case ms_prefix_bytes_masked N h (of_nat p) of Inr v \<Rightarrow> v | Inl _ \<Rightarrow> [])"

definition suffix_part :: "nat \<Rightarrow> nat \<Rightarrow> hash \<Rightarrow> bytes" where
  "suffix_part N p h = (case ls_suffix_bytes_masked N h (of_nat p) of Inr v \<Rightarrow> v | Inl _ \<Rightarrow> [])"

lemma unat_u8_of_nat: "p \<le> 255 \<Longrightarrow> unat (of_nat p :: u8) = p"
  by (subst unat_of_nat) simp

lemma prefix_part:
  assumes "calc_ok N p c" "hash_wf N h"
  shows "ms_prefix_bytes_masked N h (of_nat p) = Inr (prefix_part N p h)"
    "length (prefix_part N p h) = (p + 7) div 8"
    "le_nat (prefix_part N p h) = le_nat h div 2 ^ (8 * N - p) * 2 ^ ((p + 7) div 8 * 8 - p)"
proof -
  have p: "unat (of_nat p :: u8) = p" using assms by (intro unat_u8_of_nat) (simp add: calc_ok_def)
  obtain v where "ms_prefix_bytes_masked N h (of_nat p) = Inr v" "length v = (p + 7) div 8"
    "le_nat v = le_nat h div 2 ^ (8 * N - p) * 2 ^ ((p + 7) div 8 * 8 - p)"
    by (rule ms_prefix_bytes_masked_value [OF assms(2), of "of_nat p"])
       (use assms(1) in \<open>simp_all add: p calc_ok_def ms_prefix_bytes_count_def\<close>)
  then show "ms_prefix_bytes_masked N h (of_nat p) = Inr (prefix_part N p h)"
    "length (prefix_part N p h) = (p + 7) div 8"
    "le_nat (prefix_part N p h) = le_nat h div 2 ^ (8 * N - p) * 2 ^ ((p + 7) div 8 * 8 - p)"
    by (simp_all add: prefix_part_def)
qed

lemma suffix_part:
  assumes "calc_ok N p c" "hash_wf N h"
  shows "ls_suffix_bytes_masked N h (of_nat p) = Inr (suffix_part N p h)"
    "length (suffix_part N p h) = (8 * N - p + 7) div 8"
    "le_nat (suffix_part N p h) = le_nat h mod 2 ^ (8 * N - p)"
proof -
  have p: "unat (of_nat p :: u8) = p" using assms by (intro unat_u8_of_nat) (simp add: calc_ok_def)
  obtain v where "ls_suffix_bytes_masked N h (of_nat p) = Inr v" "length v = (8 * N - p + 7) div 8"
    "le_nat v = le_nat h mod 2 ^ (8 * N - p)"
    by (rule ls_suffix_bytes_masked_value [OF assms(2), of "of_nat p"])
       (use assms(1) in \<open>simp_all add: p calc_ok_def\<close>)
  then show "ls_suffix_bytes_masked N h (of_nat p) = Inr (suffix_part N p h)"
    "length (suffix_part N p h) = (8 * N - p + 7) div 8"
    "le_nat (suffix_part N p h) = le_nat h mod 2 ^ (8 * N - p)"
    by (simp_all add: suffix_part_def)
qed

lemma ucast_prefix_bits:
  "calc_ok N p c \<Longrightarrow> (ucast (dc_prefix_bits_count c) :: u8) = of_nat p"
  by (rule word_unat_eq_iff [THEN iffD2])
     (simp add: calc_ok_def unat_u8_of_nat unsigned_ucast_eq unat_of_nat take_bit_eq_mod)

section \<open>The records\<close>

definition order_record :: "nat \<Rightarrow> nat \<Rightarrow> hash option \<Rightarrow> nat \<Rightarrow> nat \<Rightarrow> bytes" where
  "order_record N p oh idx k =
     (case oh of None \<Rightarrow> replicate ((p + 7) div 8 + k) 255
      | Some h \<Rightarrow> prefix_part N p h @ le_bytes k (of_nat idx))"

definition suffix_record :: "nat \<Rightarrow> nat \<Rightarrow> nat \<Rightarrow> hash \<Rightarrow> nat \<Rightarrow> bytes" where
  "suffix_record N p k h l = suffix_part N p h @ le_bytes k (of_nat l)"

lemma length_order_record:
  "calc_ok N p c \<Longrightarrow> (\<forall>h. oh = Some h \<longrightarrow> hash_wf N h) \<Longrightarrow>
   length (order_record N p oh idx k) = hashes_order_entry_size c k"
  by (cases oh) (simp_all add: order_record_def hashes_order_entry_size_def calc_ok_def
      prefix_part(2) [of N p c])

lemma length_suffix_record:
  "calc_ok N p c \<Longrightarrow> hash_wf N h \<Longrightarrow>
   length (suffix_record N p (dc_bytes_per_local_pi c) h l) = suffixes_entry_size c"
  by (simp add: suffix_record_def suffixes_entry_size_def calc_ok_def suffix_part(2) [of N p c])

lemma write_hashes_order_file_entry_eq:
  assumes "calc_ok N p c" "\<forall>h. oh = Some h \<longrightarrow> hash_wf N h"
    and "k \<le> 8" "oh \<noteq> None \<Longrightarrow> idx < 256 ^ k - 1"
    and "hashes_order_entry_size c k \<le> length buf"
  shows "write_hashes_order_file_entry N c oh (of_nat idx) k buf =
    Inr (hashes_order_entry_size c k,
         order_record N p oh idx k @ drop (hashes_order_entry_size c k) buf)"
proof (cases oh)
  case None
  then show ?thesis using assms
    by (simp add: write_hashes_order_file_entry_def order_record_def buf_write_Inr
        hashes_order_entry_size_def calc_ok_def Let_def)
next
  case (Some h)
  then have h: "hash_wf N h" and idx: "idx < 256 ^ k - 1" using assms by auto
  have pb: "dc_prefix_bytes_count c = length (prefix_part N p h)"
    using prefix_part(2) [OF assms(1) h] assms(1) by (simp add: calc_ok_def)
  have req: "length (prefix_part N p h) + k \<le> length buf"
    using assms(5) by (simp add: hashes_order_entry_size_def pb)
  have "(256 :: nat) ^ k \<le> 256 ^ 8" using assms(3) by (rule power_increasing) simp
  then have un: "unat (of_nat idx :: u64) = idx" using idx by (subst unat_of_nat) simp
  have "\<not> (\<forall>b \<in> set (le_bytes k (of_nat idx)). b = 255)"
    using idx assms(3) by (subst le_bytes_all_ones_iff) (simp_all add: un)
  then have "\<exists>i<k. le_bytes k (of_nat idx) ! i \<noteq> 255"
    by (metis in_set_conv_nth length_le_bytes)
  then have ones: "\<not> list_all (\<lambda>i. (prefix_part N p h @ le_bytes k (of_nat idx) @ drop (length (prefix_part N p h) + k) buf)
      ! (length (prefix_part N p h) + i) = 255) [0..<k]"
    by (auto simp: list_all_iff nth_append)
  show ?thesis
    using assms(3) req ones
    by (simp add: write_hashes_order_file_entry_def Some order_record_def hashes_order_entry_size_def pb
        ucast_prefix_bits [OF assms(1)] prefix_part(1) [OF assms(1) h] buf_write_Inr Let_def add.commute)
qed

lemma write_suffixes_file_entry_eq:
  assumes "calc_ok N p c" "hash_wf N h" "suffixes_entry_size c \<le> length buf"
    and "n = unat (gpi_int (dc_first_global_pi c)) + l" "n < 2 ^ 64 - 1"
  shows "write_suffixes_file_entry N c (Some h) (GlobalPi (of_nat n)) buf =
    Inr (suffixes_entry_size c,
         suffix_record N p (dc_bytes_per_local_pi c) h l @ drop (suffixes_entry_size c) buf)"
proof -
  have sb: "dc_suffix_bytes_count c = length (suffix_part N p h)"
    using suffix_part(2) [OF assms(1,2)] assms(1) by (simp add: calc_ok_def)
  have l: "lpi_int (gpi_minus_gpi (GlobalPi (of_nat n)) (dc_first_global_pi c)) = of_nat l"
    using assms(4,5) by (subst gpi_minus_gpi_of_nat) simp_all
  show ?thesis
    using assms(3)
    by (simp add: write_suffixes_file_entry_def l suffix_record_def suffixes_entry_size_def sb
        ucast_prefix_bits [OF assms(1)] suffix_part(1) [OF assms(1,2)] buf_write_Inr Let_def ac_simps)
qed

lemma read_order_record:
  assumes "calc_ok N p c" "\<forall>h. oh = Some h \<longrightarrow> hash_wf N h" "k \<le> 8" "0 < k"
    and "oh \<noteq> None \<Longrightarrow> idx < 256 ^ k - 1"
  shows "read_hashes_order_entry_from_bytes c (order_record N p oh idx k) k = Inr
    (case oh of
       None \<Rightarrow> \<lparr>hoe_ms_prefix_bytes = replicate ((p + 7) div 8) 255,
                hoe_suffixes_file_index = NOT 0, hoe_is_sentinel = True\<rparr>
     | Some h \<Rightarrow> \<lparr>hoe_ms_prefix_bytes = prefix_part N p h,
                hoe_suffixes_file_index = of_nat idx, hoe_is_sentinel = False\<rparr>)"
proof (cases oh)
  case None
  then show ?thesis using assms
    by (simp add: read_hashes_order_entry_from_bytes_def order_record_def hashes_order_entry_size_def
        calc_ok_def subspan_Inr list_all_iff Let_def min_def)
next
  case (Some h)
  then have h: "hash_wf N h" and idx: "idx < 256 ^ k - 1" using assms by auto
  have pb: "dc_prefix_bytes_count c = length (prefix_part N p h)"
    using prefix_part(2) [OF assms(1) h] assms(1) by (simp add: calc_ok_def)
  have "(256 :: nat) ^ k \<le> 256 ^ 8" using assms(3) by (rule power_increasing) simp
  then have un: "unat (of_nat idx :: u64) = idx" using idx by (subst unat_of_nat) simp
  have "\<not> (\<forall>b \<in> set (le_bytes k (of_nat idx)). b = 255)"
    using idx assms(3) by (subst le_bytes_all_ones_iff) (simp_all add: un)
  then obtain i where i: "i < k" "le_bytes k (of_nat idx) ! i \<noteq> 255"
    by (metis in_set_conv_nth length_le_bytes)
  then have ones: "\<not> list_all (\<lambda>i. (prefix_part N p h @ le_bytes k (of_nat idx)) ! i = 255)
      [0..<length (prefix_part N p h) + k]"
    by (auto simp: list_all_iff nth_append intro!: bexI [of _ "length (prefix_part N p h) + i"])
  have "le_word (le_bytes k (of_nat idx)) = of_nat idx"
    using idx assms(3) by (intro le_word_le_bytes) (simp_all add: un)
  then show ?thesis using assms(3) ones
    by (simp add: read_hashes_order_entry_from_bytes_def Some order_record_def
        hashes_order_entry_size_def pb subspan_Inr)
qed

lemma read_suffix_record:
  assumes "calc_ok N p c" "hash_wf N h" "l < 256 ^ dc_bytes_per_local_pi c"
  shows "read_ls_suffixes_entry_from_bytes c (suffix_record N p (dc_bytes_per_local_pi c) h l) = Inr
    \<lparr>lse_ls_suffix_bytes = suffix_part N p h, lse_local_pi = LocalPi (of_nat l)\<rparr>"
proof -
  have sb: "dc_suffix_bytes_count c = length (suffix_part N p h)"
    using suffix_part(2) [OF assms(1,2)] assms(1) by (simp add: calc_ok_def)
  have k: "dc_bytes_per_local_pi c \<le> 8" using assms(1) by (simp add: calc_ok_def)
  then have "(256 :: nat) ^ dc_bytes_per_local_pi c \<le> 256 ^ 8" by (rule power_increasing) simp
  then have un: "unat (of_nat l :: u64) = l" using assms(3) by (subst unat_of_nat) simp
  have "le_word (le_bytes (dc_bytes_per_local_pi c) (of_nat l)) = of_nat l"
    using assms(3) k by (intro le_word_le_bytes) (simp_all add: un)
  then show ?thesis
    by (simp add: read_ls_suffixes_entry_from_bytes_def suffix_record_def suffixes_entry_size_def sb
        subspan_Inr)
qed

section \<open>Reassembling a hash\<close>

lemma or_disjoint_u8:
  assumes "unat (b :: u8) < 2 ^ z" "2 ^ z dvd unat (q :: u8)"
  shows "unat (b OR q) = unat b + unat q"
proof -
  have b: "b = take_bit z b"
    using assms(1) by (simp add: word_unat_eq_iff unsigned_take_bit_eq take_bit_nat_eq_self)
  have q: "q = push_bit z (drop_bit z q)"
  proof -
    obtain m where m: "unat q = 2 ^ z * m" using assms(2) by (auto elim: dvdE)
    have "unat (push_bit z (drop_bit z q)) = take_bit 8 (push_bit z (drop_bit z (unat q)))"
      by (simp only: unsigned_push_bit_eq unat_drop_bit_eq) simp
    also have "\<dots> = unat q mod 256"
      by (simp add: push_bit_eq_mult drop_bit_eq_div take_bit_eq_mod m mult.commute)
    finally show ?thesis using unat_u8_less [of q] by (simp add: word_unat_eq_iff)
  qed
  have "take_bit z b AND push_bit z (drop_bit z q) = 0"
    by (rule bit_word_eqI) (auto simp: bit_simps)
  then have "b AND q = 0" using b q by simp
  then have "b OR q = b + q" by (simp add: disjunctive_add_eq_or)
  moreover have "unat b + unat q < 256"
  proof -
    obtain m where m: "unat q = 2 ^ z * m" using assms(2) by (auto elim: dvdE)
    have "z \<le> 8 \<or> unat q = 0"
    proof (rule ccontr)
      assume "\<not> (z \<le> 8 \<or> unat q = 0)"
      then have m0: "m \<noteq> 0" and "z \<ge> 8" using m by auto
      have "(2 :: nat) ^ 8 \<le> 2 ^ z" using \<open>z \<ge> 8\<close> by (rule power_increasing) simp
      with m0 have "256 * 1 \<le> 2 ^ z * m" by (intro mult_le_mono) simp_all
      then have "256 \<le> unat q" using m by simp
      then show False using unat_u8_less [of q] by simp
    qed
    then show ?thesis
    proof
      assume "z \<le> 8"
      then have "(256 :: nat) = 2 ^ z * 2 ^ (8 - z)" by (simp flip: power_add)
      then have "2 ^ z * m < 2 ^ z * 2 ^ (8 - z)" using m unat_u8_less [of q] by simp
      then have "m < 2 ^ (8 - z)" by (simp only: mult_less_cancel1)
      then have "2 ^ z * (m + 1) \<le> 2 ^ z * 2 ^ (8 - z)" by (intro mult_le_mono2) simp
      then show ?thesis using assms(1) m \<open>256 = 2 ^ z * 2 ^ (8 - z)\<close> by simp
    next
      assume "unat q = 0"
      then show ?thesis using unat_u8_less [of b] by simp
    qed
  qed
  ultimately show ?thesis by (simp add: unat_word_ariths)
qed

lemma le_nat_replicate_0 [simp]: "le_nat (replicate n 0) = 0"
  by (induction n) auto

lemma hash_from_parts:
  assumes c: "calc_ok N p c" and h: "hash_wf N h"
  shows "hash_from_prefix_suffix N c (prefix_part N p h) (suffix_part N p h) = Inr h"
proof -
  define pre where "pre = prefix_part N p h"
  define suf where "suf = suffix_part N p h"
  define t where "t = 8 * N - p"
  have len: "length pre = (p + 7) div 8" "length suf = (t + 7) div 8" "length h = N"
    using prefix_part(2) [OF c h] suffix_part(2) [OF c h] h
    by (simp_all add: pre_def suf_def t_def hash_wf_def)
  have val: "le_nat pre = le_nat h div 2 ^ t * 2 ^ (length pre * 8 - p)" "le_nat suf = le_nat h mod 2 ^ t"
    using prefix_part(3) [OF c h] suffix_part(3) [OF c h] len by (simp_all add: pre_def suf_def t_def)
  have counts: "dc_prefix_bytes_count c = length pre" "dc_suffix_bytes_count c = length suf" "p \<le> 8 * N"
    using c len by (simp_all add: calc_ok_def t_def)
  have mod8: "dc_prefix_bits_count c mod 8 = 0 \<longleftrightarrow> p mod 8 = 0"
  proof -
    have "unat (dc_prefix_bits_count c) = p" using c by (simp add: calc_ok_def unat_of_nat)
    then show ?thesis by (simp add: word_unat_eq_iff unat_mod_distrib)
  qed
  have done_if: "full = h" if "length full = N" "le_nat full = le_nat h" for full
    using that len le_nat_inject by metis
  have "hash_from_prefix_suffix N c pre suf = Inr h"
  proof (cases "p mod 8 = 0")
    case True
    then obtain m where m: "p = 8 * m" by auto
    have t: "t = 8 * (N - m)" by (simp add: t_def m diff_mult_distrib2)
    have lens: "length suf + length pre = N" "length pre * 8 - p = 0" "8 * length suf = t"
      using counts(3) len unfolding t by (simp_all add: m)
    have "le_nat (suf @ pre) = le_nat h"
      using val lens by (simp add: le_nat_append pow256)
    then have "suf @ pre = h" using lens by (intro done_if) simp
    then show ?thesis using True mod8 lens(1) counts
      by (simp add: hash_from_prefix_suffix_def buf_write_Inr flip: lens(1))
  next
    case False
    define z where "z = length pre * 8 - p"
    have lens: "length suf + length pre = N + 1" "0 < length suf" "0 < length pre" "z < 8"
      "t = 8 * (length suf - 1) + z"
    proof -
      define a where "a = p div 8"
      define r where "r = p mod 8"
      have p: "p = 8 * a + r" "0 < r" "r < 8" using False by (auto simp: a_def r_def)
      have a: "a < N" using counts(3) p by simp
      have l1: "length pre = a + 1" using p len(1) by simp
      define d where "d = N - a"
      have N: "N = a + d" "0 < d" using a by (simp_all add: d_def)
      have l2: "length suf = d" using p len(2) by (simp add: t_def N)
      show "length suf + length pre = N + 1" "0 < length suf" "0 < length pre" "z < 8"
        "t = 8 * (length suf - 1) + z"
        using p N by (simp_all add: z_def t_def l1 l2)
    qed
    obtain bs b where suf: "suf = bs @ [b]" using lens(2) by (cases suf rule: rev_cases) auto
    obtain q qs where pre: "pre = q # qs" using lens(3) by (cases pre) auto
    have tz: "t = 8 * length bs + z" using lens(5) by (simp add: suf)
    have b: "unat b < 2 ^ z"
    proof -
      have "256 ^ length bs * unat b \<le> le_nat suf" by (simp add: suf le_nat_append)
      also have "\<dots> < 2 ^ t" by (simp add: val)
      finally show ?thesis by (simp add: tz pow256 power_add)
    qed
    have q: "2 ^ z dvd unat q"
    proof -
      have "2 ^ z dvd le_nat pre" by (simp add: val z_def)
      moreover have "(2 :: nat) ^ z dvd 256 * le_nat qs"
        using lens(4) by (intro dvd_mult2) (simp add: le_imp_power_dvd [of z 8 "2 :: nat", simplified])
      ultimately show ?thesis by (simp add: pre dvd_add_left_iff)
    qed
    have N: "N = length bs + 1 + length qs" using lens(1) by (simp add: suf pre)
    have "le_nat (bs @ [b OR q] @ qs) = le_nat bs + 256 ^ length bs * (unat b + unat q + 256 * le_nat qs)"
      by (simp add: le_nat_append or_disjoint_u8 [OF b q])
    also have "\<dots> = le_nat suf + 256 ^ length bs * le_nat pre"
      by (simp add: suf pre le_nat_append algebra_simps)
    also have "\<dots> = le_nat h mod 2 ^ t + 2 ^ t * (le_nat h div 2 ^ t)"
    proof -
      have "256 ^ length bs * (le_nat h div 2 ^ t * 2 ^ z) = 2 ^ t * (le_nat h div 2 ^ t)"
        by (simp only: tz power_add pow256 mult.commute mult.left_commute)
      then show ?thesis by (simp only: val z_def [symmetric])
    qed
    also have "\<dots> = le_nat h" by (rule mod_mult_div_eq)
    finally have full: "bs @ [b OR q] @ qs = h" by (intro done_if) (simp_all add: N)
    have nq: "1 < length pre \<longleftrightarrow> qs \<noteq> []" by (simp add: pre)
    show ?thesis using False mod8 counts full [symmetric] nq
      by (cases qs) (simp_all add: hash_from_prefix_suffix_def N suf pre buf_write_Inr subspan_Inr read_at_Inr
          nth_append list_update_append Let_def)
  qed
  then show ?thesis by (simp add: pre_def suf_def)
qed

section \<open>Round trips through the two files\<close>

lemma hashes_order_file_entry_eq:
  assumes "calc_ok N p c" "\<forall>h. oh = Some h \<longrightarrow> hash_wf N h"
    and "k \<le> 8" "oh \<noteq> None \<Longrightarrow> idx < 256 ^ k - 1"
  shows "hashes_order_file_entry N c oh (of_nat idx) k = Inr (order_record N p oh idx k)"
  using write_hashes_order_file_entry_eq [OF assms, of "replicate (hashes_order_entry_size c k) 0"]
  by (simp add: hashes_order_file_entry_def Let_def length_order_record [OF assms(1,2)])

lemma suffixes_file_entry_eq:
  assumes "calc_ok N p c" "hash_wf N h"
    and "n = unat (gpi_int (dc_first_global_pi c)) + l" "n < 2 ^ 64 - 1"
  shows "suffixes_file_entry N c h (GlobalPi (of_nat n)) =
    Inr (suffix_record N p (dc_bytes_per_local_pi c) h l)"
  using write_suffixes_file_entry_eq [OF assms(1,2) _ assms(3,4),
      of "replicate (suffixes_entry_size c) 0"]
  by (simp add: suffixes_file_entry_def)

text \<open>C26: the two records of a donut lose nothing.  For a calculator that the constructor
  accepts, the order record and the suffix record written for a hash read back as a non-sentinel
  entry with the index that was given, whose masked prefix and suffix reassemble to exactly the
  hash, and whose local presentation index is the distance of the global index from the first one
  of the donut.\<close>

theorem donut_records_roundtrip:
  assumes "mk_donut_calc N (of_nat p) g e = Inr c" "8 * N + 7 < 2 ^ 64" "p \<le> 8 * N" "p \<le> 255"
    and "hash_wf N h" "0 < k" "k \<le> 8" "idx < 256 ^ k - 1"
    and "l < unat e" "unat (gpi_int g) + l < 2 ^ 64 - 1"
  shows "\<exists>orec srec oe se.
      hashes_order_file_entry N c (Some h) (of_nat idx) k = Inr orec
    \<and> suffixes_file_entry N c h (GlobalPi (gpi_int g + of_nat l)) = Inr srec
    \<and> read_hashes_order_entry_from_bytes c orec k = Inr oe
    \<and> read_ls_suffixes_entry_from_bytes c srec = Inr se
    \<and> \<not> hoe_is_sentinel oe \<and> hoe_suffixes_file_index oe = of_nat idx
    \<and> lse_local_pi se = LocalPi (of_nat l)
    \<and> hash_from_prefix_suffix N c (hoe_ms_prefix_bytes oe) (lse_ls_suffix_bytes se) = Inr h"
proof -
  note c = mk_donut_calc_ok [OF assms(1-4)]
  have w: "\<forall>h'. Some h = Some h' \<longrightarrow> hash_wf N h'" using assms(5) by simp
  have "(gpi_int g + of_nat l :: u64) = of_nat (unat (gpi_int g) + l)" by simp
  moreover have "suffixes_file_entry N c h (GlobalPi (of_nat (unat (gpi_int g) + l))) =
      Inr (suffix_record N p (dc_bytes_per_local_pi c) h l)"
    using c assms(5,10) by (intro suffixes_file_entry_eq) auto
  moreover have "l < 256 ^ dc_bytes_per_local_pi c"
    using bytes_per_local_pi_fit(2) [OF c(3)] assms(9) by linarith
  ultimately show ?thesis
    using hashes_order_file_entry_eq [OF c(1) w assms(7), of idx]
      read_order_record [OF c(1) w assms(7,6), of idx] read_suffix_record [OF c(1) assms(5)]
      hash_from_parts [OF c(1) assms(5)] assms(8)
    by (intro exI [of _ "order_record N p (Some h) idx k"]
        exI [of _ "suffix_record N p (dc_bytes_per_local_pi c) h l"]) simp
qed

lemma donut_records_roundtrip_witness:
  "\<exists>c orec srec oe se.
      mk_donut_calc 2 10 (GlobalPi 1000) 65535 = Inr c
    \<and> hashes_order_file_entry 2 c (Some [0xAB, 0xCD]) 7 2 = Inr orec
    \<and> suffixes_file_entry 2 c [0xAB, 0xCD] (GlobalPi 1007) = Inr srec
    \<and> read_hashes_order_entry_from_bytes c orec 2 = Inr oe
    \<and> read_ls_suffixes_entry_from_bytes c srec = Inr se
    \<and> hash_from_prefix_suffix 2 c (hoe_ms_prefix_bytes oe) (lse_ls_suffix_bytes se) = Inr [0xAB, 0xCD]"
proof -
  have "\<exists>c. mk_donut_calc 2 (of_nat 10) (GlobalPi 1000) 65535 = Inr c"
    by (simp add: mk_donut_calc_def calculate_bytes_per_local_pi_eq Let_def)
  then obtain c where c: "mk_donut_calc 2 (of_nat 10) (GlobalPi 1000) 65535 = Inr c" by blast
  show ?thesis
    using donut_records_roundtrip [OF c, of "[0xAB, 0xCD]" 2 7 7] c by (auto simp: hash_wf_def)
qed

text \<open>A gap in \<open>HashesOrder.bin\<close> is recognised as such and only a gap is: the record
  written for an absent hash reads back as the sentinel, and a record written for a hash whose
  index has a byte other than 0xFF never does; for an index whose bytes are all 0xFF the writer
  refuses to write (its assertion fails).\<close>

theorem sentinel_exactly_for_gaps:
  assumes "mk_donut_calc N (of_nat p) g e = Inr c" "8 * N + 7 < 2 ^ 64" "p \<le> 8 * N" "p \<le> 255"
    and "\<forall>h. oh = Some h \<longrightarrow> hash_wf N h" "0 < k" "k \<le> 8" "idx < 256 ^ k"
  shows "if oh \<noteq> None \<and> idx = 256 ^ k - 1
    then hashes_order_file_entry N c oh (of_nat idx) k =
      Inl (Assert_Failed ''write_hashes_order_file_entry(): Valid suffix_index collision with 0xFF... sentinel!'')
    else \<exists>orec oe. hashes_order_file_entry N c oh (of_nat idx) k = Inr orec
      \<and> length orec = hashes_order_entry_size c k
      \<and> read_hashes_order_entry_from_bytes c orec k = Inr oe
      \<and> hoe_is_sentinel oe = (oh = None)"
proof (cases "oh \<noteq> None \<longrightarrow> idx < 256 ^ k - 1")
  case True
  note c = mk_donut_calc_ok [OF assms(1-4)]
  show ?thesis
    using True hashes_order_file_entry_eq [OF c(1) assms(5,7), of idx]
      read_order_record [OF c(1) assms(5,7,6), of idx] length_order_record [OF c(1) assms(5)]
    by (cases oh) auto
next
  case False
  note c = mk_donut_calc_ok [OF assms(1-4)]
  from False assms(5,8) obtain h where oh: "oh = Some h" "hash_wf N h" "idx = 256 ^ k - 1" by auto
  have pb: "dc_prefix_bytes_count c = length (prefix_part N p h)"
    using prefix_part(2) [OF c(1) oh(2)] c(1) by (simp add: calc_ok_def)
  have "(256 :: nat) ^ k \<le> 256 ^ 8" using assms(7) by (rule power_increasing) simp
  then have un: "unat (of_nat idx :: u64) = idx" using assms(8) by (subst unat_of_nat) simp
  have "\<forall>b \<in> set (le_bytes k (of_nat idx)). b = 255"
    using assms(7,8) by (subst le_bytes_all_ones_iff) (simp_all only: un, simp_all only: oh(3))
  then have "list_all (\<lambda>i. (prefix_part N p h @ le_bytes k (of_nat idx))
      ! (length (prefix_part N p h) + i) = 255) [0..<k]"
    by (auto simp: list_all_iff nth_append)
  then show ?thesis using assms(7) oh
    by (simp add: hashes_order_file_entry_def write_hashes_order_file_entry_def
        hashes_order_entry_size_def pb ucast_prefix_bits [OF c(1)] prefix_part(1) [OF c(1) oh(2)]
        buf_write_Inr Let_def)
qed

lemma sentinel_exactly_for_gaps_witness:
  "\<exists>c. mk_donut_calc 1 3 (GlobalPi 0) 65535 = Inr c
    \<and> hashes_order_file_entry 1 c (Some [9]) 255 1 =
      Inl (Assert_Failed ''write_hashes_order_file_entry(): Valid suffix_index collision with 0xFF... sentinel!'')"
proof -
  have "\<exists>c. mk_donut_calc 1 (of_nat 3) (GlobalPi 0) 65535 = Inr c"
    by (simp add: mk_donut_calc_def calculate_bytes_per_local_pi_eq Let_def)
  then obtain c where c: "mk_donut_calc 1 (of_nat 3) (GlobalPi 0) 65535 = Inr c" by blast
  show ?thesis
    using sentinel_exactly_for_gaps [OF c, of "Some [9]" 1 255] c by (auto simp: hash_wf_def)
qed

end
