(* ===== verification/File_System.thy ===== *)
theory File_System
  imports Prelude "HOL-Library.AList" "HOL-Library.Sublist"
begin

text \<open>
  The part of the C++ standard library through which the program touches the disk:
  \<open>std::filesystem\<close> queries and directory creation, \<open>std::ofstream\<close> opened for appending,
  \<open>std::ifstream\<close> with its state bits.  A path is the list of its components, relative to a
  working directory that always exists.  The tree is an association list, whose order is the
  (unspecified) order in which a directory iterator enumerates it.
\<close>

section \<open>The tree of files\<close>

datatype node = Dir | File bytes

type_synonym fs = "(path \<times> node) list"

definition fs_node :: "fs \<Rightarrow> path \<Rightarrow> node option" where
  "fs_node fs p = (if p = [] then Some Dir else map_of fs p)"

definition fs_exists :: "fs \<Rightarrow> path \<Rightarrow> bool" where
  "fs_exists fs p = (fs_node fs p \<noteq> None)"

definition fs_is_directory :: "fs \<Rightarrow> path \<Rightarrow> bool" where
  "fs_is_directory fs p = (fs_node fs p = Some Dir)"

definition fs_file_size :: "fs \<Rightarrow> path \<Rightarrow> nat res" where
  "fs_file_size fs p = (case fs_node fs p of Some (File bs) \<Rightarrow> Inr (length bs) | _ \<Rightarrow> Inl Filesystem_Error)"

text \<open>\<open>create_directories\<close> makes every missing prefix of the path.\<close>

definition fs_mkdir :: "fs \<Rightarrow> path \<Rightarrow> fs res" where
  "fs_mkdir fs q = (case fs_node fs q of
     None \<Rightarrow> Inr (fs @ [(q, Dir)])
   | Some Dir \<Rightarrow> Inr fs
   | Some (File _) \<Rightarrow> Inl Filesystem_Error)"

definition fs_create_directories :: "fs \<Rightarrow> path \<Rightarrow> fs res" where
  "fs_create_directories fs p = rfold fs_mkdir fs (map (\<lambda>n. take n p) [1..<Suc (length p)])"

text \<open>The regular files under a directory, relative to it, and the directories in it.\<close>

definition fs_files_under :: "fs \<Rightarrow> path \<Rightarrow> path list" where
  "fs_files_under fs base =
     map (\<lambda>(p, _). drop (length base) p)
       (filter (\<lambda>(p, n). n \<noteq> Dir \<and> strict_prefix base p) fs)"

definition fs_subdirectories :: "fs \<Rightarrow> path \<Rightarrow> path list" where
  "fs_subdirectories fs base =
     map fst (filter (\<lambda>(p, n). n = Dir \<and> p \<noteq> [] \<and> butlast p = base) fs)"

definition fs_wf :: "fs \<Rightarrow> bool" where
  "fs_wf fs \<longleftrightarrow> distinct (map fst fs) \<and>
     (\<forall>p \<in> fst ` set fs. p \<noteq> [] \<and> fs_is_directory fs (butlast p))"

lemma fs_node_Nil [simp]: "fs_node fs [] = Some Dir"
  by (simp add: fs_node_def)

lemma fs_wf_Nil [simp]: "fs_wf []"
  by (simp add: fs_wf_def)

lemma fs_node_update:
  "p \<noteq> [] \<Longrightarrow> fs_node (AList.update p n fs) q = (if q = p then Some n else fs_node fs q)"
  by (simp add: fs_node_def update_conv')

lemma fs_node_append_new:
  "fs_node fs p = None \<Longrightarrow> fs_node (fs @ [(p, n)]) q = (if q = p then Some n else fs_node fs q)"
  by (auto simp: fs_node_def map_add_def split: option.splits)

lemma fs_wf_node_parent:
  "fs_wf fs \<Longrightarrow> fs_node fs (p @ q) \<noteq> None \<Longrightarrow> q \<noteq> [] \<Longrightarrow> fs_is_directory fs p"
proof (induction q arbitrary: rule: rev_induct)
  case Nil
  then show ?case by simp
next
  case (snoc x q)
  have "p @ q @ [x] \<in> fst ` set fs"
    using snoc.prems(2) by (auto simp: fs_node_def map_of_eq_None_iff)
  with snoc.prems(1) have d: "fs_is_directory fs (butlast (p @ q @ [x]))"
    by (auto simp: fs_wf_def)
  show ?case
  proof (cases "q = []")
    case True
    with d show ?thesis by simp
  next
    case False
    from d have "fs_node fs (p @ q) \<noteq> None"
      by (simp add: fs_is_directory_def butlast_append flip: append_assoc)
    with snoc.IH snoc.prems(1) False show ?thesis by simp
  qed
qed

lemma fs_wf_missing_below:
  "fs_wf fs \<Longrightarrow> fs_node fs p = None \<Longrightarrow> fs_node fs (p @ q) = None"
  using fs_wf_node_parent [of fs p q] by (cases "q = []"; cases "fs_node fs (p @ q)") (auto simp: fs_is_directory_def)

lemma fs_wf_File_below:
  "fs_wf fs \<Longrightarrow> fs_node fs p = Some (File c) \<Longrightarrow> q \<noteq> [] \<Longrightarrow> fs_node fs (p @ q) = None"
  using fs_wf_node_parent [of fs p q] by (cases "fs_node fs (p @ q)") (auto simp: fs_is_directory_def)

lemma fs_wf_append_new:
  assumes "fs_wf fs" "fs_node fs p = None" "fs_is_directory fs (butlast p)"
  shows "fs_wf (fs @ [(p, n)])"
proof -
  have p: "p \<noteq> []" "p \<notin> fst ` set fs"
    using assms(2) by (auto simp: fs_node_def map_of_eq_None_iff split: if_splits)
  have "fs_is_directory (fs @ [(p, n)]) d" if "fs_is_directory fs d" for d
    using that assms(2) by (auto simp: fs_is_directory_def fs_node_append_new)
  with assms(1,3) p show ?thesis by (auto simp: fs_wf_def)
qed

lemma fs_wf_update_file:
  assumes "fs_wf fs" "fs_node fs p = Some (File c)"
  shows "fs_wf (AList.update p (File c') fs)"
proof -
  have p: "p \<noteq> []" using assms(2) by auto
  then have mem: "p \<in> fst ` set fs"
    using assms(2) by (force simp: fs_node_def dest: map_of_SomeD)
  have "fs_is_directory (AList.update p (File c') fs) d" if "fs_is_directory fs d" for d
    using that assms(2) p by (auto simp: fs_is_directory_def fs_node_update)
  moreover have "fst ` set (AList.update p (File c') fs) = fst ` set fs"
    using mem by (simp add: dom_update insert_absorb)
  ultimately show ?thesis
    using assms(1) by (auto simp: fs_wf_def distinct_update)
qed

subsection \<open>Creating directories\<close>

lemma fs_mkdir_spec:
  assumes "fs_mkdir fs p = Inr fs'"
  shows "fs_node fs' q = (if q = p then Some Dir else fs_node fs q)"
    and "fs_wf fs \<Longrightarrow> fs_is_directory fs (butlast p) \<Longrightarrow> fs_wf fs'"
  using assms by (auto simp: fs_mkdir_def fs_node_append_new fs_wf_append_new
      split: option.splits node.splits)

text \<open>\<open>create_directory\<close> needs the parent.\<close>

definition fs_create_directory :: "fs \<Rightarrow> path \<Rightarrow> fs res" where
  "fs_create_directory fs p =
     (if \<not> fs_is_directory fs (butlast p) then Inl Filesystem_Error else fs_mkdir fs p)"

lemma fs_create_directory_ok:
  assumes "fs_wf fs" "fs_is_directory fs (butlast p)" "fs_node fs p = None"
  shows "\<exists>fs'. fs_create_directory fs p = Inr fs' \<and> fs_wf fs' \<and>
    (\<forall>q. fs_node fs' q = (if q = p then Some Dir else fs_node fs q))"
proof -
  have m: "fs_mkdir fs p = Inr (fs @ [(p, Dir)])" using assms(3) by (simp add: fs_mkdir_def)
  then show ?thesis using fs_mkdir_spec [OF m] assms(1,2) by (simp add: fs_create_directory_def)
qed

lemma fs_create_directories_spec:
  assumes "fs_wf fs" "\<And>q c. prefix q p \<Longrightarrow> fs_node fs q \<noteq> Some (File c)"
  shows "\<exists>fs'. fs_create_directories fs p = Inr fs' \<and> fs_wf fs'
    \<and> (\<forall>q. fs_node fs' q = (if prefix q p then Some Dir else fs_node fs q))"
proof -
  let ?P = "\<lambda>ys fs'. fs_wf fs' \<and> (\<forall>q. fs_node fs' q =
    (if prefix q p \<and> length q \<le> length ys then Some Dir else fs_node fs q))"
  let ?xs = "map (\<lambda>n. take n p) [1..<Suc (length p)]"
  have "\<exists>fs'. rfold fs_mkdir fs ?xs = Inr fs' \<and> ?P ?xs fs'"
  proof (rule rfold_invariant [where P = ?P])
    show "?P [] fs" using assms(1) by auto
  next
    fix ys x zs s
    assume xs: "?xs = ys @ x # zs" and P: "?P ys s"
    have len: "length ys < length p" using arg_cong [OF xs, of length] by (simp split: if_splits)
    have x: "x = take (Suc (length ys)) p"
      using arg_cong [OF xs, of "\<lambda>l. l ! length ys"] len by (simp add: nth_append split: if_splits)
    then have px: "prefix x p" "length x = Suc (length ys)" using len by (auto simp: take_is_prefix)
    have "fs_node s x = fs_node fs x" using P px by simp
    then have "fs_mkdir s x \<noteq> Inl Filesystem_Error" "fs_node s x \<noteq> Some (File c)" for c
      using assms(2) [OF px(1)] by (auto simp: fs_mkdir_def split: option.splits node.splits)
    then obtain s' where s': "fs_mkdir s x = Inr s'"
      by (auto simp: fs_mkdir_def split: option.splits node.splits)
    have "fs_is_directory s (butlast x)"
      using P px len by (auto simp: fs_is_directory_def x butlast_take take_is_prefix)
    then have "fs_wf s'" using fs_mkdir_spec(2) [OF s'] P by simp
    moreover have "fs_node s' q =
      (if prefix q p \<and> length q \<le> length (ys @ [x]) then Some Dir else fs_node fs q)" for q
    proof (cases "prefix q p \<and> length q = Suc (length ys)")
      case True
      then have "q = x" using px by (auto simp: prefix_def append_eq_append_conv2)
      then show ?thesis using fs_mkdir_spec(1) [OF s'] px by simp
    next
      case False
      then have "q \<noteq> x" using px by auto
      then show ?thesis using fs_mkdir_spec(1) [OF s', of q] P False
        by (auto simp: le_Suc_eq)
    qed
    ultimately show "\<exists>s'. fs_mkdir s x = Inr s' \<and> ?P (ys @ [x]) s'" using s' by blast
  qed
  then obtain fs' where fs': "fs_create_directories fs p = Inr fs'" "?P ?xs fs'"
    by (auto simp: fs_create_directories_def)
  have "fs_node fs' q = (if prefix q p then Some Dir else fs_node fs q)" for q
    using fs'(2) prefix_length_le [of q p] by (cases p) auto
  with fs' show ?thesis by blast
qed

lemma fs_files_under_iff:
  "fs_wf fs \<Longrightarrow> r \<in> set (fs_files_under fs base) \<longleftrightarrow>
    r \<noteq> [] \<and> (\<exists>c. fs_node fs (base @ r) = Some (File c))"
proof -
  assume wf: "fs_wf fs"
  then have d: "distinct (map fst fs)" by (simp add: fs_wf_def)
  have "r \<in> set (fs_files_under fs base) \<longleftrightarrow> r \<noteq> [] \<and> (\<exists>c. (base @ r, File c) \<in> set fs)"
  proof
    assume "r \<in> set (fs_files_under fs base)"
    then obtain p n where pn: "(p, n) \<in> set fs" "n \<noteq> Dir" "strict_prefix base p" "r = drop (length base) p"
      by (auto simp: fs_files_under_def)
    from pn(3) obtain z zs where "p = base @ z # zs" by (rule strict_prefixE')
    with pn show "r \<noteq> [] \<and> (\<exists>c. (base @ r, File c) \<in> set fs)" by (cases n) auto
  next
    assume "r \<noteq> [] \<and> (\<exists>c. (base @ r, File c) \<in> set fs)"
    then show "r \<in> set (fs_files_under fs base)"
      by (force simp: fs_files_under_def image_iff strict_prefix_def)
  qed
  also have "\<dots> \<longleftrightarrow> r \<noteq> [] \<and> (\<exists>c. fs_node fs (base @ r) = Some (File c))"
    using d by (auto simp: fs_node_def)
  finally show ?thesis .
qed

lemma fs_files_under_distinct: "fs_wf fs \<Longrightarrow> distinct (fs_files_under fs base)"
proof -
  assume "fs_wf fs"
  then have "distinct (map fst fs)" by (simp add: fs_wf_def)
  then show ?thesis
  proof (induction fs)
    case Nil
    then show ?case by (simp add: fs_files_under_def)
  next
    case (Cons x fs)
    obtain p n where x: "x = (p, n)" by force
    show ?case
    proof (cases "n \<noteq> Dir \<and> strict_prefix base p")
      case True
      then have "strict_prefix base p" by simp
      then obtain z zs where p: "p = base @ z # zs" by (rule strict_prefixE')
      have "z # zs \<notin> set (fs_files_under fs base)"
      proof
        assume "z # zs \<in> set (fs_files_under fs base)"
        then obtain q m where q: "(q, m) \<in> set fs" "strict_prefix base q" "z # zs = drop (length base) q"
          by (auto simp: fs_files_under_def)
        from q(2) obtain y ys where "q = base @ y # ys" by (rule strict_prefixE')
        with q p have "q = p" by simp
        with q Cons.prems x show False by force
      qed
      with Cons p True show ?thesis by (auto simp: fs_files_under_def x)
    next
      case False
      with Cons show ?thesis by (auto simp: fs_files_under_def x)
    qed
  qed
qed

section \<open>Output streams\<close>

text \<open>
  An \<open>std::ofstream\<close> opened with \<open>out | app | binary\<close>.  Opening fails silently when the
  path is a directory or its parent does not exist, and a failed stream drops what is written to
  it.  Written bytes wait in the buffer of the stream until it is full, flushed or destroyed;
  \<open>stream_buffer_size\<close> is the usual size, and no lemma depends on its value.
\<close>

record ofstream =
  os_path :: path
  os_pending :: bytes
  os_ok :: bool

definition stream_buffer_size :: nat where
  "stream_buffer_size = 8191"

definition fs_append :: "fs \<Rightarrow> path \<Rightarrow> bytes \<Rightarrow> fs" where
  "fs_append fs p bs = (case fs_node fs p of
     Some (File c) \<Rightarrow> AList.update p (File (c @ bs)) fs
   | _ \<Rightarrow> fs)"

definition os_open_app :: "fs \<Rightarrow> path \<Rightarrow> fs \<times> ofstream" where
  "os_open_app fs p = (case fs_node fs p of
     Some (File _) \<Rightarrow> (fs, \<lparr>os_path = p, os_pending = [], os_ok = True\<rparr>)
   | Some Dir \<Rightarrow> (fs, \<lparr>os_path = p, os_pending = [], os_ok = False\<rparr>)
   | None \<Rightarrow> if fs_is_directory fs (butlast p)
       then (fs @ [(p, File [])], \<lparr>os_path = p, os_pending = [], os_ok = True\<rparr>)
       else (fs, \<lparr>os_path = p, os_pending = [], os_ok = False\<rparr>))"

definition os_flush :: "fs \<Rightarrow> ofstream \<Rightarrow> fs \<times> ofstream" where
  "os_flush fs s = (fs_append fs (os_path s) (os_pending s), s\<lparr>os_pending := []\<rparr>)"

definition os_write :: "fs \<Rightarrow> ofstream \<Rightarrow> bytes \<Rightarrow> fs \<times> ofstream" where
  "os_write fs s bs =
     (if \<not> os_ok s then (fs, s)
      else if length (os_pending s) + length bs < stream_buffer_size
      then (fs, s\<lparr>os_pending := os_pending s @ bs\<rparr>)
      else os_flush fs (s\<lparr>os_pending := os_pending s @ bs\<rparr>))"

text \<open>What the file will hold once the stream is closed.\<close>

definition os_content :: "fs \<Rightarrow> ofstream \<Rightarrow> bytes option" where
  "os_content fs s = (case fs_node fs (os_path s) of
     Some (File c) \<Rightarrow> Some (c @ os_pending s) | _ \<Rightarrow> None)"

lemma fs_append_node:
  "fs_node (fs_append fs p bs) q =
    (case fs_node fs q of Some (File c) \<Rightarrow> Some (File (if q = p then c @ bs else c)) | x \<Rightarrow> x)"
proof (cases "q = p")
  case True
  then show ?thesis
    by (cases "p = []") (auto simp: fs_append_def fs_node_update split: option.split node.split)
next
  case False
  then have "fs_node (fs_append fs p bs) q = fs_node fs q"
    by (cases "p = []") (auto simp: fs_append_def fs_node_update split: option.split node.split)
  with False show ?thesis by (auto split: option.split node.split)
qed

lemma fs_append_wf [simp]: "fs_wf fs \<Longrightarrow> fs_wf (fs_append fs p bs)"
  by (auto simp: fs_append_def fs_wf_update_file split: option.splits node.splits)

lemma fs_append_is_directory [simp]: "fs_is_directory (fs_append fs p bs) q = fs_is_directory fs q"
  by (auto simp: fs_is_directory_def fs_append_node split: option.splits node.splits)

lemma os_flush_spec:
  assumes "os_flush fs s = (fs', s')"
  shows "os_content fs' s' = os_content fs s" "os_pending s' = []" "os_path s' = os_path s"
    "os_ok s' = os_ok s" "q \<noteq> os_path s \<Longrightarrow> fs_node fs' q = fs_node fs q"
    "fs_wf fs \<Longrightarrow> fs_wf fs'" "fs_is_directory fs' d = fs_is_directory fs d"
  using assms by (auto simp: os_flush_def os_content_def fs_append_node
      split: option.splits node.splits)

lemma os_write_spec:
  assumes "os_write fs s bs = (fs', s')" "os_ok s"
  shows "os_content fs' s' = map_option (\<lambda>c. c @ bs) (os_content fs s)" "os_path s' = os_path s"
    "os_ok s'" "q \<noteq> os_path s \<Longrightarrow> fs_node fs' q = fs_node fs q"
    "fs_wf fs \<Longrightarrow> fs_wf fs'" "fs_is_directory fs' d = fs_is_directory fs d"
  using assms by (auto simp: os_write_def os_content_def os_flush_def fs_append_node
      split: option.splits node.splits if_splits)

lemma os_open_app_spec:
  assumes "os_open_app fs p = (fs', s)"
  shows "os_path s = p" "os_pending s = []" "q \<noteq> p \<Longrightarrow> fs_node fs' q = fs_node fs q"
    "fs_wf fs \<Longrightarrow> fs_wf fs'" "fs_is_directory fs' d = fs_is_directory fs d"
  using assms by (auto simp: os_open_app_def fs_node_append_new fs_wf_append_new fs_is_directory_def
      split: option.splits node.splits if_splits)

lemma os_open_app_content:
  assumes "os_open_app fs p = (fs', s)" "fs_node fs p = Some (File c) \<or> fs_node fs p = None \<and>
    fs_is_directory fs (butlast p) \<and> c = []"
  shows "os_ok s" "os_content fs' s = Some c"
  using assms by (auto simp: os_open_app_def os_content_def fs_node_append_new
      split: option.splits node.splits if_splits)

section \<open>Input streams\<close>

text \<open>
  An \<open>std::ifstream\<close> with the content of its file, its position and its \<open>eofbit\<close> and
  \<open>failbit\<close>.  \<open>is_read\<close> returns the bytes that were extracted (their number is
  \<open>gcount()\<close>): every unformatted input function first constructs a sentry, which sets
  \<open>failbit\<close> and extracts nothing when the stream is not good.  \<open>is_seekg\<close> clears
  \<open>eofbit\<close> and does nothing more on a failed stream.
\<close>

record ifstream =
  is_content :: bytes
  is_pos :: nat
  is_eof :: bool
  is_fail :: bool

definition is_open_file :: "fs \<Rightarrow> path \<Rightarrow> ifstream option" where
  "is_open_file fs p = (case fs_node fs p of
     Some (File c) \<Rightarrow> Some \<lparr>is_content = c, is_pos = 0, is_eof = False, is_fail = False\<rparr>
   | _ \<Rightarrow> None)"

definition is_good :: "ifstream \<Rightarrow> bool" where
  "is_good s = (\<not> is_eof s \<and> \<not> is_fail s)"

definition is_read :: "ifstream \<Rightarrow> nat \<Rightarrow> bytes \<times> ifstream" where
  "is_read s n =
     (if \<not> is_good s then ([], s\<lparr>is_fail := True\<rparr>)
      else let got = take n (drop (is_pos s) (is_content s)) in
        (got, s\<lparr>is_pos := is_pos s + length got,
                is_eof := length got < n, is_fail := length got < n\<rparr>))"

definition is_peek :: "ifstream \<Rightarrow> u8 option \<times> ifstream" where
  "is_peek s =
     (if \<not> is_good s then (None, s\<lparr>is_fail := True\<rparr>)
      else if is_pos s < length (is_content s) then (Some (is_content s ! is_pos s), s)
      else (None, s\<lparr>is_eof := True\<rparr>))"

definition is_seekg :: "ifstream \<Rightarrow> nat \<Rightarrow> ifstream" where
  "is_seekg s pos = (if is_fail s then s\<lparr>is_eof := False\<rparr> else s\<lparr>is_eof := False, is_pos := pos\<rparr>)"

definition is_clear :: "ifstream \<Rightarrow> ifstream" where
  "is_clear s = s\<lparr>is_eof := False, is_fail := False\<rparr>"

text \<open>The bytes a stream has still to deliver.\<close>

definition is_rest :: "ifstream \<Rightarrow> bytes" where
  "is_rest s = drop (is_pos s) (is_content s)"

lemma is_read_full:
  assumes "is_good s" "is_rest s = bs @ rest" "length bs = n"
  shows "\<exists>s'. is_read s n = (bs, s') \<and> is_good s' \<and> is_rest s' = rest"
proof -
  have "take n (drop (is_pos s) (is_content s)) = bs" "drop (length bs) (drop (is_pos s) (is_content s)) = rest"
    using assms(2,3) by (simp_all add: is_rest_def)
  then show ?thesis using assms(1,3)
    by (simp add: is_read_def is_good_def is_rest_def Let_def add.commute)
qed

end
