(* ===== verification/Files_Manifest.thy ===== *)
theory Files_Manifest
  imports File_System
begin

text \<open>
  \<^verbatim>\<open>libs/evolving_disk_state/include/files_manifest/dummy_implementation.hpp\<close>: the class
  \<open>FilesManifestDummy\<close>, which hands out handles for the files under a folder and appends to
  them through output streams that it keeps open.  The operations act on the pair of the tree
  of files and the manifest.  A thrown exception drops the partly updated manifest: no caller of
  the program goes on using one after an exception.

  \<open>append_store\<close> is the contract (\<^verbatim>\<open>concepts_manifest.hpp\<close>) on which the donuts rely: every
  handle stands for a byte sequence that only grows.  The manifest is an instance of it.
\<close>

section \<open>The interface of an append-only store\<close>

text \<open>What a sequence of interleaved appends adds to one handle.\<close>

definition chunks_for :: "'h \<Rightarrow> ('h \<times> bytes) list \<Rightarrow> bytes" where
  "chunks_for h jobs = concat (map snd (filter (\<lambda>j. fst j = h) jobs))"

locale append_store =
  fixes valid :: "'s \<Rightarrow> bool"
    and content :: "'s \<Rightarrow> 'h \<Rightarrow> bytes option"
    and writable :: "'s \<Rightarrow> 'h \<Rightarrow> bool"
    and append :: "'s \<Rightarrow> 'h \<Rightarrow> bytes \<Rightarrow> 's res"
    and rest :: "'s \<Rightarrow> 'v"
  assumes writable_content: "valid s \<Longrightarrow> writable s h \<Longrightarrow> \<exists>c. content s h = Some c"
    and append_grows: "valid s \<Longrightarrow> writable s h \<Longrightarrow> content s h = Some c \<Longrightarrow>
      \<exists>s'. append s h bs = Inr s' \<and> valid s' \<and> rest s' = rest s
        \<and> (\<forall>k. writable s' k = writable s k)
        \<and> (\<forall>k. content s' k = (if k = h then Some (c @ bs) else content s k))"
begin

text \<open>Interleaved appends give every handle the concatenation of its own chunks.\<close>

lemma append_all:
  assumes "valid s" "\<forall>j \<in> set jobs. writable s (fst j)"
  shows "\<exists>s'. rfold (\<lambda>s j. append s (fst j) (snd j)) s jobs = Inr s' \<and> valid s' \<and> rest s' = rest s
    \<and> (\<forall>k. writable s' k = writable s k)
    \<and> (\<forall>k. content s' k = map_option (\<lambda>c. c @ chunks_for k jobs) (content s k))"
  using assms
proof (induction jobs arbitrary: s)
  case Nil
  have "map_option (\<lambda>c. c) (content s k) = content s k" for k by (simp add: option.map_ident)
  with Nil show ?case by (simp add: chunks_for_def)
next
  case (Cons j jobs)
  obtain c where c: "content s (fst j) = Some c" using Cons.prems writable_content by fastforce
  obtain s1 where s1: "append s (fst j) (snd j) = Inr s1" "valid s1" "rest s1 = rest s"
    "\<forall>k. writable s1 k = writable s k"
    "\<forall>k. content s1 k = (if k = fst j then Some (c @ snd j) else content s k)"
    using append_grows [OF _ _ c, of "snd j"] Cons.prems by auto
  obtain s' where s': "rfold (\<lambda>s j. append s (fst j) (snd j)) s1 jobs = Inr s'" "valid s'"
    "rest s' = rest s1" "\<forall>k. writable s' k = writable s1 k"
    "\<forall>k. content s' k = map_option (\<lambda>c. c @ chunks_for k jobs) (content s1 k)"
    using Cons.IH [of s1] s1 Cons.prems by auto
  have "content s' k = map_option (\<lambda>c. c @ chunks_for k (j # jobs)) (content s k)" for k
    using s1 s' c by (cases "k = fst j") (auto simp: chunks_for_def)
  then show ?case using s1 s' by auto
qed

lemma append_twice:
  assumes "valid s" "writable s h" "writable s k" "h \<noteq> k"
    "content s h = Some a" "content s k = Some b"
  shows "\<exists>s1 s2. append s h x = Inr s1 \<and> append s1 k y = Inr s2 \<and> valid s2 \<and> rest s2 = rest s
    \<and> (\<forall>i. writable s2 i = writable s i) \<and> content s2 h = Some (a @ x) \<and> content s2 k = Some (b @ y)"
proof -
  obtain s1 where s1: "append s h x = Inr s1" "valid s1" "rest s1 = rest s"
    "\<forall>k. writable s1 k = writable s k"
    "\<forall>k. content s1 k = (if k = h then Some (a @ x) else content s k)"
    using append_grows [OF assms(1,2,5), of x] by auto
  obtain s2 where s2: "append s1 k y = Inr s2" "valid s2" "rest s2 = rest s1"
    "\<forall>i. writable s2 i = writable s1 i"
    "\<forall>i. content s2 i = (if i = k then Some (b @ y) else content s1 i)"
    using append_grows [of s1 k b y] s1 assms(3,4,6) by auto
  have "content s2 h = Some (a @ x)" "content s2 k = Some (b @ y)"
    using s1 s2 assms(4) by auto
  moreover have "\<forall>i. writable s2 i = writable s i" "rest s2 = rest s" using s1 s2 by auto
  ultimately show ?thesis using s1(1) s2(1,2) by blast
qed

end

section \<open>The manifest\<close>

definition InvalidFileHandle :: int where
  "InvalidFileHandle = - 1"

record manifest =
  fm_base_path :: path
  fm_next_file_handle :: int
  fm_finished_sealed :: bool
  fm_file_handles_by_rel_path :: "path \<rightharpoonup> int"
  fm_rel_paths_by_handle :: "int \<rightharpoonup> path"
  fm_file_sizes_by_handle :: "int \<rightharpoonup> nat"
  fm_open_files_by_handle :: "(int \<times> ofstream) list"

type_synonym disk = "fs \<times> manifest"

definition fm_register :: "fs \<Rightarrow> manifest \<Rightarrow> path \<Rightarrow> manifest res" where
  "fm_register fs m rel_path =
     (let handle = fm_next_file_handle m in
      rbind (fs_file_size fs (fm_base_path m @ rel_path)) (\<lambda>sz.
      Inr (m\<lparr>fm_next_file_handle := handle + 1,
             fm_file_handles_by_rel_path := (fm_file_handles_by_rel_path m)(rel_path \<mapsto> handle),
             fm_file_sizes_by_handle := (fm_file_sizes_by_handle m)(handle \<mapsto> sz),
             fm_rel_paths_by_handle := (fm_rel_paths_by_handle m)(handle \<mapsto> rel_path)\<rparr>)))"

definition mk_manifest :: "fs \<Rightarrow> path \<Rightarrow> manifest res" where
  "mk_manifest fs base_path =
     (if \<not> fs_exists fs base_path
      then Inl (Runtime_Error ''FilesManifestDummy ctor: base_path does not exist'')
      else if \<not> fs_is_directory fs base_path
      then Inl (Runtime_Error ''FilesManifestDummy ctor: base_path is not a directory'')
      else rfold (fm_register fs)
        \<lparr>fm_base_path = base_path, fm_next_file_handle = 0, fm_finished_sealed = False,
         fm_file_handles_by_rel_path = Map.empty, fm_rel_paths_by_handle = Map.empty,
         fm_file_sizes_by_handle = Map.empty, fm_open_files_by_handle = []\<rparr>
        (fs_files_under fs base_path))"

definition is_started :: "manifest \<Rightarrow> bool" where
  "is_started m = True"

definition is_finished_sealed :: "manifest \<Rightarrow> bool" where
  "is_finished_sealed m = fm_finished_sealed m"

definition create_new_file :: "disk \<Rightarrow> path \<Rightarrow> (disk \<times> int) res" where
  "create_new_file d rel_path =
     (case d of (fs, m) \<Rightarrow>
      if \<not> (\<not> fm_finished_sealed m)
      then Inl (Assert_Failed ''create_new_file(): Cannot create new file after finish_and_seal()'')
      else if fs_exists fs (fm_base_path m @ rel_path)
      then Inl (Runtime_Error ''create_new_file(): File already exists'')
      else let handle = fm_next_file_handle m;
               m1 = m\<lparr>fm_next_file_handle := handle + 1,
                      fm_file_handles_by_rel_path := (fm_file_handles_by_rel_path m)(rel_path \<mapsto> handle),
                      fm_rel_paths_by_handle := (fm_rel_paths_by_handle m)(handle \<mapsto> rel_path),
                      fm_file_sizes_by_handle := (fm_file_sizes_by_handle m)(handle \<mapsto> 0)\<rparr>;
               path = fm_base_path m @ rel_path;
               parent_path = butlast path
           in rbind (fs_create_directories fs parent_path) (\<lambda>fs1.
              case os_open_app fs1 path of (fs2, s) \<Rightarrow>
                Inr ((fs2, m1\<lparr>fm_open_files_by_handle :=
                        AList.update handle s (fm_open_files_by_handle m1)\<rparr>), handle)))"

definition get_file_handle :: "manifest \<Rightarrow> path \<Rightarrow> int" where
  "get_file_handle m relative_path =
     (case fm_file_handles_by_rel_path m relative_path of None \<Rightarrow> InvalidFileHandle | Some h \<Rightarrow> h)"

definition get_file_size :: "manifest \<Rightarrow> int \<Rightarrow> nat res" where
  "get_file_size m handle =
     (case fm_file_sizes_by_handle m handle of
        None \<Rightarrow> Inl (Runtime_Error ''get_file_size(): Unknown handle'')
      | Some n \<Rightarrow> Inr n)"

definition open_file :: "disk \<Rightarrow> int \<Rightarrow> disk res" where
  "open_file d handle =
     (case d of (fs, m) \<Rightarrow>
      if map_of (fm_open_files_by_handle m) handle \<noteq> None
      then Inl (Runtime_Error ''open_file(): File is already open'')
      else if fm_file_sizes_by_handle m handle = None
      then Inl (Runtime_Error ''open_file(): Unknown handle'')
      else let rel = (case fm_rel_paths_by_handle m handle of Some p \<Rightarrow> p | None \<Rightarrow> []) in
           case os_open_app fs (fm_base_path m @ rel) of (fs', s) \<Rightarrow>
             Inr (fs', m\<lparr>fm_open_files_by_handle :=
                         AList.update handle s (fm_open_files_by_handle m)\<rparr>))"

definition append_to_file :: "disk \<Rightarrow> int \<Rightarrow> bytes \<Rightarrow> disk res" where
  "append_to_file d handle bs =
     (case d of (fs, m) \<Rightarrow>
      if \<not> (\<not> fm_finished_sealed m)
      then Inl (Assert_Failed ''append_to_file(): Cannot append to file after finish_and_seal()'')
      else case map_of (fm_open_files_by_handle m) handle of
        None \<Rightarrow> Inl (Runtime_Error ''append_to_file(): File is not open'')
      | Some s \<Rightarrow>
          let old_size = (case fm_file_sizes_by_handle m handle of Some n \<Rightarrow> n | None \<Rightarrow> 0) in
          case os_write fs s bs of (fs', s') \<Rightarrow>
            Inr (fs', m\<lparr>fm_open_files_by_handle := AList.update handle s' (fm_open_files_by_handle m),
                        fm_file_sizes_by_handle :=
                          (fm_file_sizes_by_handle m)(handle \<mapsto> old_size + length bs)\<rparr>))"

definition close_file :: "disk \<Rightarrow> int \<Rightarrow> disk" where
  "close_file d handle =
     (case d of (fs, m) \<Rightarrow>
      case map_of (fm_open_files_by_handle m) handle of
        None \<Rightarrow> (fs, m)
      | Some s \<Rightarrow> (fst (os_flush fs s),
          m\<lparr>fm_open_files_by_handle := AList.delete handle (fm_open_files_by_handle m)\<rparr>))"

definition commit :: "disk \<Rightarrow> disk" where
  "commit d = d"

fun flush_streams :: "fs \<Rightarrow> (int \<times> ofstream) list \<Rightarrow> fs \<times> (int \<times> ofstream) list" where
  "flush_streams fs [] = (fs, [])"
| "flush_streams fs ((h, s) # ss) =
     (case os_flush fs s of (fs1, s1) \<Rightarrow>
      case flush_streams fs1 ss of (fs2, ss1) \<Rightarrow> (fs2, (h, s1) # ss1))"

definition flush :: "disk \<Rightarrow> disk" where
  "flush d = (case d of (fs, m) \<Rightarrow>
     case flush_streams fs (fm_open_files_by_handle m) of (fs', ss) \<Rightarrow>
       (fs', m\<lparr>fm_open_files_by_handle := ss\<rparr>))"

definition finish_and_seal :: "disk \<Rightarrow> disk" where
  "finish_and_seal d = (case flush d of (fs, m) \<Rightarrow>
     (fs, m\<lparr>fm_open_files_by_handle := [], fm_finished_sealed := True\<rparr>))"

text \<open>The destructor, after which only the tree of files is left.\<close>

definition destroy_manifest :: "disk \<Rightarrow> fs" where
  "destroy_manifest d = fst (flush d)"

section \<open>The content behind a handle\<close>

text \<open>
  \<open>fm_content d h\<close> is what the file of handle \<open>h\<close> holds once all streams are closed;
  \<open>fm_inv d\<close> is the invariant of the class: the maps describe the same files, every file
  exists, the recorded sizes are those of the contents, and every open stream is the usable
  stream of its file.
\<close>

definition fm_content :: "disk \<Rightarrow> int \<Rightarrow> bytes option" where
  "fm_content d h = (case d of (fs, m) \<Rightarrow>
     case fm_rel_paths_by_handle m h of
       None \<Rightarrow> None
     | Some rel \<Rightarrow> (case fs_node fs (fm_base_path m @ rel) of
         Some (File c) \<Rightarrow> Some (c @ (case map_of (fm_open_files_by_handle m) h of
           Some s \<Rightarrow> os_pending s | None \<Rightarrow> []))
       | _ \<Rightarrow> None))"

definition fm_writable :: "disk \<Rightarrow> int \<Rightarrow> bool" where
  "fm_writable d h = (case d of (fs, m) \<Rightarrow>
     \<not> fm_finished_sealed m \<and> map_of (fm_open_files_by_handle m) h \<noteq> None)"

definition fm_inv :: "disk \<Rightarrow> bool" where
  "fm_inv d = (case d of (fs, m) \<Rightarrow>
     fs_wf fs \<and> fs_is_directory fs (fm_base_path m) \<and> 0 \<le> fm_next_file_handle m
   \<and> (\<forall>p h. fm_file_handles_by_rel_path m p = Some h \<longleftrightarrow> fm_rel_paths_by_handle m h = Some p)
   \<and> (\<forall>h p. fm_rel_paths_by_handle m h = Some p \<longrightarrow> p \<noteq> [] \<and> 0 \<le> h \<and> h < fm_next_file_handle m)
   \<and> (\<forall>h. fm_file_sizes_by_handle m h = map_option length (fm_content d h))
   \<and> (\<forall>h p. fm_rel_paths_by_handle m h = Some p \<longrightarrow> fm_content d h \<noteq> None)
   \<and> distinct (map fst (fm_open_files_by_handle m))
   \<and> (\<forall>h s. map_of (fm_open_files_by_handle m) h = Some s \<longrightarrow> os_ok s
        \<and> (\<exists>p. fm_rel_paths_by_handle m h = Some p \<and> os_path s = fm_base_path m @ p)))"

text \<open>Everything about a manifest and the disk that appending does not change.\<close>

definition fm_known :: "manifest \<Rightarrow> path \<Rightarrow> bool" where
  "fm_known m q \<longleftrightarrow> (\<exists>h p. fm_rel_paths_by_handle m h = Some p \<and> q = fm_base_path m @ p)"

definition fm_frame :: "disk \<Rightarrow> manifest \<times> (path \<Rightarrow> bool) \<times> (path \<Rightarrow> node option)" where
  "fm_frame d = (case d of (fs, m) \<Rightarrow>
     (m\<lparr>fm_file_sizes_by_handle := Map.empty, fm_open_files_by_handle := []\<rparr>,
      fs_is_directory fs,
      \<lambda>q. if fm_known m q then None else fs_node fs q))"

lemma fm_inv_open:
  assumes "fm_inv (fs, m)" "map_of (fm_open_files_by_handle m) h = Some s"
  obtains p where "os_ok s" "fm_rel_paths_by_handle m h = Some p" "os_path s = fm_base_path m @ p"
  using assms unfolding fm_inv_def prod.case by blast

lemma fm_inv_content:
  assumes "fm_inv (fs, m)" "fm_rel_paths_by_handle m h = Some p"
  obtains c where "fm_content (fs, m) h = Some c" "fm_file_sizes_by_handle m h = Some (length c)"
  using assms by (cases "fm_content (fs, m) h") (auto simp: fm_inv_def)

lemma fm_inv_rel_paths_inj:
  "fm_inv (fs, m) \<Longrightarrow> fm_rel_paths_by_handle m h = Some p \<Longrightarrow> fm_rel_paths_by_handle m k = Some p
    \<Longrightarrow> h = k"
proof -
  assume inv: "fm_inv (fs, m)" and "fm_rel_paths_by_handle m h = Some p" "fm_rel_paths_by_handle m k = Some p"
  then have "fm_file_handles_by_rel_path m p = Some h" "fm_file_handles_by_rel_path m p = Some k"
    by (simp_all add: fm_inv_def)
  then show ?thesis by simp
qed

lemma fm_content_os_content:
  assumes "fm_inv (fs, m)" "map_of (fm_open_files_by_handle m) h = Some s"
  shows "fm_content (fs, m) h = os_content fs s"
proof -
  obtain p where p: "fm_rel_paths_by_handle m h = Some p" "os_path s = fm_base_path m @ p"
    using assms by (elim fm_inv_open)
  then show ?thesis using assms(2)
    by (auto simp: fm_content_def os_content_def split: option.split node.split)
qed

text \<open>Replacing the stream of an open file by one with a longer content.\<close>

lemma fm_inv_update_stream:
  assumes inv: "fm_inv (fs, m)" and open': "map_of (fm_open_files_by_handle m) h = Some s"
    and s': "os_path s' = os_path s" "os_ok s'" "os_content fs' s' = Some c'"
    and fs': "fs_wf fs'" "\<And>q. q \<noteq> os_path s \<Longrightarrow> fs_node fs' q = fs_node fs q"
      "\<And>q. fs_is_directory fs' q = fs_is_directory fs q"
    and m': "m' = m\<lparr>fm_open_files_by_handle := AList.update h s' (fm_open_files_by_handle m),
      fm_file_sizes_by_handle := (fm_file_sizes_by_handle m)(h \<mapsto> length c')\<rparr>"
  shows "fm_inv (fs', m')" "fm_frame (fs', m') = fm_frame (fs, m)"
    "fm_content (fs', m') k = (if k = h then Some c' else fm_content (fs, m) k)"
    "fm_writable (fs', m') k = fm_writable (fs, m) k"
proof -
  obtain p where p: "fm_rel_paths_by_handle m h = Some p" "os_path s = fm_base_path m @ p"
    using inv open' by (elim fm_inv_open)
  show content: "fm_content (fs', m') k = (if k = h then Some c' else fm_content (fs, m) k)" for k
  proof (cases "k = h")
    case True
    then show ?thesis using p s'
      by (auto simp: fm_content_def m' update_conv' os_content_def split: option.splits node.splits)
  next
    case False
    have "fs_node fs' (fm_base_path m @ q) = fs_node fs (fm_base_path m @ q)"
      if "fm_rel_paths_by_handle m k = Some q" for q
      using that False p fm_inv_rel_paths_inj [OF inv, of h p k] by (intro fs'(2)) auto
    with False show ?thesis
      by (auto simp: fm_content_def m' update_conv' split: option.split)
  qed
  have "fm_content (fs, m) h \<noteq> None" using inv p by (auto simp: fm_inv_def)
  moreover have f: "fm_base_path m' = fm_base_path m" "fm_next_file_handle m' = fm_next_file_handle m"
    "fm_file_handles_by_rel_path m' = fm_file_handles_by_rel_path m"
    "fm_rel_paths_by_handle m' = fm_rel_paths_by_handle m"
    "fm_file_sizes_by_handle m' = (fm_file_sizes_by_handle m)(h \<mapsto> length c')"
    "distinct (map fst (fm_open_files_by_handle m)) \<Longrightarrow> distinct (map fst (fm_open_files_by_handle m'))"
    "map_of (fm_open_files_by_handle m') = (map_of (fm_open_files_by_handle m))(h \<mapsto> s')"
    by (simp_all add: m' distinct_update update_conv')
  ultimately show "fm_inv (fs', m')"
    using inv fs'(1,3) s' p unfolding fm_inv_def prod.case f(1-5,7) content by auto
  have "(if fm_known m q then None else fs_node fs' q) = (if fm_known m q then None else fs_node fs q)" for q
    using p fs'(2) [of q] by (auto simp: fm_known_def)
  moreover have "fm_known m' = fm_known m" by (simp add: fm_known_def m' fun_eq_iff)
  moreover have "fs_is_directory fs' = fs_is_directory fs" using fs'(3) by (simp add: fun_eq_iff)
  ultimately show "fm_frame (fs', m') = fm_frame (fs, m)"
    by (simp add: fm_frame_def m')
  show "fm_writable (fs', m') k = fm_writable (fs, m) k"
    using open' by (auto simp: fm_writable_def m' update_conv')
qed

lemma append_to_file_spec:
  assumes "fm_inv d" "fm_writable d h" "fm_content d h = Some c"
  shows "\<exists>d'. append_to_file d h bs = Inr d' \<and> fm_inv d' \<and> fm_frame d' = fm_frame d
    \<and> (\<forall>k. fm_writable d' k = fm_writable d k)
    \<and> (\<forall>k. fm_content d' k = (if k = h then Some (c @ bs) else fm_content d k))"
proof -
  obtain fs m where d: "d = (fs, m)" by force
  obtain s where s: "map_of (fm_open_files_by_handle m) h = Some s" "\<not> fm_finished_sealed m"
    using assms(2) by (auto simp: d fm_writable_def)
  obtain fs' s' where w: "os_write fs s bs = (fs', s')" by force
  have ok: "os_ok s" and size: "fm_file_sizes_by_handle m h = Some (length c)" and wf: "fs_wf fs"
    using assms s by (auto simp: d fm_inv_def)
  have "os_content fs s = Some c" using fm_content_os_content [of fs m h s] assms s by (simp add: d)
  then have c': "os_content fs' s' = Some (c @ bs)" using os_write_spec(1) [OF w ok] by simp
  have eq: "append_to_file d h bs = Inr (fs', m\<lparr>fm_open_files_by_handle := AList.update h s' (fm_open_files_by_handle m),
      fm_file_sizes_by_handle := (fm_file_sizes_by_handle m)(h \<mapsto> length (c @ bs))\<rparr>)"
    using s size w by (simp add: append_to_file_def d)
  note upd = fm_inv_update_stream [OF assms(1) [unfolded d] s(1) os_write_spec(2,3) [OF w ok] c'
      os_write_spec(5) [OF w ok wf] os_write_spec(4,6) [OF w ok] refl]
  show ?thesis unfolding eq using upd by (simp add: d)
qed

interpretation fm: append_store fm_inv fm_content fm_writable append_to_file fm_frame
proof
  show "\<exists>c. fm_content d h = Some c" if a: "fm_inv d" and b: "fm_writable d h" for d h
  proof -
    obtain fs m s where d: "d = (fs, m)" "map_of (fm_open_files_by_handle m) h = Some s"
      using b by (auto simp: fm_writable_def simp del: map_of_eq_Some_iff split: prod.splits)
    with a show ?thesis by (metis fm_inv_open fm_inv_content)
  qed
qed (rule append_to_file_spec)

section \<open>Opening and creating\<close>

lemma fm_invI:
  assumes "fs_wf fs" "fs_is_directory fs (fm_base_path m)" "0 \<le> fm_next_file_handle m"
    "\<And>p h. fm_file_handles_by_rel_path m p = Some h \<longleftrightarrow> fm_rel_paths_by_handle m h = Some p"
    "\<And>h p. fm_rel_paths_by_handle m h = Some p \<Longrightarrow> p \<noteq> [] \<and> 0 \<le> h \<and> h < fm_next_file_handle m"
    "\<And>h. fm_file_sizes_by_handle m h = map_option length (fm_content (fs, m) h)"
    "\<And>h p. fm_rel_paths_by_handle m h = Some p \<Longrightarrow> fm_content (fs, m) h \<noteq> None"
    "distinct (map fst (fm_open_files_by_handle m))"
    "\<And>h s. map_of (fm_open_files_by_handle m) h = Some s \<Longrightarrow> os_ok s
        \<and> (\<exists>p. fm_rel_paths_by_handle m h = Some p \<and> os_path s = fm_base_path m @ p)"
  shows "fm_inv (fs, m)"
  using assms unfolding fm_inv_def prod.case by blast

lemma mk_manifest_spec:
  assumes wf: "fs_wf fs" and dir: "fs_is_directory fs base"
  shows "\<exists>m. mk_manifest fs base = Inr m \<and> fm_inv (fs, m) \<and> fm_base_path m = base
    \<and> \<not> fm_finished_sealed m \<and> fm_open_files_by_handle m = []
    \<and> (\<forall>p. fm_file_handles_by_rel_path m p \<noteq> None \<longleftrightarrow>
          p \<noteq> [] \<and> (\<exists>c. fs_node fs (base @ p) = Some (File c)))"
proof -
  let ?m0 = "\<lparr>fm_base_path = base, fm_next_file_handle = 0, fm_finished_sealed = False,
         fm_file_handles_by_rel_path = Map.empty, fm_rel_paths_by_handle = Map.empty,
         fm_file_sizes_by_handle = Map.empty, fm_open_files_by_handle = []\<rparr>"
  let ?xs = "fs_files_under fs base"
  define P where "P = (\<lambda>ys m. fm_base_path m = base \<and> \<not> fm_finished_sealed m
    \<and> fm_open_files_by_handle m = [] \<and> fm_next_file_handle m = int (length ys)
    \<and> (\<forall>h. fm_rel_paths_by_handle m h =
          (if 0 \<le> h \<and> nat h < length ys then Some (ys ! nat h) else None))
    \<and> (\<forall>p h. fm_file_handles_by_rel_path m p = Some h \<longleftrightarrow> fm_rel_paths_by_handle m h = Some p)
    \<and> (\<forall>h. fm_file_sizes_by_handle m h = map_option length (fm_content (fs, m) h)))"
  have files: "r \<noteq> []" "\<exists>c. fs_node fs (base @ r) = Some (File c)" if "r \<in> set ?xs" for r
    using that by (simp_all add: fs_files_under_iff [OF wf])
  have "\<exists>m. rfold (fm_register fs) ?m0 ?xs = Inr m \<and> P ?xs m"
  proof (rule rfold_invariant [where P = P])
    show "P [] ?m0" by (auto simp: P_def fm_content_def)
  next
    fix ys x zs m
    assume xs: "?xs = ys @ x # zs" and P: "P ys m"
    have base: "fm_base_path m = base" and next': "fm_next_file_handle m = int (length ys)"
      and op: "fm_open_files_by_handle m = []" "\<not> fm_finished_sealed m"
      and rel: "\<And>h. fm_rel_paths_by_handle m h = (if 0 \<le> h \<and> nat h < length ys then Some (ys ! nat h) else None)"
      and hs: "\<And>p h. fm_file_handles_by_rel_path m p = Some h \<longleftrightarrow> fm_rel_paths_by_handle m h = Some p"
      and sz: "\<And>h. fm_file_sizes_by_handle m h = map_option length (fm_content (fs, m) h)"
      using P by (simp_all add: P_def)
    obtain c where c: "fs_node fs (base @ x) = Some (File c)" using files [of x] xs by auto
    have x: "x \<notin> set ys" using fs_files_under_distinct [OF wf, of base] xs by auto
    define m' where "m' = m\<lparr>fm_next_file_handle := fm_next_file_handle m + 1,
      fm_file_handles_by_rel_path := (fm_file_handles_by_rel_path m)(x \<mapsto> fm_next_file_handle m),
      fm_file_sizes_by_handle := (fm_file_sizes_by_handle m)(fm_next_file_handle m \<mapsto> length c),
      fm_rel_paths_by_handle := (fm_rel_paths_by_handle m)(fm_next_file_handle m \<mapsto> x)\<rparr>"
    have step: "fm_register fs m x = Inr m'"
      by (simp add: fm_register_def fs_file_size_def base c m'_def Let_def)
    have "fm_content (fs, m') h = (if h = int (length ys) then Some c else fm_content (fs, m) h)" for h
      using c by (auto simp: fm_content_def m'_def next' base op split: option.split)
    then have "fm_file_sizes_by_handle m' h = map_option length (fm_content (fs, m') h)" for h
      by (simp add: m'_def next' sz)
    moreover have "fm_rel_paths_by_handle m' h =
        (if 0 \<le> h \<and> nat h < length (ys @ [x]) then Some ((ys @ [x]) ! nat h) else None)" for h
      by (auto simp: m'_def next' rel nth_append)
    moreover have "fm_file_handles_by_rel_path m' p = Some h \<longleftrightarrow> fm_rel_paths_by_handle m' h = Some p" for p h
      using x nth_mem [of "nat h" ys] by (auto simp: m'_def next' hs rel)
    ultimately have "P (ys @ [x]) m'"
      by (simp add: P_def) (simp add: m'_def base op next')
    with step show "\<exists>m'. fm_register fs m x = Inr m' \<and> P (ys @ [x]) m'" by blast
  qed
  then obtain m where m: "rfold (fm_register fs) ?m0 ?xs = Inr m" and P: "P ?xs m" by blast
  have rel: "fm_rel_paths_by_handle m h = Some p \<longleftrightarrow> 0 \<le> h \<and> nat h < length ?xs \<and> ?xs ! nat h = p" for h p
    using P by (auto simp: P_def)
  have mem: "p \<in> set ?xs" if "fm_rel_paths_by_handle m h = Some p" for h p
    using that by (auto simp: rel)
  have "fm_content (fs, m) h \<noteq> None" if "fm_rel_paths_by_handle m h = Some p" for h p
    using files(2) [OF mem [OF that]] P that by (auto simp: fm_content_def P_def)
  moreover have bound: "0 \<le> h \<and> h < fm_next_file_handle m" if "fm_rel_paths_by_handle m h = Some p" for h p
    using that P unfolding rel by (auto simp: P_def)
  ultimately have "fm_inv (fs, m)"
  proof (intro fm_invI)
    show "fm_file_handles_by_rel_path m p = Some h \<longleftrightarrow> fm_rel_paths_by_handle m h = Some p" for p h
      using P by (simp add: P_def)
    show "p \<noteq> [] \<and> 0 \<le> h \<and> h < fm_next_file_handle m" if "fm_rel_paths_by_handle m h = Some p" for h p
      using files(1) [OF mem [OF that]] bound [OF that] by simp
    show "fm_file_sizes_by_handle m h = map_option length (fm_content (fs, m) h)" for h
      using P by (simp add: P_def)
    show "fs_wf fs" "fs_is_directory fs (fm_base_path m)" "0 \<le> fm_next_file_handle m"
      "distinct (map fst (fm_open_files_by_handle m))"
      using P wf dir by (simp_all add: P_def)
    show "os_ok s \<and> (\<exists>p. fm_rel_paths_by_handle m h = Some p \<and> os_path s = fm_base_path m @ p)"
      if "map_of (fm_open_files_by_handle m) h = Some s" for h s
      using P that by (simp add: P_def)
  qed blast
  moreover have "fm_file_handles_by_rel_path m p \<noteq> None \<longleftrightarrow> p \<in> set ?xs" for p
  proof
    assume "fm_file_handles_by_rel_path m p \<noteq> None"
    then obtain h where "fm_file_handles_by_rel_path m p = Some h" by auto
    then have "fm_rel_paths_by_handle m h = Some p" using P by (simp add: P_def)
    then show "p \<in> set ?xs" by (rule mem)
  next
    assume "p \<in> set ?xs"
    then obtain i where "i < length ?xs" "?xs ! i = p" by (auto simp: in_set_conv_nth)
    then have "fm_rel_paths_by_handle m (int i) = Some p" by (simp add: rel)
    then have "fm_file_handles_by_rel_path m p = Some (int i)" using P by (simp add: P_def)
    then show "fm_file_handles_by_rel_path m p \<noteq> None" by simp
  qed
  ultimately show ?thesis
    using m P wf dir
    by (auto simp: mk_manifest_def fs_files_under_iff P_def fs_exists_def fs_is_directory_def)
qed

lemma create_new_file_spec:
  assumes inv: "fm_inv (fs, m)" and unsealed: "\<not> fm_finished_sealed m" and rel: "rel \<noteq> []"
    and fresh: "fs_node fs (fm_base_path m @ rel) = None"
    and dirs: "\<And>q c. prefix q (butlast rel) \<Longrightarrow> fs_node fs (fm_base_path m @ q) \<noteq> Some (File c)"
  shows "\<exists>fs' m'. create_new_file (fs, m) rel = Inr ((fs', m'), fm_next_file_handle m)
    \<and> fm_inv (fs', m') \<and> fm_base_path m' = fm_base_path m
    \<and> fm_next_file_handle m' = fm_next_file_handle m + 1 \<and> \<not> fm_finished_sealed m'
    \<and> fm_rel_paths_by_handle m' = (fm_rel_paths_by_handle m)(fm_next_file_handle m \<mapsto> rel)
    \<and> (\<forall>k. fm_content (fs', m') k = (if k = fm_next_file_handle m then Some [] else fm_content (fs, m) k))
    \<and> (\<forall>k. fm_writable (fs', m') k \<longleftrightarrow> k = fm_next_file_handle m \<or> fm_writable (fs, m) k)
    \<and> (\<forall>q. fs_node fs' q = (if q = fm_base_path m @ rel then Some (File [])
          else if prefix q (fm_base_path m @ butlast rel) then Some Dir else fs_node fs q))"
proof -
  let ?h = "fm_next_file_handle m" and ?p = "fm_base_path m @ rel"
  have wf: "fs_wf fs" and dir: "fs_is_directory fs (fm_base_path m)" using inv by (auto simp: fm_inv_def)
  have par: "butlast ?p = fm_base_path m @ butlast rel" using rel by (simp add: butlast_append)
  have nofile: "fs_node fs q \<noteq> Some (File c)" if "prefix q (butlast ?p)" for q c
  proof -
    consider q' where "q = fm_base_path m @ q'" "prefix q' (butlast rel)" | "prefix q (fm_base_path m)"
      using \<open>prefix q (butlast ?p)\<close> unfolding par prefix_append by blast
    then show ?thesis
    proof cases
      case 1
      then show ?thesis using dirs by simp
    next
      case 2
      then obtain r where "fm_base_path m = q @ r" by (auto elim: prefixE)
      then show ?thesis using fs_wf_node_parent [OF wf, of q r] dir
        by (cases "r = []") (auto simp: fs_is_directory_def)
    qed
  qed
  obtain fs1 where fs1: "fs_create_directories fs (butlast ?p) = Inr fs1" "fs_wf fs1"
    "\<And>q. fs_node fs1 q = (if prefix q (butlast ?p) then Some Dir else fs_node fs q)"
    using fs_create_directories_spec [OF wf nofile] by blast
  obtain fs2 s where o: "os_open_app fs1 ?p = (fs2, s)" by force
  have npre: "\<not> prefix ?p (butlast ?p)" using rel prefix_length_le [of ?p "butlast ?p"] by (cases rel) auto
  have ok: "os_ok s" "os_content fs2 s = Some []"
    using fs1(3) fresh npre by (auto simp: fs_is_directory_def intro!: os_open_app_content [OF o])
  note s = os_open_app_spec [OF o]
  define m' where "m' = m\<lparr>fm_next_file_handle := ?h + 1,
      fm_file_handles_by_rel_path := (fm_file_handles_by_rel_path m)(rel \<mapsto> ?h),
      fm_rel_paths_by_handle := (fm_rel_paths_by_handle m)(?h \<mapsto> rel),
      fm_file_sizes_by_handle := (fm_file_sizes_by_handle m)(?h \<mapsto> 0),
      fm_open_files_by_handle := AList.update ?h s (fm_open_files_by_handle m)\<rparr>"
  have eq: "create_new_file (fs, m) rel = Inr ((fs2, m'), ?h)"
    using unsealed fresh fs1(1) o by (simp add: create_new_file_def fs_exists_def m'_def Let_def)
  have node_p: "fs_node fs2 ?p = Some (File [])"
    using ok(2) s(1,2) by (auto simp: os_content_def split: option.splits node.splits)
  have node: "fs_node fs2 q = (if q = ?p then Some (File [])
          else if prefix q (butlast ?p) then Some Dir else fs_node fs q)" for q
    using node_p s(3) [of q] fs1(3) [of q] by auto
  have f: "fm_base_path m' = fm_base_path m" "fm_next_file_handle m' = ?h + 1"
    "fm_file_handles_by_rel_path m' = (fm_file_handles_by_rel_path m)(rel \<mapsto> ?h)"
    "fm_rel_paths_by_handle m' = (fm_rel_paths_by_handle m)(?h \<mapsto> rel)"
    "fm_file_sizes_by_handle m' = (fm_file_sizes_by_handle m)(?h \<mapsto> 0)"
    "map_of (fm_open_files_by_handle m') = (map_of (fm_open_files_by_handle m))(?h \<mapsto> s)"
    "distinct (map fst (fm_open_files_by_handle m)) \<Longrightarrow> distinct (map fst (fm_open_files_by_handle m'))"
    "fm_finished_sealed m' = fm_finished_sealed m"
    by (simp_all add: m'_def distinct_update update_conv')
  have old: "fs_node fs2 (fm_base_path m @ q) = fs_node fs (fm_base_path m @ q)"
    if k: "fm_rel_paths_by_handle m k = Some q" for k q
  proof -
    obtain c where "fm_content (fs, m) k = Some c" by (rule fm_inv_content [OF inv k])
    then obtain c where "fs_node fs (fm_base_path m @ q) = Some (File c)"
      by (auto simp: fm_content_def k split: option.splits node.splits)
    then show ?thesis using node [of "fm_base_path m @ q"] nofile fresh by auto
  qed
  have hfresh: "k \<noteq> ?h" if "fm_rel_paths_by_handle m k = Some q" for k q
    using inv that unfolding fm_inv_def prod.case by fastforce
  have content: "fm_content (fs2, m') k = (if k = ?h then Some [] else fm_content (fs, m) k)" for k
    using node_p s(2) old [of k]
    by (cases "k = ?h") (auto simp: fm_content_def f split: option.split)
  have relfresh: "q \<noteq> rel" if k: "fm_rel_paths_by_handle m k = Some q" for k q
  proof -
    obtain c where "fm_content (fs, m) k = Some c" by (rule fm_inv_content [OF inv k])
    then show ?thesis using fresh by (auto simp: fm_content_def k)
  qed
  have handles: "fm_file_handles_by_rel_path m' p = Some h \<longleftrightarrow> fm_rel_paths_by_handle m' h = Some p" for p h
  proof -
    have "fm_file_handles_by_rel_path m p = Some h \<longleftrightarrow> fm_rel_paths_by_handle m h = Some p"
      using inv by (simp add: fm_inv_def)
    then show ?thesis using hfresh [of h p] relfresh [of h p] by (auto simp: f)
  qed
  have old_inv: "0 \<le> ?h" "\<And>k. fm_file_sizes_by_handle m k = map_option length (fm_content (fs, m) k)"
    "distinct (map fst (fm_open_files_by_handle m))"
    using inv by (simp_all add: fm_inv_def)
  have "fm_inv (fs2, m')"
  proof (rule fm_invI)
    show "fs_wf fs2" using s(4) fs1(2) by simp
    show "fs_is_directory fs2 (fm_base_path m')"
      using node [of "fm_base_path m"] rel by (simp add: f fs_is_directory_def butlast_append)
    show "0 \<le> fm_next_file_handle m'" using old_inv by (simp add: f)
    show "fm_file_sizes_by_handle m' k = map_option length (fm_content (fs2, m') k)" for k
      by (simp add: content f old_inv)
    show "distinct (map fst (fm_open_files_by_handle m'))" using old_inv f(7) by simp
    show "q \<noteq> [] \<and> 0 \<le> k \<and> k < fm_next_file_handle m'" if "fm_rel_paths_by_handle m' k = Some q" for k q
    proof (cases "k = ?h")
      case True
      then show ?thesis using that old_inv(1) rel by (simp add: f)
    next
      case False
      then have "fm_rel_paths_by_handle m k = Some q" using that by (simp add: f)
      then have "q \<noteq> [] \<and> 0 \<le> k \<and> k < ?h" using inv unfolding fm_inv_def prod.case by blast
      then show ?thesis by (simp add: f)
    qed
    show "fm_content (fs2, m') k \<noteq> None" if "fm_rel_paths_by_handle m' k = Some q" for k q
    proof (cases "k = ?h")
      case False
      then have "fm_rel_paths_by_handle m k = Some q" using that by (simp add: f)
      then show ?thesis using fm_inv_content [OF inv, of k q] False by (auto simp: content)
    qed (simp add: content)
    show "os_ok s' \<and> (\<exists>p. fm_rel_paths_by_handle m' k = Some p \<and> os_path s' = fm_base_path m' @ p)"
      if "map_of (fm_open_files_by_handle m') k = Some s'" for k s'
    proof (cases "k = ?h")
      case True
      then have "s' = s" using that f(6) by simp
      then show ?thesis using True ok(1) s(1) by (simp add: f)
    next
      case False
      then have "map_of (fm_open_files_by_handle m) k = Some s'" using that f(6) by simp
      then show ?thesis using False by (auto simp: f elim!: fm_inv_open [OF inv])
    qed
  qed (rule handles)
  moreover have "fm_writable (fs2, m') k \<longleftrightarrow> k = ?h \<or> fm_writable (fs, m) k" for k
    unfolding fm_writable_def prod.case f(6) using unsealed by (simp add: f(8))
  ultimately show ?thesis unfolding eq using unsealed content node f(1,2,4,8) par by auto
qed

section \<open>Closing, flushing and sealing\<close>

lemma close_file_spec:
  assumes inv: "fm_inv d" and c: "fm_content d h = Some c"
  shows "fm_inv (close_file d h)" "fm_frame (close_file d h) = fm_frame d"
    "fm_content (close_file d h) k = fm_content d k"
    "fm_writable (close_file d h) k \<longleftrightarrow> fm_writable d k \<and> k \<noteq> h"
    "fm_rel_paths_by_handle (snd d) h = Some p \<Longrightarrow>
      fs_node (fst (close_file d h)) (fm_base_path (snd d) @ p) = Some (File c)"
proof -
  obtain fs m where d: "d = (fs, m)" by force
  have "fm_inv (close_file d h) \<and> fm_frame (close_file d h) = fm_frame d
    \<and> (\<forall>k. fm_content (close_file d h) k = fm_content d k)
    \<and> (\<forall>k. fm_writable (close_file d h) k \<longleftrightarrow> fm_writable d k \<and> k \<noteq> h)
    \<and> (\<forall>p. fm_rel_paths_by_handle (snd d) h = Some p \<longrightarrow>
      fs_node (fst (close_file d h)) (fm_base_path (snd d) @ p) = Some (File c))"
  proof (cases "map_of (fm_open_files_by_handle m) h")
    case None
    have "close_file d h = (fs, m)" by (simp add: close_file_def d None)
    then show ?thesis using inv c None
      by (auto simp: d fm_writable_def fm_content_def split: option.splits node.splits)
  next
    case (Some s)
    obtain fs' s' where fl: "os_flush fs s = (fs', s')" by force
    obtain p where p: "os_ok s" "fm_rel_paths_by_handle m h = Some p" "os_path s = fm_base_path m @ p"
      using inv Some unfolding d by (rule fm_inv_open)
    have wf: "fs_wf fs" and size: "fm_file_sizes_by_handle m h = Some (length c)"
      and dist: "distinct (map fst (fm_open_files_by_handle m))"
      using inv c by (auto simp: d fm_inv_def)
    have oc: "os_content fs s = Some c" using fm_content_os_content [of fs m h s] inv Some c by (simp add: d)
    define m1 where "m1 = m\<lparr>fm_open_files_by_handle := AList.update h s' (fm_open_files_by_handle m),
      fm_file_sizes_by_handle := (fm_file_sizes_by_handle m)(h \<mapsto> length c)\<rparr>"
    note fs' = os_flush_spec [OF fl]
    have oc': "os_content fs' s' = Some c" using fs'(1) oc by simp
    have upd: "fm_inv (fs', m1)" "fm_frame (fs', m1) = fm_frame (fs, m)"
      "fm_content (fs', m1) k = (if k = h then Some c else fm_content (fs, m) k)" for k
      using fm_inv_update_stream [OF inv [unfolded d] Some fs'(3) _ oc' fs'(6) [OF wf] fs'(5,7) m1_def]
        fs'(4) p(1) by blast+
    define m2 where "m2 = m\<lparr>fm_open_files_by_handle := AList.delete h (fm_open_files_by_handle m)\<rparr>"
    have eq: "close_file d h = (fs', m2)" using fl Some by (simp add: close_file_def d m2_def)
    have f: "fm_base_path m2 = fm_base_path m1" "fm_next_file_handle m2 = fm_next_file_handle m1"
      "fm_file_handles_by_rel_path m2 = fm_file_handles_by_rel_path m1"
      "fm_rel_paths_by_handle m2 = fm_rel_paths_by_handle m1"
      "fm_file_sizes_by_handle m2 = fm_file_sizes_by_handle m1"
      "map_of (fm_open_files_by_handle m2) = (map_of (fm_open_files_by_handle m1))(h := None)"
      "distinct (map fst (fm_open_files_by_handle m2))" "fm_finished_sealed m2 = fm_finished_sealed m1"
      using size dist by (auto simp: m1_def m2_def delete_conv' update_conv' distinct_delete)
    have pend: "map_of (fm_open_files_by_handle m1) h = Some s'" "os_pending s' = []"
      using fs'(2) by (simp_all add: m1_def update_conv')
    have content: "fm_content (fs', m2) k = fm_content (fs', m1) k" for k
      using pend unfolding fm_content_def prod.case f by (simp split: option.split node.split)
    have inv2: "fm_inv (fs', m2)"
    proof (rule fm_invI)
      show "os_ok s \<and> (\<exists>p. fm_rel_paths_by_handle m2 k = Some p \<and> os_path s = fm_base_path m2 @ p)"
        if "map_of (fm_open_files_by_handle m2) k = Some s" for k s
        using that unfolding f by (auto elim!: fm_inv_open [OF upd(1)] split: if_splits)
      show "fm_content (fs', m2) k \<noteq> None" if "fm_rel_paths_by_handle m2 k = Some q" for k q
        using that fm_inv_content [OF upd(1), of k q] unfolding f content by blast
      show "q \<noteq> [] \<and> 0 \<le> k \<and> k < fm_next_file_handle m2" if "fm_rel_paths_by_handle m2 k = Some q" for k q
        using that upd(1) unfolding f fm_inv_def prod.case by blast
    qed (use upd(1) f(7) in \<open>simp_all add: fm_inv_def f(1-5) content\<close>)
    have "fm_frame (fs', m2) = fm_frame (fs', m1)"
      unfolding fm_frame_def prod.case fm_known_def f(1,4) by (simp add: m1_def m2_def)
    moreover have "fs_node fs' (fm_base_path m @ p) = Some (File c)"
      using oc' fs'(2,3) p(3) by (auto simp: os_content_def split: option.splits node.splits)
    moreover have "fm_writable (fs', m2) k \<longleftrightarrow> fm_writable (fs, m) k \<and> k \<noteq> h" for k
      using Some by (auto simp: fm_writable_def m2_def delete_conv' simp del: map_of_eq_Some_iff)
    ultimately show ?thesis unfolding eq using inv2 upd(2,3) c p(2) by (simp add: d content)
  qed
  then show "fm_inv (close_file d h)" "fm_frame (close_file d h) = fm_frame d"
    "fm_content (close_file d h) k = fm_content d k"
    "fm_writable (close_file d h) k \<longleftrightarrow> fm_writable d k \<and> k \<noteq> h"
    "fm_rel_paths_by_handle (snd d) h = Some p \<Longrightarrow>
      fs_node (fst (close_file d h)) (fm_base_path (snd d) @ p) = Some (File c)"
    by blast+
qed

lemma flush_streams_spec:
  "flush_streams fs ss = (fs', ss') \<Longrightarrow> distinct (map (os_path \<circ> snd) ss) \<Longrightarrow>
    ss' = map (\<lambda>(h, s). (h, s\<lparr>os_pending := []\<rparr>)) ss
    \<and> (fs_wf fs \<longrightarrow> fs_wf fs') \<and> (\<forall>d. fs_is_directory fs' d = fs_is_directory fs d)
    \<and> (\<forall>q. q \<notin> (os_path \<circ> snd) ` set ss \<longrightarrow> fs_node fs' q = fs_node fs q)
    \<and> (\<forall>x \<in> set ss. \<forall>c. fs_node fs (os_path (snd x)) = Some (File c) \<longrightarrow>
        fs_node fs' (os_path (snd x)) = Some (File (c @ os_pending (snd x))))"
proof (induction ss arbitrary: fs fs' ss')
  case Nil
  then show ?case by simp
next
  case (Cons x ss)
  obtain k t where x: "x = (k, t)" by force
  obtain fs1 t1 where o: "os_flush fs t = (fs1, t1)" by force
  obtain ss1 where f: "flush_streams fs1 ss = (fs', ss1)" "ss' = (k, t1) # ss1"
    using Cons.prems(1) o by (auto simp: x split: prod.splits)
  have dist: "distinct (map (os_path \<circ> snd) ss)" "os_path t \<notin> (os_path \<circ> snd) ` set ss"
    using Cons.prems(2) by (simp_all add: x comp_def)
  have IH: "ss1 = map (\<lambda>(h, s). (h, s\<lparr>os_pending := []\<rparr>)) ss" "fs_wf fs1 \<Longrightarrow> fs_wf fs'"
    "fs_is_directory fs' d = fs_is_directory fs1 d"
    "q \<notin> (os_path \<circ> snd) ` set ss \<Longrightarrow> fs_node fs' q = fs_node fs1 q"
    "y \<in> set ss \<Longrightarrow> fs_node fs1 (os_path (snd y)) = Some (File c) \<Longrightarrow>
      fs_node fs' (os_path (snd y)) = Some (File (c @ os_pending (snd y)))" for d q y c
    using Cons.IH [OF f(1) dist(1)] by auto
  have t1: "t1 = t\<lparr>os_pending := []\<rparr>" using o by (auto simp: os_flush_def)
  have mine: "fs_node fs' (os_path t) = Some (File (c @ os_pending t))"
    if "fs_node fs (os_path t) = Some (File c)" for c
  proof -
    have "fs_node fs1 (os_path t) = Some (File (c @ os_pending t))"
      using o that by (auto simp: os_flush_def fs_append_node)
    then show ?thesis using IH(4) [OF dist(2)] by simp
  qed
  have others: "fs_node fs' (os_path (snd y)) = Some (File (c @ os_pending (snd y)))"
    if "y \<in> set ss" "fs_node fs (os_path (snd y)) = Some (File c)" for y c
    using that dist(2) os_flush_spec(5) [OF o, of "os_path (snd y)"] by (intro IH(5)) force+
  show ?case
    using IH(1-4) t1 f(2) mine others os_flush_spec(5-7) [OF o] by (simp add: x)
qed

text \<open>After the streams are flushed every file on disk holds the content of its handle.\<close>

lemma fm_inv_open_paths_distinct:
  assumes inv: "fm_inv (fs, m)"
  shows "distinct (map (os_path \<circ> snd) (fm_open_files_by_handle m))"
proof -
  let ?ss = "fm_open_files_by_handle m"
  have dist: "distinct (map fst ?ss)" using inv by (simp add: fm_inv_def)
  have "inj_on (os_path \<circ> snd) (set ?ss)"
  proof (rule inj_onI)
    fix x y
    assume xy: "x \<in> set ?ss" "y \<in> set ?ss" "(os_path \<circ> snd) x = (os_path \<circ> snd) y"
    have mx: "map_of ?ss (fst x) = Some (snd x)" and my: "map_of ?ss (fst y) = Some (snd y)"
      using xy dist by simp_all
    obtain p where p: "fm_rel_paths_by_handle m (fst x) = Some p" "os_path (snd x) = fm_base_path m @ p"
      by (rule fm_inv_open [OF inv mx])
    obtain q where q: "fm_rel_paths_by_handle m (fst y) = Some q" "os_path (snd y) = fm_base_path m @ q"
      by (rule fm_inv_open [OF inv my])
    have "p = q" using xy(3) p q by simp
    then have "fst x = fst y" using fm_inv_rel_paths_inj [OF inv] p(1) q(1) by blast
    with mx my show "x = y" by (simp add: prod_eq_iff)
  qed
  moreover have "distinct ?ss" using dist by (simp add: distinct_map)
  ultimately show ?thesis by (simp add: distinct_map)
qed

lemma flush_spec:
  assumes inv: "fm_inv d"
  shows "fm_rel_paths_by_handle (snd d) h = Some p \<Longrightarrow> fm_content d h = Some c \<Longrightarrow>
      fs_node (fst (flush d)) (fm_base_path (snd d) @ p) = Some (File c)"
    "fs_wf (fst (flush d))" "fs_is_directory (fst (flush d)) q = fs_is_directory (fst d) q"
    "\<not> fm_known (snd d) q \<Longrightarrow> fs_node (fst (flush d)) q = fs_node (fst d) q"
    "\<exists>ss. snd (flush d) = snd d\<lparr>fm_open_files_by_handle := ss\<rparr>"
proof -
  obtain fs m where d: "d = (fs, m)" by force
  let ?ss = "fm_open_files_by_handle m"
  obtain fs' ss' where f: "flush_streams fs ?ss = (fs', ss')" by force
  note inv' = inv [unfolded d]
  note fl = flush_streams_spec [OF f fm_inv_open_paths_distinct [OF inv']]
  have eq: "flush d = (fs', m\<lparr>fm_open_files_by_handle := ss'\<rparr>)" by (simp add: flush_def d f)
  have dist: "distinct (map fst ?ss)" using inv' by (simp add: fm_inv_def)
  have paths: "\<exists>k. fm_rel_paths_by_handle m k = Some r \<and> map_of ?ss k = Some (snd x)"
    if x: "x \<in> set ?ss" and r: "os_path (snd x) = fm_base_path m @ r" for x r
  proof -
    have mx: "map_of ?ss (fst x) = Some (snd x)" using x dist by simp
    obtain q where "fm_rel_paths_by_handle m (fst x) = Some q" "os_path (snd x) = fm_base_path m @ q"
      by (rule fm_inv_open [OF inv' mx])
    with mx r show ?thesis by auto
  qed
  have known: "fm_known m (os_path (snd x))" if "x \<in> set ?ss" for x
  proof -
    have mx: "map_of ?ss (fst x) = Some (snd x)" using that dist by simp
    show ?thesis by (rule fm_inv_open [OF inv' mx]) (auto simp: fm_known_def)
  qed
  show "fs_node (fst (flush d)) (fm_base_path (snd d) @ p) = Some (File c)"
    if p: "fm_rel_paths_by_handle (snd d) h = Some p" and c: "fm_content d h = Some c"
  proof (cases "\<exists>x \<in> set ?ss. os_path (snd x) = fm_base_path m @ p")
    case True
    then obtain x where x: "x \<in> set ?ss" "os_path (snd x) = fm_base_path m @ p" by blast
    obtain k where "fm_rel_paths_by_handle m k = Some p" "map_of ?ss k = Some (snd x)"
      using paths [OF x] by blast
    moreover from this p have "k = h" using fm_inv_rel_paths_inj [OF inv'] by (auto simp: d)
    ultimately obtain c0 where "fs_node fs (fm_base_path m @ p) = Some (File c0)" "c = c0 @ os_pending (snd x)"
      using c by (auto simp: d fm_content_def split: option.splits node.splits)
    then show ?thesis using fl x unfolding eq by (auto simp: d)
  next
    case False
    then have "fm_base_path m @ p \<notin> (os_path \<circ> snd) ` set ?ss" by force
    then have same: "fs_node fs' (fm_base_path m @ p) = fs_node fs (fm_base_path m @ p)" using fl by blast
    have "map_of ?ss h = None"
    proof (rule ccontr)
      assume "map_of ?ss h \<noteq> None"
      then obtain s where s: "map_of ?ss h = Some s" by auto
      obtain q where "fm_rel_paths_by_handle m h = Some q" "os_path s = fm_base_path m @ q"
        by (rule fm_inv_open [OF inv' s])
      then show False using False p map_of_SomeD [OF s] by (force simp: d)
    qed
    then show ?thesis using c p same unfolding eq
      by (auto simp: d fm_content_def split: option.splits node.splits)
  qed
  show "fs_wf (fst (flush d))" using fl inv' unfolding eq by (simp add: fm_inv_def)
  show "fs_is_directory (fst (flush d)) q = fs_is_directory (fst d) q" using fl unfolding eq by (simp add: d)
  show "fs_node (fst (flush d)) q = fs_node (fst d) q" if "\<not> fm_known (snd d) q"
  proof -
    have "q \<notin> (os_path \<circ> snd) ` set ?ss" using known that by (auto simp: d)
    then show ?thesis using fl unfolding eq by (simp add: d)
  qed
  show "\<exists>ss. snd (flush d) = snd d\<lparr>fm_open_files_by_handle := ss\<rparr>" unfolding eq by (auto simp: d)
qed

lemma finish_and_seal_fst [simp]: "fst (finish_and_seal d) = fst (flush d)"
  by (simp add: finish_and_seal_def split: prod.split)

lemma open_file_spec:
  assumes inv: "fm_inv (fs, m)" and p: "fm_rel_paths_by_handle m h = Some p"
    and closed: "map_of (fm_open_files_by_handle m) h = None"
  shows "\<exists>s. open_file (fs, m) h =
      Inr (fs, m\<lparr>fm_open_files_by_handle := AList.update h s (fm_open_files_by_handle m)\<rparr>)
    \<and> fm_inv (fs, m\<lparr>fm_open_files_by_handle := AList.update h s (fm_open_files_by_handle m)\<rparr>)
    \<and> (\<forall>k. fm_content (fs, m\<lparr>fm_open_files_by_handle := AList.update h s (fm_open_files_by_handle m)\<rparr>) k
          = fm_content (fs, m) k)"
proof -
  obtain c where c: "fm_content (fs, m) h = Some c" "fm_file_sizes_by_handle m h = Some (length c)"
    by (rule fm_inv_content [OF inv p])
  then have node: "fs_node fs (fm_base_path m @ p) = Some (File c)"
    using p closed by (auto simp: fm_content_def split: option.splits node.splits)
  define s where "s = \<lparr>os_path = fm_base_path m @ p, os_pending = [], os_ok = True\<rparr>"
  define m' where "m' = m\<lparr>fm_open_files_by_handle := AList.update h s (fm_open_files_by_handle m)\<rparr>"
  have eq: "open_file (fs, m) h = Inr (fs, m')"
    using closed c(2) p node by (simp add: open_file_def os_open_app_def s_def m'_def)
  have f: "map_of (fm_open_files_by_handle m') = (map_of (fm_open_files_by_handle m))(h \<mapsto> s)"
    "fm_rel_paths_by_handle m' = fm_rel_paths_by_handle m" "fm_base_path m' = fm_base_path m"
    "fm_file_handles_by_rel_path m' = fm_file_handles_by_rel_path m"
    "fm_next_file_handle m' = fm_next_file_handle m"
    "fm_file_sizes_by_handle m' = fm_file_sizes_by_handle m"
    by (simp_all add: m'_def update_conv')
  have content: "fm_content (fs, m') k = fm_content (fs, m) k" for k
    using closed unfolding fm_content_def prod.case f by (simp add: s_def split: option.split node.split)
  have "fm_inv (fs, m')"
  proof (rule fm_invI)
    show "os_ok t \<and> (\<exists>p. fm_rel_paths_by_handle m' k = Some p \<and> os_path t = fm_base_path m' @ p)"
      if "map_of (fm_open_files_by_handle m') k = Some t" for k t
      using that p unfolding f by (auto simp: s_def split: if_splits elim!: fm_inv_open [OF inv])
    show "fm_content (fs, m') k \<noteq> None" if "fm_rel_paths_by_handle m' k = Some q" for k q
      using that fm_inv_content [OF inv, of k q] unfolding f content by blast
    show "q \<noteq> [] \<and> 0 \<le> k \<and> k < fm_next_file_handle m'" if "fm_rel_paths_by_handle m' k = Some q" for k q
      using that inv unfolding f fm_inv_def prod.case by blast
    show "distinct (map fst (fm_open_files_by_handle m'))"
      using inv by (simp add: m'_def fm_inv_def distinct_update)
  qed (use inv in \<open>simp_all add: fm_inv_def f(2-) content\<close>)
  with eq content show ?thesis unfolding m'_def by blast
qed

section \<open>Properties of the manifest\<close>

text \<open>C27: what is appended reaches the disk.  Any interleaved sequence of appends to open files
  succeeds; the size that the manifest then reports for a file is that of its old content
  followed by its own chunks in order, and after the manifest is destroyed the file on disk is
  exactly that.\<close>

theorem manifest_appends_reach_disk:
  assumes "fm_inv d" "\<forall>j \<in> set jobs. fm_writable d (fst j)"
    and "fm_rel_paths_by_handle (snd d) h = Some p" "fm_content d h = Some c"
  shows "\<exists>d'. rfold (\<lambda>d j. append_to_file d (fst j) (snd j)) d jobs = Inr d'
    \<and> get_file_size (snd d') h = Inr (length (c @ chunks_for h jobs))
    \<and> fs_node (destroy_manifest d') (fm_base_path (snd d) @ p) = Some (File (c @ chunks_for h jobs))"
proof -
  obtain d' where d': "rfold (\<lambda>d j. append_to_file d (fst j) (snd j)) d jobs = Inr d'" "fm_inv d'"
    "fm_frame d' = fm_frame d" "\<forall>k. fm_content d' k = map_option (\<lambda>c. c @ chunks_for k jobs) (fm_content d k)"
    using fm.append_all [OF assms(1,2)] by blast
  have same: "fm_rel_paths_by_handle (snd d') = fm_rel_paths_by_handle (snd d)"
    "fm_base_path (snd d') = fm_base_path (snd d)"
    using arg_cong [OF d'(3), of "\<lambda>x. fm_rel_paths_by_handle (fst x)"]
      arg_cong [OF d'(3), of "\<lambda>x. fm_base_path (fst x)"]
    by (simp_all add: fm_frame_def split: prod.splits)
  have c': "fm_content d' h = Some (c @ chunks_for h jobs)" using d'(4) assms(4) by simp
  have "get_file_size (snd d') h = Inr (length (c @ chunks_for h jobs))"
    using d'(2) c' by (auto simp: get_file_size_def fm_inv_def split: prod.splits)
  moreover have "fs_node (destroy_manifest d') (fm_base_path (snd d) @ p) = Some (File (c @ chunks_for h jobs))"
    using flush_spec(1) [OF d'(2) _ c', of p] assms(3) by (simp add: same destroy_manifest_def)
  ultimately show ?thesis using d'(1) by blast
qed

definition two_file_disk :: disk where
  "two_file_disk = (case mk_manifest [([''d''], Dir)] [''d''] of Inr m \<Rightarrow>
     (case create_new_file ([([''d''], Dir)], m) [''a''] of Inr (d, _) \<Rightarrow>
        (case create_new_file d [''s'', ''b''] of Inr (d', _) \<Rightarrow> d')))"

lemma two_file_disk:
  "fm_inv two_file_disk" "fm_writable two_file_disk 0" "fm_writable two_file_disk 1"
  "fm_content two_file_disk 1 = Some []"
  "fm_rel_paths_by_handle (snd two_file_disk) 1 = Some [''s'', ''b'']"
  "fm_base_path (snd two_file_disk) = [''d'']"
proof -
  let ?fs = "[([''d''], Dir)]"
  have wf: "fs_wf ?fs" "fs_is_directory ?fs [''d'']"
    by (auto simp: fs_wf_def fs_is_directory_def fs_node_def)
  obtain m where m: "mk_manifest ?fs [''d''] = Inr m" "fm_inv (?fs, m)" "fm_base_path m = [''d'']"
    "\<not> fm_finished_sealed m" using mk_manifest_spec [OF wf] by blast
  have m0: "fm_next_file_handle m = 0"
    using m(1) by (auto simp: mk_manifest_def fs_exists_def fs_is_directory_def fs_node_def
        fs_files_under_def split: if_splits)
  obtain fs1 m1 where c1: "create_new_file (?fs, m) [''a''] = Inr ((fs1, m1), 0)" "fm_inv (fs1, m1)"
    "fm_base_path m1 = [''d'']" "fm_next_file_handle m1 = 1" "\<not> fm_finished_sealed m1"
    "\<forall>k. fm_writable (fs1, m1) k \<longleftrightarrow> k = 0 \<or> fm_writable (?fs, m) k"
    "\<forall>q. fs_node fs1 q = (if q = [''d'', ''a''] then Some (File [])
          else if prefix q [''d''] then Some Dir else fs_node ?fs q)"
    using create_new_file_spec [OF m(2,4), of "[''a'']"] by (auto simp: m(3) m0 fs_node_def)
  have node1: "fs_node fs1 q = (if q = [''d'', ''a''] then Some (File [])
      else if q = [] \<or> q = [''d''] then Some Dir else None)" for q
    using c1(7) by (auto simp: fs_node_def [of ?fs] prefix_Cons)
  have fresh: "fs_node fs1 (fm_base_path m1 @ [''s'', ''b'']) = None" by (simp add: c1(3) node1)
  have dirs: "fs_node fs1 (fm_base_path m1 @ q) \<noteq> Some (File c)" if "prefix q (butlast [''s'', ''b''])" for q c
    using that by (auto simp: c1(3) node1 prefix_Cons)
  obtain fs2 m2 where "create_new_file (fs1, m1) [''s'', ''b''] = Inr ((fs2, m2), 1)" "fm_inv (fs2, m2)"
    "fm_base_path m2 = [''d'']" "fm_rel_paths_by_handle m2 = (fm_rel_paths_by_handle m1)(1 \<mapsto> [''s'', ''b''])"
    "fm_content (fs2, m2) 1 = Some []"
    "\<forall>k. fm_writable (fs2, m2) k \<longleftrightarrow> k = 1 \<or> fm_writable (fs1, m1) k"
    using create_new_file_spec [OF c1(2,5) _ fresh dirs] by (auto simp: c1(3,4))
  then show "fm_inv two_file_disk" "fm_writable two_file_disk 0" "fm_writable two_file_disk 1"
    "fm_content two_file_disk 1 = Some []"
    "fm_rel_paths_by_handle (snd two_file_disk) 1 = Some [''s'', ''b'']"
    "fm_base_path (snd two_file_disk) = [''d'']"
    using m(1) c1(1,6) by (simp_all add: two_file_disk_def)
qed

lemma manifest_appends_reach_disk_witness:
  "\<exists>d'. rfold (\<lambda>d j. append_to_file d (fst j) (snd j)) two_file_disk [(1, [1, 2]), (0, [9]), (1, [3])] = Inr d'
    \<and> fs_node (destroy_manifest d') [''d'', ''s'', ''b''] = Some (File [1, 2, 3])"
  using manifest_appends_reach_disk [of two_file_disk "[(1, [1, 2]), (0, [9]), (1, [3])]" 1 "[''s'', ''b'']" "[]"]
    two_file_disk by (auto simp: chunks_for_def)

text \<open>A manifest that was just constructed over an existing folder knows every file in it but
  can write to none: every append through one of its handles throws, until \<open>open_file\<close> has been
  called for the handle, after which it extends the file.\<close>

theorem handle_must_be_opened:
  assumes "fs_wf fs" "fs_is_directory fs base" "fs_node fs (base @ p) = Some (File c)" "p \<noteq> []"
  shows "\<exists>m h. mk_manifest fs base = Inr m \<and> get_file_handle m p = h \<and> h \<noteq> InvalidFileHandle
    \<and> get_file_size m h = Inr (length c)
    \<and> append_to_file (fs, m) h bs = Inl (Runtime_Error ''append_to_file(): File is not open'')
    \<and> (\<exists>d1 d2. open_file (fs, m) h = Inr d1 \<and> append_to_file d1 h bs = Inr d2
          \<and> fs_node (destroy_manifest d2) (base @ p) = Some (File (c @ bs)))"
proof -
  obtain m where m: "mk_manifest fs base = Inr m" "fm_inv (fs, m)" "fm_base_path m = base"
    "\<not> fm_finished_sealed m" "fm_open_files_by_handle m = []"
    "fm_file_handles_by_rel_path m p \<noteq> None"
    using mk_manifest_spec [OF assms(1,2)] assms(3,4) by blast
  then obtain h where h: "fm_file_handles_by_rel_path m p = Some h" by auto
  then have rel: "fm_rel_paths_by_handle m h = Some p" using m(2) by (simp add: fm_inv_def)
  have "0 \<le> h" using m(2) rel unfolding fm_inv_def prod.case by blast
  then have valid: "get_file_handle m p = h" "h \<noteq> InvalidFileHandle"
    by (simp_all add: get_file_handle_def h InvalidFileHandle_def)
  have content: "fm_content (fs, m) h = Some c"
    using assms(3) by (simp add: fm_content_def rel m(3,5))
  then have size: "get_file_size m h = Inr (length c)"
    using m(2) by (auto simp: get_file_size_def fm_inv_def)
  have refused: "append_to_file (fs, m) h bs = Inl (Runtime_Error ''append_to_file(): File is not open'')"
    using m(4,5) by (simp add: append_to_file_def)
  obtain d1 where d1: "open_file (fs, m) h = Inr d1" "fm_inv d1" "fm_content d1 h = Some c"
    "fm_writable d1 h" "fm_rel_paths_by_handle (snd d1) h = Some p" "fm_base_path (snd d1) = base"
    using open_file_spec [OF m(2) rel] content m(3,4,5) rel by (auto simp: fm_writable_def)
  obtain d2 where d2: "append_to_file d1 h bs = Inr d2" "fm_inv d2" "fm_frame d2 = fm_frame d1"
    "fm_content d2 h = Some (c @ bs)"
    using append_to_file_spec [OF d1(2,4,3), of bs] by auto
  have "fm_rel_paths_by_handle (snd d2) h = Some p" "fm_base_path (snd d2) = base"
    using arg_cong [OF d2(3), of "\<lambda>x. fm_rel_paths_by_handle (fst x)"]
      arg_cong [OF d2(3), of "\<lambda>x. fm_base_path (fst x)"] d1(5,6)
    by (simp_all add: fm_frame_def split: prod.splits)
  then have "fs_node (destroy_manifest d2) (base @ p) = Some (File (c @ bs))"
    using flush_spec(1) [OF d2(2) _ d2(4), of p] by (simp add: destroy_manifest_def)
  with m(1) valid size refused d1(1) d2(1) show ?thesis by blast
qed

lemma handle_must_be_opened_witness:
  "\<exists>m. mk_manifest [([''d''], Dir), ([''d'', ''f''], File [7])] [''d''] = Inr m
    \<and> append_to_file ([([''d''], Dir), ([''d'', ''f''], File [7])], m) (get_file_handle m [''f'']) [1]
      = Inl (Runtime_Error ''append_to_file(): File is not open'')"
  using handle_must_be_opened [of "[([''d''], Dir), ([''d'', ''f''], File [7])]" "[''d'']" "[''f'']" "[7]" "[1]"]
  by (auto simp: fs_wf_def fs_is_directory_def fs_node_def)

lemma finish_and_seal_spec:
  assumes inv: "fm_inv d"
  shows "fm_inv (finish_and_seal d)" "fm_content (finish_and_seal d) h = fm_content d h"
    "snd (finish_and_seal d) = snd d\<lparr>fm_open_files_by_handle := [], fm_finished_sealed := True\<rparr>"
    "\<not> fm_writable (finish_and_seal d) h"
proof -
  obtain fs m where d: "d = (fs, m)" by force
  obtain ss fs' where fl: "flush d = (fs', m\<lparr>fm_open_files_by_handle := ss\<rparr>)"
    using flush_spec(5) [OF inv] by (cases "flush d") (auto simp: d)
  let ?m = "m\<lparr>fm_open_files_by_handle := [], fm_finished_sealed := True\<rparr>"
  have eq: "finish_and_seal d = (fs', ?m)" by (simp add: finish_and_seal_def fl)
  note fs' = flush_spec(1-4) [OF inv, unfolded d fl [unfolded d] fst_conv snd_conv]
  note inv' = inv [unfolded d]
  have content: "fm_content (fs', ?m) k = fm_content (fs, m) k" for k
  proof (cases "fm_rel_paths_by_handle m k")
    case None
    then show ?thesis by (simp add: fm_content_def)
  next
    case (Some p)
    obtain c where c: "fm_content (fs, m) k = Some c" by (rule fm_inv_content [OF inv' Some])
    show ?thesis using fs'(1) [OF Some c] Some
      by (simp add: c) (simp add: fm_content_def split: option.split node.split)
  qed
  have "fm_inv (fs', ?m)"
  proof (rule fm_invI)
    show "fm_content (fs', ?m) k \<noteq> None" if "fm_rel_paths_by_handle ?m k = Some q" for k q
      using that fm_inv_content [OF inv', of k q] unfolding content by fastforce
    show "q \<noteq> [] \<and> 0 \<le> k \<and> k < fm_next_file_handle ?m" if "fm_rel_paths_by_handle ?m k = Some q" for k q
      using that inv' unfolding fm_inv_def prod.case by fastforce
  qed (use inv' fs'(2,3) in \<open>simp_all add: fm_inv_def content [simplified]\<close>)
  then show "fm_inv (finish_and_seal d)" "fm_content (finish_and_seal d) h = fm_content d h"
    "snd (finish_and_seal d) = snd d\<lparr>fm_open_files_by_handle := [], fm_finished_sealed := True\<rparr>"
    "\<not> fm_writable (finish_and_seal d) h"
    unfolding eq using content by (simp_all add: d fm_writable_def)
qed

lemma fm_frame_snd:
  assumes "fm_frame d' = fm_frame d"
  shows "fm_rel_paths_by_handle (snd d') = fm_rel_paths_by_handle (snd d)"
    "fm_base_path (snd d') = fm_base_path (snd d)"
    "fm_finished_sealed (snd d') = fm_finished_sealed (snd d)"
    "fs_is_directory (fst d') = fs_is_directory (fst d)"
    "\<not> fm_known (snd d) q \<Longrightarrow> fs_node (fst d') q = fs_node (fst d) q"
proof -
  obtain fs m fs' m' where d: "d = (fs, m)" "d' = (fs', m')" by force
  have m: "m'\<lparr>fm_file_sizes_by_handle := Map.empty, fm_open_files_by_handle := []\<rparr>
      = m\<lparr>fm_file_sizes_by_handle := Map.empty, fm_open_files_by_handle := []\<rparr>"
    and nodes: "(\<lambda>q. if fm_known m' q then None else fs_node fs' q) = (\<lambda>q. if fm_known m q then None else fs_node fs q)"
    and dirs: "fs_is_directory fs' = fs_is_directory fs"
    using assms by (simp_all add: fm_frame_def d)
  show rel: "fm_rel_paths_by_handle (snd d') = fm_rel_paths_by_handle (snd d)"
    using arg_cong [OF m, of fm_rel_paths_by_handle] by (simp add: d)
  show base: "fm_base_path (snd d') = fm_base_path (snd d)"
    using arg_cong [OF m, of fm_base_path] by (simp add: d)
  show "fm_finished_sealed (snd d') = fm_finished_sealed (snd d)"
    using arg_cong [OF m, of fm_finished_sealed] by (simp add: d)
  show "fs_is_directory (fst d') = fs_is_directory (fst d)" using dirs by (simp add: d)
  show "fs_node (fst d') q = fs_node (fst d) q" if "\<not> fm_known (snd d) q"
  proof -
    have "fm_known m' = fm_known m" using rel base by (simp add: d fm_known_def fun_eq_iff)
    then show ?thesis using fun_cong [OF nodes, of q] that by (simp add: d)
  qed
qed

lemma fm_content_no_streams:
  "fm_content (fs, m) h = Some c \<Longrightarrow> fm_open_files_by_handle m = [] \<Longrightarrow>
   fm_rel_paths_by_handle m h = Some p \<Longrightarrow> fs_node fs (fm_base_path m @ p) = Some (File c)"
  by (auto simp: fm_content_def split: option.splits node.splits)

lemma close_and_seal_spec:
  assumes inv: "fm_inv d" and c: "fm_content d h = Some a" "fm_content d k = Some b"
  defines "d' \<equiv> finish_and_seal (close_file (close_file d h) k)"
  shows "fm_inv d'" "fm_content d' i = fm_content d i" "\<not> fm_writable d' i"
    "fm_open_files_by_handle (snd d') = []"
    "fm_rel_paths_by_handle (snd d') = fm_rel_paths_by_handle (snd d)"
    "fm_base_path (snd d') = fm_base_path (snd d)"
    "\<not> fm_known (snd d) q \<Longrightarrow> fs_node (fst d') q = fs_node (fst d) q"
    "fs_is_directory (fst d') q = fs_is_directory (fst d) q"
proof -
  note c1 = close_file_spec [OF inv c(1)]
  have "fm_content (close_file d h) k = Some b" using c1(3) c(2) by simp
  note c2 = close_file_spec [OF c1(1) this]
  have "fm_frame (close_file (close_file d h) k) = fm_frame d" using c1(2) c2(2) by simp
  note fr = fm_frame_snd [OF this]
  note seal = finish_and_seal_spec [OF c2(1)] and fl = flush_spec [OF c2(1)]
  show "fm_inv d'" "fm_content d' i = fm_content d i" "\<not> fm_writable d' i"
    "fm_open_files_by_handle (snd d') = []"
    "fm_rel_paths_by_handle (snd d') = fm_rel_paths_by_handle (snd d)"
    "fm_base_path (snd d') = fm_base_path (snd d)"
    using seal c1(3) c2(3) fr by (simp_all add: d'_def)
  show "fs_is_directory (fst d') q = fs_is_directory (fst d) q"
    using fl(3) fr(4) by (simp add: d'_def)
  show "fs_node (fst d') q = fs_node (fst d) q" if "\<not> fm_known (snd d) q"
  proof -
    have "\<not> fm_known (snd (close_file (close_file d h) k)) q" using that fr(1,2) by (simp add: fm_known_def)
    then show ?thesis using fl(4) [of q] fr(5) [OF that] by (simp add: d'_def)
  qed
qed

end
