(* ===== verification/Object_Folders.thy ===== *)
theory Object_Folders
  imports File_System
begin

text \<open>
  The object folders of a tier
  (\<^verbatim>\<open>libs/evolving_disk_state/include/evolving_disk_state/tier_folder.hpp\<close>): the name of the
  folder of a donut carries the offset of its first hash, and a tier finds its donuts again by
  parsing the names of the folders on disk.
\<close>

section \<open>Decimal numbers\<close>

text \<open>\<open>std::to_string\<close> on an unsigned number, and \<open>std::stoi\<close>, which skips white space, takes
  an optional sign and as many digits as there are, reports how many characters it used, and
  throws (\<open>None\<close>) without a digit or when the value does not fit a 32-bit \<open>int\<close>.\<close>

definition digit_char :: "nat \<Rightarrow> char" where
  "digit_char d = char_of (48 + d)"

fun to_string :: "nat \<Rightarrow> string" where
  "to_string n = (if n < 10 then [digit_char n] else to_string (n div 10) @ [digit_char (n mod 10)])"

declare to_string.simps [simp del]

definition is_space :: "char \<Rightarrow> bool" where
  "is_space c = (of_char c = (32 :: nat) \<or> 9 \<le> (of_char c :: nat) \<and> of_char c \<le> (13 :: nat))"

definition is_digit :: "char \<Rightarrow> bool" where
  "is_digit c = (48 \<le> (of_char c :: nat) \<and> of_char c \<le> (57 :: nat))"

fun parse_digits :: "nat \<Rightarrow> nat \<Rightarrow> string \<Rightarrow> nat \<times> nat" where
  "parse_digits acc k [] = (acc, k)"
| "parse_digits acc k (c # cs) =
     (if is_digit c then parse_digits (10 * acc + (of_char c - 48)) (k + 1) cs else (acc, k))"

definition stoi :: "string \<Rightarrow> (int \<times> nat) option" where
  "stoi s =
     (let ws = length (takeWhile is_space s);
          r = dropWhile is_space s;
          sgn = (if r \<noteq> [] \<and> (hd r = CHR ''+'' \<or> hd r = CHR ''-'') then 1 else 0);
          neg = (r \<noteq> [] \<and> hd r = CHR ''-'');
          (v, k) = parse_digits 0 0 (drop sgn r);
          n = (if neg then - int v else int v)
      in if k = 0 then None
         else if - (2 ^ 31) \<le> n \<and> n < 2 ^ 31 then Some (n, ws + sgn + k) else None)"

section \<open>Folder names\<close>

definition object_folder_prefix :: string where
  "object_folder_prefix = ''Offset_''"

definition object_folder_name :: "u64 \<Rightarrow> string" where
  "object_folder_name offset = object_folder_prefix @ to_string (unat offset)"

definition filename :: "path \<Rightarrow> string" where
  "filename p = (if p = [] then [] else last p)"

definition object_folder_single_offset :: "path \<Rightarrow> u64 res" where
  "object_folder_single_offset object_folder =
     (let dirName = filename object_folder in
      if prefix object_folder_prefix dirName
      then let numStr = drop (length object_folder_prefix) dirName in
           case stoi numStr of
             Some (n, pos) \<Rightarrow>
               if pos = length numStr then Inr (of_int n)
               else Inl (Runtime_Error ''object_folder_single_offset(): Invalid folder name format'')
           | None \<Rightarrow> Inl (Runtime_Error ''object_folder_single_offset(): Invalid folder name format'')
      else Inl (Runtime_Error ''object_folder_single_offset(): Invalid folder name format''))"

definition folder_offset_value :: "string \<Rightarrow> u64 list" where
  "folder_offset_value dirName =
     (if prefix object_folder_prefix dirName
      then let numStr = drop (length object_folder_prefix) dirName in
           case stoi numStr of
             Some (n, pos) \<Rightarrow> if pos = length numStr then [of_int n] else []
           | None \<Rightarrow> []
      else [])"

definition object_folder_offsets :: "fs \<Rightarrow> path \<Rightarrow> u64 list" where
  "object_folder_offsets fs basePath =
     (if \<not> fs_exists fs basePath \<or> \<not> fs_is_directory fs basePath then []
      else sort (concat (map (folder_offset_value \<circ> filename) (fs_subdirectories fs basePath))))"

section \<open>Parsing what was printed\<close>

lemma of_char_digit_char: "d < 10 \<Longrightarrow> (of_char (digit_char d) :: nat) = 48 + d"
  by (simp add: digit_char_def)

lemma parse_digits_append:
  "list_all is_digit xs \<Longrightarrow>
   parse_digits acc k (xs @ ys) = (case parse_digits acc k xs of (a, j) \<Rightarrow> parse_digits a j ys)"
  by (induction xs arbitrary: acc k) auto

lemma is_digit_digit_char: "d < 10 \<Longrightarrow> is_digit (digit_char d)"
  by (simp add: is_digit_def of_char_digit_char)

lemma to_string_digits: "list_all is_digit (to_string n) \<and> to_string n \<noteq> []"
proof (induction n rule: to_string.induct)
  case (1 n)
  then show ?case by (subst (1 2) to_string.simps) (auto simp: is_digit_digit_char)
qed

lemma parse_digits_to_string:
  "parse_digits 0 0 (to_string n) = (n, length (to_string n))"
proof (induction n rule: to_string.induct)
  case (1 n)
  show ?case
  proof (cases "n < 10")
    case True
    then show ?thesis
      by (subst (1 2) to_string.simps) (simp add: is_digit_def of_char_digit_char)
  next
    case False
    have d: "is_digit (digit_char (n mod 10))" "(of_char (digit_char (n mod 10)) :: nat) = 48 + n mod 10"
      by (simp_all add: is_digit_digit_char of_char_digit_char)
    show ?thesis using False 1
      by (subst (1 2) to_string.simps) (simp add: parse_digits_append to_string_digits d)
  qed
qed

lemma to_string_hd:
  "is_digit (hd (to_string n))"
  using to_string_digits [of n] by (cases "to_string n") auto

lemma stoi_to_string:
  "stoi (to_string n) = (if n < 2 ^ 31 then Some (int n, length (to_string n)) else None)"
proof -
  obtain c cs where s: "to_string n = c # cs" using to_string_digits by (cases "to_string n") auto
  have c: "is_digit c" using to_string_hd [of n] by (simp add: s)
  then have "\<not> is_space c" "c \<noteq> CHR ''+''" "c \<noteq> CHR ''-''" by (auto simp: is_digit_def is_space_def)
  then show ?thesis using parse_digits_to_string [of n] unfolding s
    by (auto simp: stoi_def Let_def)
qed

lemma folder_offset_value_name:
  "folder_offset_value (object_folder_name w) = (if unat w < 2 ^ 31 then [w] else [])"
  by (simp add: folder_offset_value_def object_folder_name_def stoi_to_string)

lemma fs_subdirectories_iff:
  "fs_wf fs \<Longrightarrow> p \<in> set (fs_subdirectories fs base) \<longleftrightarrow>
    p \<noteq> [] \<and> butlast p = base \<and> fs_is_directory fs p"
  by (force simp: fs_subdirectories_def fs_is_directory_def fs_node_def fs_wf_def)

lemma fs_subdirectories_distinct: "fs_wf fs \<Longrightarrow> distinct (fs_subdirectories fs base)"
  unfolding fs_subdirectories_def fs_wf_def by (simp add: distinct_map_filter)

lemma to_string_inject: "to_string m = to_string n \<longleftrightarrow> m = n"
  using parse_digits_to_string [of m] parse_digits_to_string [of n] by (metis prod.inject)

lemma object_folder_name_inject: "object_folder_name v = object_folder_name w \<longleftrightarrow> v = w"
  by (simp add: object_folder_name_def to_string_inject word_unat_eq_iff)

lemma object_folder_single_offset_name:
  "object_folder_single_offset (base @ [object_folder_name w]) =
    (if unat w < 2 ^ 31 then Inr w
     else Inl (Runtime_Error ''object_folder_single_offset(): Invalid folder name format''))"
  by (simp add: object_folder_single_offset_def filename_def object_folder_name_def stoi_to_string)

lemma object_folder_offsets_set:
  assumes "fs_wf fs" "fs_is_directory fs base"
    and "\<And>name. fs_is_directory fs (base @ [name]) \<Longrightarrow> prefix object_folder_prefix name \<Longrightarrow>
      \<exists>w. name = object_folder_name w"
  shows "set (object_folder_offsets fs base) =
      {w. fs_is_directory fs (base @ [object_folder_name w]) \<and> unat w < 2 ^ 31}
    \<and> sorted (object_folder_offsets fs base) \<and> distinct (object_folder_offsets fs base)"
proof -
  let ?f = "folder_offset_value \<circ> filename" and ?ds = "fs_subdirectories fs base"
  have eq: "object_folder_offsets fs base = sort (concat (map ?f ?ds))"
    using assms(2) by (simp add: object_folder_offsets_def fs_exists_def fs_is_directory_def)
  have ds: "\<exists>name. p = base @ [name] \<and> fs_is_directory fs p" if "p \<in> set ?ds" for p
    using that fs_subdirectories_iff [OF assms(1), of p base]
    by (cases p rule: rev_cases) auto
  have val: "?f p = [] \<or> (\<exists>w. p = base @ [object_folder_name w] \<and> ?f p = [w] \<and> unat w < 2 ^ 31)"
    if p: "p \<in> set ?ds" for p
  proof -
    obtain name where name: "p = base @ [name]" "fs_is_directory fs p" using ds [OF p] by blast
    show ?thesis
    proof (cases "prefix object_folder_prefix name")
      case True
      then obtain w where "name = object_folder_name w" using assms(3) name by blast
      then show ?thesis using name by (auto simp: filename_def folder_offset_value_name)
    next
      case False
      then show ?thesis using name by (simp add: filename_def folder_offset_value_def)
    qed
  qed
  have "set (concat (map ?f ?ds)) =
      {w. fs_is_directory fs (base @ [object_folder_name w]) \<and> unat w < 2 ^ 31}" (is "?A = ?B")
  proof
    show "?A \<subseteq> ?B"
    proof
      fix w
      assume "w \<in> ?A"
      then obtain p where p: "p \<in> set ?ds" "w \<in> set (?f p)" by auto
      then show "w \<in> ?B" using val [OF p(1)] ds [OF p(1)] by auto
    qed
    show "?B \<subseteq> ?A"
    proof
      fix w
      assume w: "w \<in> ?B"
      then have "base @ [object_folder_name w] \<in> set ?ds"
        by (simp add: fs_subdirectories_iff [OF assms(1)])
      moreover have "w \<in> set (?f (base @ [object_folder_name w]))"
        using w by (simp add: filename_def folder_offset_value_name)
      ultimately show "w \<in> ?A" by (simp only: set_concat set_map) blast
    qed
  qed
  moreover have "distinct (concat (map ?f ps))" if "distinct ps" "set ps \<subseteq> set ?ds" for ps
    using that
  proof (induction ps)
    case Nil
    then show ?case by simp
  next
    case (Cons p ps)
    have "w \<notin> set (concat (map ?f ps))" if w: "?f p = [w]" "p = base @ [object_folder_name w]" for w
    proof
      assume "w \<in> set (concat (map ?f ps))"
      then obtain q where q: "q \<in> set ps" "w \<in> set (?f q)" by auto
      then obtain v where "q = base @ [object_folder_name v]" "?f q = [v]"
        using val [of q] Cons.prems(2) by (metis empty_iff list.set_intros(2) list.set(1) subsetD)
      with q w have "q = p" by simp
      with q(1) Cons.prems(1) show False by simp
    qed
    then show ?case using Cons val [of p] by auto
  qed
  ultimately show ?thesis
    using fs_subdirectories_distinct [OF assms(1)] unfolding eq by simp
qed

section \<open>Properties of the folder names\<close>

text \<open>the name of an object folder determines its offset, as long as the offset is below
  \<open>2 ^ 31\<close>: parsing the name that was made for the offset gives the offset back.  From
  \<open>2 ^ 31\<close> on, which the global presentation indexes of type \<open>uint64_t\<close> allow, the name is
  rejected, because it is parsed by \<open>std::stoi\<close>.\<close>

theorem object_folder_name_roundtrip:
  "object_folder_single_offset (base @ [object_folder_name w]) =
    (if unat w < 2 ^ 31 then Inr w
     else Inl (Runtime_Error ''object_folder_single_offset(): Invalid folder name format''))"
  by (rule object_folder_single_offset_name)

text \<open>C37: a tier finds its donuts.  When every sub-folder whose name starts with the prefix was
  made by \<open>object_folder_name\<close>, the offsets found in a tier folder are, in strictly increasing
  order, exactly those of the sub-folders with an offset below \<open>2 ^ 31\<close>; folders with larger
  offsets are silently left out.\<close>

theorem object_folder_offsets_exact:
  assumes "fs_wf fs" "fs_is_directory fs base"
    and "\<And>name. fs_is_directory fs (base @ [name]) \<Longrightarrow> prefix object_folder_prefix name \<Longrightarrow>
      \<exists>w. name = object_folder_name w"
  shows "set (object_folder_offsets fs base) =
      {w. fs_is_directory fs (base @ [object_folder_name w]) \<and> unat w < 2 ^ 31}
    \<and> sorted (object_folder_offsets fs base) \<and> distinct (object_folder_offsets fs base)"
  by (rule object_folder_offsets_set [OF assms])

lemma object_folder_offsets_exact_witness:
  "set (object_folder_offsets [([''t''], Dir), ([''t'', ''Offset_7''], Dir), ([''t'', ''Offset_0''], Dir)] [''t'']) = {0, 7}
   \<and> sorted (object_folder_offsets [([''t''], Dir), ([''t'', ''Offset_7''], Dir), ([''t'', ''Offset_0''], Dir)] [''t''])"
proof -
  let ?fs = "[([''t''], Dir), ([''t'', ''Offset_7''], Dir), ([''t'', ''Offset_0''], Dir)]"
  have names: "object_folder_name 0 = ''Offset_0''" "object_folder_name 7 = ''Offset_7''"
    by code_simp+
  have dir: "fs_is_directory ?fs ([''t''] @ [n]) \<longleftrightarrow> n = object_folder_name 0 \<or> n = object_folder_name 7" for n
    unfolding names by (simp add: fs_is_directory_def fs_node_def)
  have wf: "fs_wf ?fs" by (simp add: fs_wf_def fs_is_directory_def fs_node_def)
  have base: "fs_is_directory ?fs [''t'']" by (simp add: fs_is_directory_def fs_node_def)
  have made: "\<exists>w. name = object_folder_name w" if "fs_is_directory ?fs ([''t''] @ [name])" for name
    using that unfolding dir by blast
  have "set (object_folder_offsets ?fs [''t'']) =
      {w. fs_is_directory ?fs ([''t''] @ [object_folder_name w]) \<and> unat w < 2 ^ 31}
    \<and> sorted (object_folder_offsets ?fs [''t'']) \<and> distinct (object_folder_offsets ?fs [''t''])"
    by (rule object_folder_offsets_exact [OF wf base made])
  moreover have "{w. fs_is_directory ?fs ([''t''] @ [object_folder_name w]) \<and> unat w < 2 ^ 31} = {0, 7}"
    unfolding dir object_folder_name_inject by auto
  ultimately show ?thesis by simp
qed

end
