(* ===== verification/Lookup.thy ===== *)
theory Lookup
  imports Pi_Types
begin

text \<open>
  \<^verbatim>\<open>apps/wedding_cake/include/concepts_lookup.hpp\<close>: the contract of everything that can be
  searched.  A container covers the global presentation indexes from its first offset up to,
  but excluding, its next offset; a forward lookup maps an index in that range to the (possibly
  absent) hash presented at it, a reverse lookup maps a hash to an index at which it was
  presented.  The C++ concepts only fix the signatures; the locales below state the laws that
  their clients rely on, over an abstract content \<open>entries c\<close>.
\<close>

definition contains_pi :: "global_pi \<Rightarrow> global_pi \<Rightarrow> global_pi \<Rightarrow> bool" where
  "contains_pi first_offset next_offset global_pi \<longleftrightarrow>
     gpi_int global_pi \<ge> gpi_int first_offset \<and> gpi_int global_pi < gpi_int next_offset"

text \<open>
  \<^verbatim>\<open>apps/wedding_cake/include/mishap_assert.hpp\<close>, with assertions enabled: a failed assertion prints
  its message and executes a breakpoint instruction, which ends a program that is not being
  debugged.  The function is \<open>noexcept\<close> and returns nothing.
\<close>

definition mishap_assert :: "bool \<Rightarrow> string \<Rightarrow> unit res" where
  "mishap_assert expr msg = (if \<not> expr then Inl (Assert_Failed msg) else Inr ())"

definition assert_contains_pi :: "global_pi \<Rightarrow> global_pi \<Rightarrow> global_pi \<Rightarrow> unit res" where
  "assert_contains_pi first_offset next_offset global_pi =
     (let pi_int = gpi_int global_pi; first_int = gpi_int first_offset; next_int = gpi_int next_offset in
      rbind (mishap_assert (pi_int \<ge> first_int) ''pi is younger than container'') (\<lambda>_.
      mishap_assert (pi_int < next_int) ''pi is older than container''))"

lemma assert_contains_pi_iff:
  "assert_contains_pi f n g = Inr () \<longleftrightarrow> contains_pi f n g"
  by (simp add: assert_contains_pi_def mishap_assert_def contains_pi_def Let_def)

text \<open>Its messages are the wrong way round: an index below the first offset was presented earlier than
  anything in the container, so it is the older one, and is reported as younger.\<close>

lemma assert_contains_pi_older:
  "assert_contains_pi (GlobalPi 5) (GlobalPi 9) (GlobalPi 4) = Inl (Assert_Failed ''pi is younger than container'')"
  by (simp add: assert_contains_pi_def mishap_assert_def)

definition gpi_at :: "global_pi \<Rightarrow> nat \<Rightarrow> global_pi" where
  "gpi_at first i = GlobalPi (of_nat (unat (gpi_int first) + i))"

lemma gpi_at_0 [simp]: "gpi_at g 0 = g"
  by (simp add: gpi_at_def)

lemma unat_gpi_at:
  "unat (gpi_int g) + i < 2 ^ 64 \<Longrightarrow> unat (gpi_int (gpi_at g i)) = unat (gpi_int g) + i"
  unfolding gpi_at_def global_pi.sel by (subst unat_of_nat) simp

lemma gpi_at_plus: "gpi_at (gpi_at g i) j = gpi_at g (i + j)"
  by (simp add: gpi_at_def ac_simps)

lemma gpi_at_not_no_match:
  "unat (gpi_int g) + i < 2 ^ 64 - 1 \<Longrightarrow> gpi_at g i \<noteq> GLOBAL_PI_NO_MATCH"
  by (simp add: gpi_no_match_iff unat_gpi_at)

lemma lpi_plus_gpi_at:
  "unat (gpi_int g) + n < 2 ^ 64 - 1 \<Longrightarrow> lpi_plus_gpi (LocalPi (of_nat n)) g = gpi_at g n"
  by (subst lpi_plus_gpi_of_nat) (simp_all add: gpi_at_def add.commute)

lemma contains_pi_range:
  assumes "unat (gpi_int f) + n < 2 ^ 64"
  shows "contains_pi f (gpi_at f n) g \<longleftrightarrow> (\<exists>i<n. g = gpi_at f i)"
proof
  assume "contains_pi f (gpi_at f n) g"
  then have le: "unat (gpi_int f) \<le> unat (gpi_int g)" and less: "unat (gpi_int g) < unat (gpi_int f) + n"
    using assms by (simp_all add: contains_pi_def word_le_nat_alt word_less_nat_alt unat_gpi_at)
  then have "g = gpi_at f (unat (gpi_int g) - unat (gpi_int f))"
    by (cases g) (simp add: gpi_at_def)
  then show "\<exists>i<n. g = gpi_at f i" using le less by (intro exI conjI) auto
next
  assume "\<exists>i<n. g = gpi_at f i"
  then show "contains_pi f (gpi_at f n) g"
    using assms by (auto simp: contains_pi_def word_le_nat_alt word_less_nat_alt unat_gpi_at)
qed

lemma gpi_at_inject:
  "unat (gpi_int f) + i < 2 ^ 64 \<Longrightarrow> unat (gpi_int f) + j < 2 ^ 64 \<Longrightarrow> gpi_at f i = gpi_at f j \<longleftrightarrow> i = j"
  using unat_gpi_at [of f i] unat_gpi_at [of f j] by (metis add_left_cancel)

section \<open>The contract\<close>

locale range_bounded =
  fixes ok :: "'c \<Rightarrow> bool"
    and entries :: "'c \<Rightarrow> hash option list"
    and first_offset :: "'c \<Rightarrow> global_pi"
    and next_offset :: "'c \<Rightarrow> global_pi"
  assumes range_fits: "ok c \<Longrightarrow> unat (gpi_int (first_offset c)) + length (entries c) < 2 ^ 64 - 1"
    and next_offset: "ok c \<Longrightarrow> next_offset c = gpi_at (first_offset c) (length (entries c))"
begin

lemma contains_iff:
  "ok c \<Longrightarrow> contains_pi (first_offset c) (next_offset c) g \<longleftrightarrow>
    (\<exists>i < length (entries c). g = gpi_at (first_offset c) i)"
  using range_fits [of c] by (simp add: next_offset contains_pi_range)

lemma index_not_no_match:
  "ok c \<Longrightarrow> i < length (entries c) \<Longrightarrow> gpi_at (first_offset c) i \<noteq> GLOBAL_PI_NO_MATCH"
  using range_fits [of c] by (intro gpi_at_not_no_match) simp

end

locale lookupable = range_bounded +
  fixes forward_lookup :: "'a \<Rightarrow> global_pi \<Rightarrow> hash option res"
    and reverse_lookup :: "'a \<Rightarrow> hash \<Rightarrow> global_pi"
  assumes forward_at: "ok c \<Longrightarrow> i < length (entries c) \<Longrightarrow>
      forward_lookup c (gpi_at (first_offset c) i) = Inr (entries c ! i)"
    and reverse_absent: "ok c \<Longrightarrow> Some h \<notin> set (entries c) \<Longrightarrow>
      reverse_lookup c h = GLOBAL_PI_NO_MATCH"
    and reverse_present: "ok c \<Longrightarrow> Some h \<in> set (entries c) \<Longrightarrow>
      \<exists>i < length (entries c). entries c ! i = Some h \<and> reverse_lookup c h = gpi_at (first_offset c) i"
begin

text \<open>The two lookups invert each other.\<close>

lemma reverse_no_match_iff:
  "ok c \<Longrightarrow> reverse_lookup c h = GLOBAL_PI_NO_MATCH \<longleftrightarrow> Some h \<notin> set (entries c)"
  using reverse_absent reverse_present index_not_no_match by metis

lemma forward_reverse:
  assumes "ok c" "reverse_lookup c h \<noteq> GLOBAL_PI_NO_MATCH"
  shows "contains_pi (first_offset c) (next_offset c) (reverse_lookup c h)"
    "forward_lookup c (reverse_lookup c h) = Inr (Some h)"
  using assms reverse_present [of c h] reverse_no_match_iff [OF assms(1), of h]
  by (auto simp: contains_iff forward_at)

lemma forward_total:
  assumes "ok c" "contains_pi (first_offset c) (next_offset c) g"
  shows "\<exists>oh \<in> set (entries c). forward_lookup c g = Inr oh"
  using assms by (auto simp: contains_iff forward_at)

end

text \<open>Some containers promise the earliest presentation of a hash.\<close>

locale earliest_lookupable = lookupable +
  assumes reverse_earliest: "ok c \<Longrightarrow> i < length (entries c) \<Longrightarrow> entries c ! i = Some h \<Longrightarrow>
      (\<And>j. j < i \<Longrightarrow> entries c ! j \<noteq> Some h) \<Longrightarrow> reverse_lookup c h = gpi_at (first_offset c) i"

end
