(* ===== verification/Remainder_Donut.thy ===== *)
theory Remainder_Donut
  imports Donut_Entries Files_Manifest Object_Folders Lookup
begin

text \<open>
  \<^verbatim>\<open>apps/wedding_cake/include/ingester_evolver_types.hpp\<close>: the two states of a donut of the
  ingester tier.  A \<open>Remainder\<close> donut takes hashes until it reaches its capacity, writing one
  record per presentation to \<open>HashesOrder.bin\<close> and one per hash to \<open>HashEntries.bin\<close>,
  and answers lookups from memory; its constructor creates the files, or rebuilds the memory
  from them.  A \<open>Filled\<close> donut is a remainder donut that is full.

  The operations act on the tree of files and the donut.  \<open>N\<close> is \<open>HashBytesCount\<close>.
\<close>

section \<open>The state\<close>

definition ST00 :: string where
  "ST00 = ''Ingester_ST00_RemainderDonut''"

definition ST01 :: string where
  "ST01 = ''Ingester_ST01_FilledDonut''"

text \<open>The map from hashes to local indexes is kept as a list without repeated keys.\<close>

record st00 =
  forward_lookup_vector :: "hash option list"
  reverse_lookup_map :: "(hash \<times> local_pi) list"
  capacity :: nat
  object_path :: path
  first_global_pi :: global_pi
  st00_path :: path
  st00_manifest :: manifest
  donut_entries_calculator :: donut_calc
  file_handle_hashes_order :: int
  file_handle_suffix_entries :: int

definition map_insert :: "hash \<Rightarrow> local_pi \<Rightarrow> (hash \<times> local_pi) list \<Rightarrow> (hash \<times> local_pi) list" where
  "map_insert h l m = (if map_of m h = None then m @ [(h, l)] else m)"

definition remaining_capacity :: "st00 \<Rightarrow> nat" where
  "remaining_capacity st =
     unat (of_nat (capacity st) - of_nat (length (forward_lookup_vector st)) :: u64)"

definition st00_first_offset :: "st00 \<Rightarrow> global_pi" where
  "st00_first_offset st = first_global_pi st"

definition st00_next_offset :: "st00 \<Rightarrow> global_pi" where
  "st00_next_offset st =
     gpi_plus_lpi (first_global_pi st) (LocalPi (of_nat (length (forward_lookup_vector st))))"

section \<open>Rebuilding the memory from the files\<close>

definition suffix_file_path :: "path res" where
  "suffix_file_path = make_ms_prefix_path [] 0 (MsPrefixIndex 0)"

record hydration =
  hy_order_stream :: ifstream
  hy_suffix_stream :: ifstream
  hy_forward :: "hash option list"
  hy_reverse :: "(hash \<times> local_pi) list"
  hy_expected_next_suffix_index :: u64

definition hydrate_entry :: "nat \<Rightarrow> donut_calc \<Rightarrow> nat \<Rightarrow> hydration \<Rightarrow> nat \<Rightarrow> hydration res" where
  "hydrate_entry N c bytes_per_suffix_index s i =
     (let order_entry_size = hashes_order_entry_size c bytes_per_suffix_index;
          suffix_entry_size = suffixes_entry_size c in
      case is_read (hy_order_stream s) order_entry_size of (order_buffer, order_stream) \<Rightarrow>
      if length order_buffer < order_entry_size
      then Inl (Runtime_Error ''hydrate_self_for_lookup(): Truncated HashesOrder.bin record during hydration'')
      else rbind (read_hashes_order_entry_from_bytes c order_buffer bytes_per_suffix_index) (\<lambda>order_entry.
      if hoe_is_sentinel order_entry
      then Inr (s\<lparr>hy_order_stream := order_stream, hy_forward := hy_forward s @ [None]\<rparr>)
      else if \<not> hoe_suffixes_file_index order_entry = hy_expected_next_suffix_index s
      then Inl (Assert_Failed ''hydrate_self_for_lookup(): Out-of-order suffix index encountered during sequential hydration'')
      else case is_read (hy_suffix_stream s) suffix_entry_size of (suffix_buffer, suffix_stream) \<Rightarrow>
      if length suffix_buffer < suffix_entry_size
      then Inl (Runtime_Error ''hydrate_self_for_lookup(): Truncated HashEntries.bin record during hydration'')
      else rbind (read_ls_suffixes_entry_from_bytes c suffix_buffer) (\<lambda>suffix_entry.
           rbind (hash_from_prefix_suffix N c (hoe_ms_prefix_bytes order_entry)
                    (lse_ls_suffix_bytes suffix_entry)) (\<lambda>full_hash.
           let current_local_pi = LocalPi (of_nat (length (hy_forward s))) in
           Inr \<lparr>hy_order_stream = order_stream, hy_suffix_stream = suffix_stream,
                hy_forward = hy_forward s @ [Some full_hash],
                hy_reverse = map_insert full_hash current_local_pi (hy_reverse s),
                hy_expected_next_suffix_index = hy_expected_next_suffix_index s + 1\<rparr>))))"

definition hydrate_self_for_lookup :: "nat \<Rightarrow> fs \<Rightarrow> st00 \<Rightarrow> st00 res" where
  "hydrate_self_for_lookup N fs st =
     (let st0 = st\<lparr>forward_lookup_vector := [], reverse_lookup_map := []\<rparr>;
          order_file_path = st00_path st @ [HASHES_ORDER_FILENAME] in
      rbind suffix_file_path (\<lambda>rel.
      let suffix_file_path = st00_path st @ rel in
      if \<not> fs_exists fs order_file_path \<or> \<not> fs_exists fs suffix_file_path then Inr st0
      else rbind (fs_file_size fs order_file_path) (\<lambda>order_file_bytes.
      if order_file_bytes = 0 then Inr st0
      else case (is_open_file fs order_file_path, is_open_file fs suffix_file_path) of
        (Some order_stream, Some suffix_stream) \<Rightarrow>
          (case is_read order_stream 1 of (header, order_stream1) \<Rightarrow>
           if length header \<noteq> 1
           then Inl (Runtime_Error ''hydrate_self_for_lookup(): Failed to read header byte from HashesOrder.bin'')
           else let bytes_per_suffix_index = unat (hd header) in
           if \<not> bytes_per_suffix_index = ingester_donut_local_pi_bytes
           then Inl (Assert_Failed ''hydrate_self_for_lookup(): Unexpected bytes_per_suffix_index header byte for Ingester ST00'')
           else let c = donut_entries_calculator st;
                    order_entry_size = hashes_order_entry_size c bytes_per_suffix_index;
                    payload_bytes = order_file_bytes - 1 in
           if payload_bytes mod order_entry_size \<noteq> 0
           then Inl (Runtime_Error ''hydrate_self_for_lookup(): HashesOrder.bin size misaligned with entry size'')
           else let num_entries = payload_bytes div order_entry_size in
           rbind (rfold (hydrate_entry N c bytes_per_suffix_index)
                   \<lparr>hy_order_stream = order_stream1, hy_suffix_stream = suffix_stream,
                    hy_forward = [], hy_reverse = [], hy_expected_next_suffix_index = 0\<rparr>
                   [0..<num_entries]) (\<lambda>s.
             Inr (st\<lparr>forward_lookup_vector := hy_forward s, reverse_lookup_map := hy_reverse s\<rparr>)))
      | _ \<Rightarrow> Inl (Runtime_Error ''hydrate_self_for_lookup(): Failed to open ST00 donut files for reading''))))"

section \<open>Construction\<close>

definition create_folder_if_needed :: "fs \<Rightarrow> path \<Rightarrow> (fs \<times> bool) res" where
  "create_folder_if_needed fs path =
     (if \<not> fs_exists fs path
      then rbind (fs_create_directories fs path) (\<lambda>fs'. Inr (fs', True))
      else Inr (fs, False))"

definition mk_st00 :: "nat \<Rightarrow> fs \<Rightarrow> path \<Rightarrow> nat \<Rightarrow> (fs \<times> st00) res" where
  "mk_st00 N fs obj_path cap =
     rbind (object_folder_single_offset obj_path) (\<lambda>offset.
     let first = GlobalPi offset; st_path = obj_path @ [ST00] in
     rbind (create_folder_if_needed fs st_path) (\<lambda>(fs1, created).
     let hydration_required = \<not> created in
     rbind (mk_manifest fs1 st_path) (\<lambda>m.
     rbind (mk_donut_calc N 0 first (of_nat cap)) (\<lambda>c.
     let st = \<lparr>forward_lookup_vector = [], reverse_lookup_map = [], capacity = cap,
               object_path = obj_path, first_global_pi = first, st00_path = st_path,
               st00_manifest = m, donut_entries_calculator = c,
               file_handle_hashes_order = 0, file_handle_suffix_entries = 0\<rparr> in
     if hydration_required
     then rbind (hydrate_self_for_lookup N fs1 st) (\<lambda>st1.
          rbind suffix_file_path (\<lambda>rel.
          Inr (fs1, st1\<lparr>file_handle_hashes_order := get_file_handle m [HASHES_ORDER_FILENAME],
                        file_handle_suffix_entries := get_file_handle m rel\<rparr>)))
     else rbind (create_new_file (fs1, m) [HASHES_ORDER_FILENAME]) (\<lambda>(d1, h1).
          rbind suffix_file_path (\<lambda>rel.
          rbind (create_new_file d1 rel) (\<lambda>(d2, h2).
          let header_byte = of_nat ingester_donut_local_pi_bytes in
          rbind (append_to_file d2 h1 [header_byte]) (\<lambda>(fs3, m3).
          Inr (fs3, st\<lparr>st00_manifest := m3, file_handle_hashes_order := h1,
                       file_handle_suffix_entries := h2\<rparr>)))))))))"

section \<open>Appending\<close>

text \<open>
  The state of the writing loop: the disk, the index of the next suffix record, the local index
  of the next presentation, and the two buffers on the stack, of which only the bytes that were
  just written are used.
\<close>

record append_loop =
  al_disk :: disk
  al_next_suffix_file_index :: u64
  al_local_pi_int :: nat
  al_suffix_buffer :: bytes
  al_order_buffer :: bytes

definition append_entry :: "nat \<Rightarrow> st00 \<Rightarrow> append_loop \<Rightarrow> hash option \<Rightarrow> append_loop res" where
  "append_entry N st s entry =
     (let c = donut_entries_calculator st in
      rbind (write_suffixes_file_entry N c entry
              (lpi_plus_gpi (LocalPi (of_nat (al_local_pi_int s))) (first_global_pi st))
              (al_suffix_buffer s)) (\<lambda>(count, suffix_buffer).
      rbind (if count > 0
             then rbind (append_to_file (al_disk s) (file_handle_suffix_entries st) (take count suffix_buffer))
                    (\<lambda>d. Inr (d, al_next_suffix_file_index s, al_next_suffix_file_index s + 1))
             else Inr (al_disk s, NOT 0, al_next_suffix_file_index s))
        (\<lambda>(d1, suffix_index_to_record, next_suffix_file_index).
      rbind (write_hashes_order_file_entry N c entry suffix_index_to_record
              ingester_donut_local_pi_bytes (al_order_buffer s)) (\<lambda>(count2, order_buffer).
      rbind (append_to_file d1 (file_handle_hashes_order st) (take count2 order_buffer)) (\<lambda>d2.
        Inr \<lparr>al_disk = d2, al_next_suffix_file_index = next_suffix_file_index,
             al_local_pi_int = al_local_pi_int s + 1, al_suffix_buffer = suffix_buffer,
             al_order_buffer = order_buffer\<rparr>)))))"

fun insert_reverse :: "nat \<Rightarrow> hash option list \<Rightarrow> (hash \<times> local_pi) list \<Rightarrow> (hash \<times> local_pi) list" where
  "insert_reverse l [] m = m"
| "insert_reverse l (oh # ohs) m =
     insert_reverse (l + 1) ohs (case oh of Some h \<Rightarrow> map_insert h (LocalPi (of_nat l)) m | None \<Rightarrow> m)"

definition append_hashes :: "nat \<Rightarrow> fs \<times> st00 \<Rightarrow> hash option list \<Rightarrow> ((fs \<times> st00) \<times> nat) res" where
  "append_hashes N fst00 ram_buffer =
     (case fst00 of (fs, st) \<Rightarrow>
      let available = length ram_buffer;
          taking = min available (remaining_capacity st);
          max_plausible_suffix_entry = N + ingester_donut_local_pi_bytes;
          max_plausible_hashes_order_entry = 0 + ingester_donut_local_pi_bytes;
          c = donut_entries_calculator st in
      if \<not> max_plausible_suffix_entry \<ge> suffixes_entry_size c
      then Inl (Assert_Failed ''append_hashes(): Suffix buffer too small somehow'')
      else if \<not> max_plausible_hashes_order_entry \<ge> hashes_order_entry_size c ingester_donut_local_pi_bytes
      then Inl (Assert_Failed ''append_hashes(): Hashes order buffer too small somehow'')
      else rbind (rfold (append_entry N st)
             \<lparr>al_disk = (fs, st00_manifest st),
              al_next_suffix_file_index = of_nat (length (reverse_lookup_map st)),
              al_local_pi_int = length (forward_lookup_vector st),
              al_suffix_buffer = replicate max_plausible_suffix_entry 0,
              al_order_buffer = replicate max_plausible_hashes_order_entry 0\<rparr>
             (take taking ram_buffer)) (\<lambda>s.
        let st1 = st\<lparr>reverse_lookup_map := insert_reverse (length (forward_lookup_vector st))
                        (take taking ram_buffer) (reverse_lookup_map st),
                     forward_lookup_vector := forward_lookup_vector st @ take taking ram_buffer\<rparr> in
        if \<not> length (forward_lookup_vector st1) \<le> capacity st1
        then Inl (Assert_Failed ''append_hashes(): forward_lookup_vector_ overflowed somehow'')
        else case (if length (forward_lookup_vector st1) = capacity st1
                   then finish_and_seal (close_file (close_file (al_disk s)
                          (file_handle_suffix_entries st)) (file_handle_hashes_order st))
                   else al_disk s) of (fs', m') \<Rightarrow>
          Inr ((fs', st1\<lparr>st00_manifest := m'\<rparr>), taking)))"

section \<open>Lookups\<close>

definition st00_forward_lookup :: "st00 \<Rightarrow> global_pi \<Rightarrow> hash option res" where
  "st00_forward_lookup st global_pi =
     (if \<not> contains_pi (st00_first_offset st) (st00_next_offset st) global_pi
      then Inl (Assert_Failed ''forward_lookup(): Calling container should check bounds'')
      else read_at (forward_lookup_vector st) (unat (gpi_int global_pi - gpi_int (first_global_pi st))))"

definition st00_reverse_lookup :: "st00 \<Rightarrow> hash \<Rightarrow> global_pi" where
  "st00_reverse_lookup st h =
     (case map_of (reverse_lookup_map st) h of
        None \<Rightarrow> GLOBAL_PI_NO_MATCH
      | Some l \<Rightarrow> lpi_plus_gpi l (first_global_pi st))"

section \<open>The filled donut\<close>

record st01 =
  prior_ST00 :: st00
  st01_path :: path

definition mk_st01 :: "fs \<Rightarrow> st00 \<Rightarrow> (fs \<times> st01) res" where
  "mk_st01 fs prior_state =
     (let p = object_path prior_state @ [ST01] in
      if \<not> fs_exists fs p
      then rbind (fs_create_directories fs p) (\<lambda>fs'.
           Inr (fs', \<lparr>prior_ST00 = prior_state, st01_path = p\<rparr>))
      else Inr (fs, \<lparr>prior_ST00 = prior_state, st01_path = p\<rparr>))"

definition st01_first_offset :: "st01 \<Rightarrow> global_pi" where
  "st01_first_offset s = st00_first_offset (prior_ST00 s)"

definition st01_next_offset :: "st01 \<Rightarrow> global_pi" where
  "st01_next_offset s = st00_next_offset (prior_ST00 s)"

definition st01_forward_lookup :: "st01 \<Rightarrow> global_pi \<Rightarrow> hash option res" where
  "st01_forward_lookup s g = st00_forward_lookup (prior_ST00 s) g"

definition st01_reverse_lookup :: "st01 \<Rightarrow> hash \<Rightarrow> global_pi" where
  "st01_reverse_lookup s h = st00_reverse_lookup (prior_ST00 s) h"

section \<open>The files of a donut as a function of its presentations\<close>

fun count_hashes :: "hash option list \<Rightarrow> nat" where
  "count_hashes [] = 0"
| "count_hashes (oh # ohs) = (case oh of None \<Rightarrow> 0 | Some _ \<Rightarrow> 1) + count_hashes ohs"

fun order_records :: "nat \<Rightarrow> nat \<Rightarrow> hash option list \<Rightarrow> bytes" where
  "order_records N i [] = []"
| "order_records N i (oh # ohs) =
     order_record N 0 oh i 2 @ order_records N (i + count_hashes [oh]) ohs"

fun suffix_records :: "nat \<Rightarrow> nat \<Rightarrow> nat \<Rightarrow> hash option list \<Rightarrow> bytes" where
  "suffix_records N k l [] = []"
| "suffix_records N k l (oh # ohs) =
     (case oh of None \<Rightarrow> [] | Some h \<Rightarrow> suffix_record N 0 k h l) @ suffix_records N k (l + 1) ohs"

definition hashes_of :: "hash option list \<Rightarrow> hash list" where
  "hashes_of ohs = map the (filter (\<lambda>oh. oh \<noteq> None) ohs)"

lemma count_hashes_append [simp]: "count_hashes (xs @ ys) = count_hashes xs + count_hashes ys"
  by (induction xs) auto

lemma count_hashes_le: "count_hashes xs \<le> length xs"
  by (induction xs) (auto split: option.split)

lemma count_hashes_eq: "count_hashes xs = length (hashes_of xs)"
  by (induction xs) (auto simp: hashes_of_def split: option.split)

lemma order_records_append:
  "order_records N i (xs @ ys) = order_records N i xs @ order_records N (i + count_hashes xs) ys"
  by (induction xs arbitrary: i) (auto simp: add.assoc)

lemma suffix_records_append:
  "suffix_records N k l (xs @ ys) = suffix_records N k l xs @ suffix_records N k (l + length xs) ys"
  by (induction xs arbitrary: l) auto

section \<open>The map of the first presentations\<close>

lemma map_of_map_insert:
  "map_of (map_insert h l m) k = (if k = h \<and> map_of m h = None then Some l else map_of m k)"
  by (auto simp: map_insert_def map_add_def split: option.split)

lemma insert_reverse_append:
  "insert_reverse l (xs @ ys) m = insert_reverse (l + length xs) ys (insert_reverse l xs m)"
  by (induction xs arbitrary: l m) (auto simp: add.assoc)

lemma map_of_insert_reverse_old:
  "map_of m h = Some x \<Longrightarrow> map_of (insert_reverse l xs m) h = Some x"
  by (induction xs arbitrary: l m) (auto simp: map_of_map_insert split: option.split)

lemma map_of_insert_reverse_absent:
  "Some h \<notin> set xs \<Longrightarrow> map_of (insert_reverse l xs m) h = map_of m h"
  by (induction xs arbitrary: l m) (auto simp: map_of_map_insert split: option.split)

lemma map_of_insert_reverse_first:
  "map_of m h = None \<Longrightarrow> Some h \<notin> set xs \<Longrightarrow>
   map_of (insert_reverse l (xs @ Some h # ys) m) h = Some (LocalPi (of_nat (l + length xs)))"
  by (simp add: insert_reverse_append map_of_insert_reverse_absent
      map_of_insert_reverse_old [where x = "LocalPi (of_nat (l + length xs))"] map_of_map_insert)

lemma insert_reverse_keys:
  "distinct (map fst m) \<Longrightarrow> distinct (map fst (insert_reverse l xs m))
    \<and> fst ` set (insert_reverse l xs m) = fst ` set m \<union> set (hashes_of xs)"
proof (induction xs arbitrary: l m)
  case Nil
  then show ?case by (simp add: hashes_of_def)
next
  case (Cons oh xs)
  show ?case
  proof (cases oh)
    case None
    then show ?thesis using Cons by (simp add: hashes_of_def)
  next
    case (Some h)
    have d: "distinct (map fst (map_insert h (LocalPi (of_nat l)) m))"
      using Cons.prems by (auto simp: map_insert_def map_of_eq_None_iff)
    have k: "fst ` set (map_insert h (LocalPi (of_nat l)) m) = insert h (fst ` set m)"
      by (auto simp: map_insert_def map_of_eq_None_iff)
    show ?thesis using Cons.IH [OF d, of "l + 1"] Some k by (auto simp: hashes_of_def)
  qed
qed

lemma length_insert_reverse:
  "distinct (hashes_of xs) \<Longrightarrow> length (insert_reverse l xs []) = count_hashes xs"
proof -
  assume d: "distinct (hashes_of xs)"
  let ?m = "insert_reverse l xs []"
  have k: "distinct (map fst ?m)" "set (map fst ?m) = set (hashes_of xs)"
    using insert_reverse_keys [of "[]" l xs] by simp_all
  then have "length (map fst ?m) = length (hashes_of xs)" using d by (metis distinct_card)
  then show ?thesis by (simp add: count_hashes_eq)
qed

lemma length_map_insert: "length (map_insert h l m) \<le> Suc (length m)"
  by (simp add: map_insert_def)

lemma length_insert_reverse_le: "length (insert_reverse l xs m) \<le> length m + count_hashes xs"
proof (induction xs arbitrary: l m)
  case Nil
  then show ?case by simp
next
  case (Cons oh xs)
  show ?case
  proof (cases oh)
    case None
    then show ?thesis using Cons by simp
  next
    case (Some h)
    then show ?thesis
      using Cons [of "l + 1" "map_insert h (LocalPi (of_nat l)) m"] length_map_insert [of h "LocalPi (of_nat l)" m]
      by simp
  qed
qed

section \<open>The invariant of a donut\<close>

text \<open>
  \<open>st00_mem\<close> is what the constructor and the appends establish in memory, \<open>st00_files\<close> says
  that the two files hold exactly the records of the presentations (with the pending bytes of
  the streams counted in), and \<open>st00_open\<close> that the donut can still be appended to.
\<close>

definition st00_mem :: "nat \<Rightarrow> st00 \<Rightarrow> bool" where
  "st00_mem N st \<longleftrightarrow>
     calc_ok N 0 (donut_entries_calculator st)
   \<and> dc_first_global_pi (donut_entries_calculator st) = first_global_pi st
   \<and> calculate_bytes_per_local_pi (of_nat (capacity st)) = Inr (dc_bytes_per_local_pi (donut_entries_calculator st))
   \<and> 0 < capacity st \<and> capacity st \<le> ingester_donut_capacity
   \<and> unat (gpi_int (first_global_pi st)) + capacity st < 2 ^ 64 - 1
   \<and> length (forward_lookup_vector st) \<le> capacity st
   \<and> (\<forall>h. Some h \<in> set (forward_lookup_vector st) \<longrightarrow> hash_wf N h)
   \<and> reverse_lookup_map st = insert_reverse 0 (forward_lookup_vector st) []"

definition st00_files_with :: "nat \<Rightarrow> fs \<Rightarrow> st00 \<Rightarrow> bytes \<Rightarrow> bool" where
  "st00_files_with N fs st order_bytes \<longleftrightarrow>
     fm_inv (fs, st00_manifest st) \<and> fm_base_path (st00_manifest st) = st00_path st
   \<and> file_handle_hashes_order st \<noteq> file_handle_suffix_entries st
   \<and> fm_rel_paths_by_handle (st00_manifest st) (file_handle_hashes_order st) = Some [HASHES_ORDER_FILENAME]
   \<and> (\<exists>rel. suffix_file_path = Inr rel
        \<and> fm_rel_paths_by_handle (st00_manifest st) (file_handle_suffix_entries st) = Some rel)
   \<and> fm_content (fs, st00_manifest st) (file_handle_hashes_order st) = Some order_bytes
   \<and> fm_content (fs, st00_manifest st) (file_handle_suffix_entries st) =
       Some (suffix_records N (dc_bytes_per_local_pi (donut_entries_calculator st)) 0 (forward_lookup_vector st))"

definition order_file :: "nat \<Rightarrow> hash option list \<Rightarrow> bytes" where
  "order_file N xs = of_nat ingester_donut_local_pi_bytes # order_records N 0 xs"

definition st00_files :: "nat \<Rightarrow> fs \<Rightarrow> st00 \<Rightarrow> bool" where
  "st00_files N fs st \<longleftrightarrow> st00_files_with N fs st (order_file N (forward_lookup_vector st))"

definition st00_open :: "fs \<Rightarrow> st00 \<Rightarrow> bool" where
  "st00_open fs st \<longleftrightarrow> fm_writable (fs, st00_manifest st) (file_handle_hashes_order st)
     \<and> fm_writable (fs, st00_manifest st) (file_handle_suffix_entries st)"

lemma suffix_file_path_eq: "suffix_file_path = Inr [''HashEntries.bin'']"
  by (simp add: suffix_file_path_def make_ms_prefix_path_def)

lemma st00_memD:
  assumes "st00_mem N st"
  shows "calc_ok N 0 (donut_entries_calculator st)"
    "dc_first_global_pi (donut_entries_calculator st) = first_global_pi st"
    "capacity st < 256 ^ dc_bytes_per_local_pi (donut_entries_calculator st)"
    "dc_bytes_per_local_pi (donut_entries_calculator st) \<le> 2"
    "suffixes_entry_size (donut_entries_calculator st) \<le> N + 2"
    "hashes_order_entry_size (donut_entries_calculator st) 2 = 2"
    "remaining_capacity st = capacity st - length (forward_lookup_vector st)"
proof -
  let ?c = "donut_entries_calculator st"
  show c: "calc_ok N 0 ?c" "dc_first_global_pi ?c = first_global_pi st"
    using assms by (simp_all add: st00_mem_def)
  have cap: "0 < capacity st" "capacity st \<le> 65535"
    using assms by (simp_all add: st00_mem_def ingester_donut_capacity_def)
  then have un: "unat (of_nat (capacity st) :: u64) = capacity st" by (subst unat_of_nat) simp
  have k: "calculate_bytes_per_local_pi (of_nat (capacity st)) = Inr (dc_bytes_per_local_pi ?c)"
    using assms by (simp add: st00_mem_def)
  from bytes_per_local_pi_fit(2) [OF k] cap show "capacity st < 256 ^ dc_bytes_per_local_pi ?c"
    by (simp add: un)
  have "(of_nat (capacity st) :: u64) \<noteq> 0" using cap un by auto
  then have "dc_bytes_per_local_pi ?c = (bit_width (capacity st) + 7) div 8"
    using k un by (simp add: calculate_bytes_per_local_pi_eq)
  then show kk: "dc_bytes_per_local_pi ?c \<le> 2" using cap byte_width_le_iff [of "capacity st" 2] by simp
  show "suffixes_entry_size ?c \<le> N + 2" "hashes_order_entry_size ?c 2 = 2"
    using c(1) kk by (simp_all add: calc_ok_def suffixes_entry_size_def hashes_order_entry_size_def)
  have "length (forward_lookup_vector st) \<le> capacity st" using assms by (simp add: st00_mem_def)
  then have "(of_nat (capacity st) - of_nat (length (forward_lookup_vector st)) :: u64)
      = of_nat (capacity st - length (forward_lookup_vector st))" by (simp add: of_nat_diff)
  then show "remaining_capacity st = capacity st - length (forward_lookup_vector st)"
    using cap unfolding remaining_capacity_def by (simp only:) (subst unat_of_nat, simp)
qed

section \<open>Appending a batch\<close>

definition append_state ::
    "nat \<Rightarrow> fs \<Rightarrow> st00 \<Rightarrow> bytes \<Rightarrow> nat \<Rightarrow> hash option list \<Rightarrow> append_loop \<Rightarrow> bool" where
  "append_state N fs st ob i ys s \<longleftrightarrow>
     fm_inv (al_disk s) \<and> fm_frame (al_disk s) = fm_frame (fs, st00_manifest st)
   \<and> (\<forall>h. fm_writable (al_disk s) h = fm_writable (fs, st00_manifest st) h)
   \<and> fm_content (al_disk s) (file_handle_hashes_order st) = Some (ob @ order_records N i ys)
   \<and> fm_content (al_disk s) (file_handle_suffix_entries st) =
       Some (suffix_records N (dc_bytes_per_local_pi (donut_entries_calculator st)) 0
               (forward_lookup_vector st @ ys))
   \<and> al_next_suffix_file_index s = of_nat (i + count_hashes ys)
   \<and> al_local_pi_int s = length (forward_lookup_vector st @ ys)
   \<and> length (al_suffix_buffer s) = N + 2 \<and> length (al_order_buffer s) = 2"

lemma append_entry_step:
  assumes mem: "st00_mem N st" and files: "st00_files_with N fs st ob" and open': "st00_open fs st"
    and s: "append_state N fs st ob i ys s"
    and fits: "length (forward_lookup_vector st) + length ys < capacity st"
    and i: "i \<le> length (forward_lookup_vector st)"
    and wf: "\<forall>h. oh = Some h \<longrightarrow> hash_wf N h"
  shows "\<exists>s'. append_entry N st s oh = Inr s' \<and> append_state N fs st ob i (ys @ [oh]) s'"
proof -
  let ?c = "donut_entries_calculator st" and ?fv = "forward_lookup_vector st @ ys"
  let ?k = "dc_bytes_per_local_pi ?c"
  let ?ho = "file_handle_hashes_order st" and ?hs = "file_handle_suffix_entries st"
  note c = st00_memD [OF mem]
  note st = s [unfolded append_state_def]
  have range: "unat (gpi_int (first_global_pi st)) + capacity st < 2 ^ 64 - 1" "capacity st \<le> 65535"
    using mem by (simp_all add: st00_mem_def ingester_donut_capacity_def)
  have l: "length ?fv < capacity st" using fits by simp
  let ?i = "i + count_hashes ys"
  have idx: "?i < 256 ^ 2 - 1" using count_hashes_le [of ys] l range(2) i by simp
  have gpi: "lpi_plus_gpi (LocalPi (of_nat (al_local_pi_int s))) (first_global_pi st) =
      GlobalPi (of_nat (unat (gpi_int (dc_first_global_pi ?c)) + length ?fv))"
    using range l st by (subst lpi_plus_gpi_of_nat) (simp_all add: c(2) add.commute)
  have w: "fm_writable (al_disk s) ?ho" "fm_writable (al_disk s) ?hs"
    using st open' by (simp_all add: st00_open_def)
  have ne: "?hs \<noteq> ?ho" using files by (auto simp: st00_files_with_def)
  have lenb: "length (al_order_buffer s) = 2" using st by blast
  have two: "ingester_donut_local_pi_bytes = 2" by simp
  have order: "write_hashes_order_file_entry N ?c oh j 2 (al_order_buffer s) =
      Inr (2, order_record N 0 oh (?i) 2)"
    if "oh \<noteq> None \<Longrightarrow> j = of_nat ?i" for j
  proof -
    have rec: "order_record N 0 oh (unat j) 2 = order_record N 0 oh (?i) 2 \<and> (oh \<noteq> None \<longrightarrow> unat j < 256 ^ 2 - 1)"
    proof (cases "oh = None")
      case True
      then show ?thesis by (simp add: order_record_def)
    next
      case False
      then have "unat j = ?i"
        using that idx by (simp add: unat_of_nat del: of_nat_add)
      then show ?thesis using idx by (simp del: count_hashes_append)
    qed
    show ?thesis
      using write_hashes_order_file_entry_eq [OF c(1) wf, of 2 "unat j" "al_order_buffer s"] rec c(6) lenb
      by (simp del: count_hashes_append)
  qed
  show ?thesis
  proof (cases oh)
    case None
    have sfx: "write_suffixes_file_entry N ?c None g (al_suffix_buffer s) = Inr (0, al_suffix_buffer s)" for g
      using st c(5) by (simp add: write_suffixes_file_entry_def Let_def)
    obtain d where d: "append_to_file (al_disk s) ?ho (order_record N 0 oh (?i) 2) = Inr d"
      "fm_inv d" "fm_frame d = fm_frame (al_disk s)" "\<forall>h. fm_writable d h = fm_writable (al_disk s) h"
      "\<forall>h. fm_content d h = (if h = ?ho then Some ((ob @ order_records N i ys)
        @ order_record N 0 oh (?i) 2) else fm_content (al_disk s) h)"
      using append_to_file_spec [OF _ w(1)] st by blast
    define s' where "s' = \<lparr>al_disk = d, al_next_suffix_file_index = al_next_suffix_file_index s,
      al_local_pi_int = al_local_pi_int s + 1, al_suffix_buffer = al_suffix_buffer s,
      al_order_buffer = order_record N 0 oh (?i) 2\<rparr>"
    have len: "length (order_record N 0 oh (?i) 2) = 2" by (simp add: order_record_def None)
    have "append_entry N st s oh = Inr s'"
      using order [of "NOT 0"] d(1) len
      by (simp add: append_entry_def sfx None two s'_def Let_def)
    moreover have "append_state N fs st ob i (ys @ [oh]) s'"
      using st d ne len unfolding append_state_def s'_def
      by (simp add: order_records_append suffix_records_append None flip: append_assoc)
    ultimately show ?thesis by blast
  next
    case (Some h)
    have h: "hash_wf N h" using wf Some by simp
    let ?sr = "suffix_record N 0 ?k h (length ?fv)"
    let ?or = "order_record N 0 oh (?i) 2"
    have lens: "length ?sr = suffixes_entry_size ?c" by (rule length_suffix_record [OF c(1) h])
    have leno: "length ?or = 2" using length_order_record [OF c(1) wf] c(6) by simp
    have sfx: "write_suffixes_file_entry N ?c (Some h)
        (lpi_plus_gpi (LocalPi (of_nat (al_local_pi_int s))) (first_global_pi st)) (al_suffix_buffer s) =
      Inr (suffixes_entry_size ?c, ?sr @ drop (suffixes_entry_size ?c) (al_suffix_buffer s))"
      unfolding gpi using st c(2,5) range l by (intro write_suffixes_file_entry_eq [OF c(1) h _ refl]) simp_all
    have ord: "write_hashes_order_file_entry N ?c oh (al_next_suffix_file_index s) 2 (al_order_buffer s) =
      Inr (2, ?or)" using st by (intro order) blast
    have pos: "0 < suffixes_entry_size ?c"
    proof -
      have "0 < ?k" using c(3) l by (cases ?k) auto
      then show ?thesis by (simp add: suffixes_entry_size_def)
    qed
    obtain d1 d2 where d: "append_to_file (al_disk s) ?hs ?sr = Inr d1" "append_to_file d1 ?ho ?or = Inr d2"
      "fm_inv d2" "fm_frame d2 = fm_frame (al_disk s)" "\<forall>h. fm_writable d2 h = fm_writable (al_disk s) h"
      "fm_content d2 ?hs = Some (suffix_records N ?k 0 ?fv @ ?sr)"
      "fm_content d2 ?ho = Some ((ob @ order_records N i ys) @ ?or)"
      using fm.append_twice [OF _ w(2,1) ne] st by blast
    define s' where "s' = \<lparr>al_disk = d2, al_next_suffix_file_index = al_next_suffix_file_index s + 1,
      al_local_pi_int = al_local_pi_int s + 1,
      al_suffix_buffer = ?sr @ drop (suffixes_entry_size ?c) (al_suffix_buffer s),
      al_order_buffer = ?or\<rparr>"
    have "append_entry N st s oh = Inr s'"
      using d(1,2) leno lens pos ord [unfolded Some]
      by (simp add: append_entry_def sfx Some two s'_def Let_def del: count_hashes_append length_append)
    moreover have "append_state N fs st ob i (ys @ [oh]) s'"
      using st d leno lens c(5) unfolding append_state_def s'_def
      by (simp add: order_records_append suffix_records_append Some flip: append_assoc)
    ultimately show ?thesis by blast
  qed
qed

lemma append_loop_spec:
  assumes mem: "st00_mem N st" and files: "st00_files_with N fs st ob" and open': "st00_open fs st"
    and fits: "length (forward_lookup_vector st) + length xs \<le> capacity st"
    and wf: "\<forall>h. Some h \<in> set xs \<longrightarrow> hash_wf N h"
  shows "\<exists>s. rfold (append_entry N st)
      \<lparr>al_disk = (fs, st00_manifest st),
       al_next_suffix_file_index = of_nat (length (reverse_lookup_map st)),
       al_local_pi_int = length (forward_lookup_vector st),
       al_suffix_buffer = replicate (N + 2) 0, al_order_buffer = replicate 2 0\<rparr> xs = Inr s
    \<and> append_state N fs st ob (length (reverse_lookup_map st)) xs s"
proof (rule rfold_invariant [where P = "append_state N fs st ob (length (reverse_lookup_map st))"])
  show "append_state N fs st ob (length (reverse_lookup_map st)) []
      \<lparr>al_disk = (fs, st00_manifest st),
       al_next_suffix_file_index = of_nat (length (reverse_lookup_map st)),
       al_local_pi_int = length (forward_lookup_vector st),
       al_suffix_buffer = replicate (N + 2) 0, al_order_buffer = replicate 2 0\<rparr>"
    using files by (simp add: append_state_def st00_files_with_def)
next
  fix ys x zs s
  assume xs: "xs = ys @ x # zs" and s: "append_state N fs st ob (length (reverse_lookup_map st)) ys s"
  have "length (reverse_lookup_map st) \<le> length (forward_lookup_vector st)"
    using mem length_insert_reverse_le [of 0 "forward_lookup_vector st" "[]"]
      count_hashes_le [of "forward_lookup_vector st"] by (simp add: st00_mem_def)
  then show "\<exists>s'. append_entry N st s x = Inr s'
      \<and> append_state N fs st ob (length (reverse_lookup_map st)) (ys @ [x]) s'"
    using fits wf xs by (intro append_entry_step [OF mem files open' s]) auto
qed

text \<open>The donut after \<open>new\<close> was appended, with its manifest \<open>m\<close>.\<close>

definition st00_extended :: "st00 \<Rightarrow> hash option list \<Rightarrow> manifest \<Rightarrow> st00" where
  "st00_extended st new m = st\<lparr>forward_lookup_vector := forward_lookup_vector st @ new,
     reverse_lookup_map := insert_reverse 0 (forward_lookup_vector st @ new) [], st00_manifest := m\<rparr>"

lemma st00_extended_simps [simp]:
  "forward_lookup_vector (st00_extended st new m) = forward_lookup_vector st @ new"
  "reverse_lookup_map (st00_extended st new m) = insert_reverse 0 (forward_lookup_vector st @ new) []"
  "st00_manifest (st00_extended st new m) = m" "capacity (st00_extended st new m) = capacity st"
  "first_global_pi (st00_extended st new m) = first_global_pi st"
  "object_path (st00_extended st new m) = object_path st"
  "st00_path (st00_extended st new m) = st00_path st"
  "donut_entries_calculator (st00_extended st new m) = donut_entries_calculator st"
  "file_handle_hashes_order (st00_extended st new m) = file_handle_hashes_order st"
  "file_handle_suffix_entries (st00_extended st new m) = file_handle_suffix_entries st"
  by (simp_all add: st00_extended_def)

lemma append_hashes_result:
  assumes mem: "st00_mem N st" and files: "st00_files_with N fs st ob" and open': "st00_open fs st"
    and wf: "\<forall>h. Some h \<in> set batch \<longrightarrow> hash_wf N h"
    and taking: "taking = min (length batch) (capacity st - length (forward_lookup_vector st))"
  obtains fs' m where
    "append_hashes N (fs, st) batch = Inr ((fs', st00_extended st (take taking batch) m), taking)"
    "st00_mem N (st00_extended st (take taking batch) m)"
    "st00_files_with N fs' (st00_extended st (take taking batch) m)
      (ob @ order_records N (length (reverse_lookup_map st)) (take taking batch))"
    "\<And>h. fm_writable (fs', m) h \<longleftrightarrow> fm_writable (fs, st00_manifest st) h
          \<and> length (forward_lookup_vector st) + taking < capacity st"
    "length (forward_lookup_vector st) + taking = capacity st \<Longrightarrow> fm_open_files_by_handle m = []"
    "\<And>q. \<not> fm_known (st00_manifest st) q \<Longrightarrow> fs_node fs' q = fs_node fs q"
    "\<And>q. fs_is_directory fs' q = fs_is_directory fs q"
proof -
  let ?c = "donut_entries_calculator st" and ?fv = "forward_lookup_vector st"
  let ?ho = "file_handle_hashes_order st" and ?hs = "file_handle_suffix_entries st"
  let ?new = "take taking batch" and ?i = "length (reverse_lookup_map st)"
  note c = st00_memD [OF mem]
  have len: "length ?fv \<le> capacity st" "length ?new = taking" using mem
    by (simp_all add: st00_mem_def taking)
  then have fits: "length ?fv + length ?new \<le> capacity st" by (simp add: taking)
  have wf': "\<forall>h. Some h \<in> set ?new \<longrightarrow> hash_wf N h" using wf by (auto dest: in_set_takeD)
  obtain s where s: "rfold (append_entry N st)
      \<lparr>al_disk = (fs, st00_manifest st), al_next_suffix_file_index = of_nat ?i,
       al_local_pi_int = length ?fv,
       al_suffix_buffer = replicate (N + 2) 0, al_order_buffer = replicate 2 0\<rparr> ?new = Inr s"
    "append_state N fs st ob ?i ?new s"
    using append_loop_spec [OF mem files open' fits wf'] by blast
  have rev: "insert_reverse (length ?fv) ?new (reverse_lookup_map st) = insert_reverse 0 (?fv @ ?new) []"
    using mem by (simp add: st00_mem_def insert_reverse_append)
  define full where "full \<longleftrightarrow> length ?fv + taking = capacity st"
  define d where "d = (if full then finish_and_seal (close_file (close_file (al_disk s) ?hs) ?ho) else al_disk s)"
  obtain fs' m where fm: "d = (fs', m)" by force
  have two: "replicate 2 (0 :: u8) = [0, 0]" by (simp add: numeral_2_eq_2)
  have eq: "append_hashes N (fs, st) batch = Inr ((fs', st00_extended st ?new m), taking)"
    using c(5-7) s(1) len fits fm unfolding append_hashes_def
    by (simp add: Let_def two rev full_def d_def st00_extended_def flip: taking)
  note sp = s(2) [unfolded append_state_def]
  note fr = fm_frame_snd [OF conjunct1 [OF conjunct2 [OF sp]]]
  have inv0: "fm_inv (al_disk s)" using sp by blast
  have content_s: "fm_content (al_disk s) ?hs = Some (suffix_records N (dc_bytes_per_local_pi ?c) 0 (?fv @ ?new))"
    "fm_content (al_disk s) ?ho = Some (ob @ order_records N ?i ?new)"
    using sp by blast+
  note seal = close_and_seal_spec [OF inv0 content_s]
  have inv: "fm_inv d" and content: "fm_content d h = fm_content (al_disk s) h"
    and rel: "fm_rel_paths_by_handle (snd d) = fm_rel_paths_by_handle (st00_manifest st)"
      "fm_base_path (snd d) = fm_base_path (st00_manifest st)"
    and writable: "fm_writable d h \<longleftrightarrow> fm_writable (fs, st00_manifest st) h \<and> \<not> full" for h
    using seal inv0 fr sp unfolding d_def by (cases full; simp)+
  have nodes: "fs_node (fst d) q = fs_node fs q" if "\<not> fm_known (st00_manifest st) q" for q
    using seal(7) [of q] fr(1,2,5) that unfolding d_def by (cases full) (simp_all add: fm_known_def)
  have dirs: "fs_is_directory (fst d) q = fs_is_directory fs q" for q
    using seal(8) fr(4) unfolding d_def by (cases full) simp_all
  have sealed: "full \<Longrightarrow> fm_open_files_by_handle (snd d) = []"
    using seal(4) by (simp add: d_def)
  have mem': "st00_mem N (st00_extended st ?new m)"
    using mem fits wf' by (auto simp: st00_mem_def)
  have files': "st00_files_with N fs' (st00_extended st ?new m) (ob @ order_records N ?i ?new)"
    using files inv content content_s rel by (simp add: st00_files_with_def fm)
  have notfull: "length ?fv + taking < capacity st \<longleftrightarrow> \<not> full" using fits len by (auto simp: full_def)
  show ?thesis
    using that [OF eq mem' files'] writable nodes dirs sealed fm notfull by (simp add: full_def)
qed

text \<open>As long as the hashes so far are distinct, the suffix index is right and the files stay the
  ones of the presentations.\<close>

lemma order_file_extended:
  assumes "st00_mem N st" "distinct (hashes_of (forward_lookup_vector st))"
  shows "order_file N (forward_lookup_vector st) @ order_records N (length (reverse_lookup_map st)) new
    = order_file N (forward_lookup_vector st @ new)"
proof -
  have "length (reverse_lookup_map st) = count_hashes (forward_lookup_vector st)"
    using assms(1) length_insert_reverse [OF assms(2), of 0] by (simp add: st00_mem_def)
  then show ?thesis by (simp add: order_file_def order_records_append)
qed

section \<open>Hydrating from the files\<close>

lemma length_order_records: "\<forall>h. Some h \<in> set xs \<longrightarrow> hash_wf N h \<Longrightarrow> calc_ok N 0 c \<Longrightarrow>
    length (order_records N i xs) = 2 * length xs"
proof (induction xs arbitrary: i)
  case Nil
  then show ?case by simp
next
  case (Cons oh xs)
  have "length (order_record N 0 oh i 2) = 2"
    using length_order_record [OF Cons.prems(2), of oh i 2] Cons.prems
    by (simp add: hashes_order_entry_size_def calc_ok_def)
  with Cons show ?case by simp
qed

definition hydration_state ::
    "nat \<Rightarrow> donut_calc \<Rightarrow> hash option list \<Rightarrow> bytes \<Rightarrow> bytes \<Rightarrow> nat \<Rightarrow> hydration \<Rightarrow> bool" where
  "hydration_state N c xs ro rs j s \<longleftrightarrow>
     is_good (hy_order_stream s) \<and> is_good (hy_suffix_stream s)
   \<and> is_rest (hy_order_stream s) = order_records N (count_hashes (take j xs)) (drop j xs) @ ro
   \<and> is_rest (hy_suffix_stream s) = suffix_records N (dc_bytes_per_local_pi c) j (drop j xs) @ rs
   \<and> hy_forward s = take j xs \<and> hy_reverse s = insert_reverse 0 (take j xs) []
   \<and> hy_expected_next_suffix_index s = of_nat (count_hashes (take j xs))"

lemma hydrate_entry_step:
  assumes c: "calc_ok N 0 c" and wf: "\<forall>h. Some h \<in> set xs \<longrightarrow> hash_wf N h"
    and k: "length xs < 256 ^ dc_bytes_per_local_pi c" "length xs \<le> 65535"
    and j: "j < length xs" and s: "hydration_state N c xs ro rs j s"
  shows "\<exists>s'. hydrate_entry N c 2 s j = Inr s' \<and> hydration_state N c xs ro rs (Suc j) s'"
proof -
  let ?cnt = "count_hashes (take j xs)" and ?k = "dc_bytes_per_local_pi c"
  obtain oh rest where dj: "drop j xs = oh # rest" "drop (Suc j) xs = rest" "take (Suc j) xs = take j xs @ [oh]"
    using j by (metis Cons_nth_drop_Suc take_Suc_conv_app_nth)
  have ohwf: "\<forall>h. oh = Some h \<longrightarrow> hash_wf N h"
    using wf dj(1) by (metis in_set_dropD list.set_intros(1))
  have cnt: "?cnt < 256 ^ 2 - 1" using count_hashes_le [of "take j xs"] j k(2) by simp
  have es: "hashes_order_entry_size c 2 = 2" using c by (simp add: hashes_order_entry_size_def calc_ok_def)
  have olen: "length (order_record N 0 oh ?cnt 2) = 2" using length_order_record [OF c ohwf] es by simp
  note st = s [unfolded hydration_state_def]
  obtain os' where os': "is_read (hy_order_stream s) 2 = (order_record N 0 oh ?cnt 2, os')" "is_good os'"
    "is_rest os' = order_records N (?cnt + count_hashes [oh]) rest @ ro"
    using is_read_full [of "hy_order_stream s" "order_record N 0 oh ?cnt 2" _ 2] st dj(1) olen by auto
  note ro = read_order_record [OF c ohwf, of 2 ?cnt]
  show ?thesis
  proof (cases oh)
    case None
    define s' where "s' = s\<lparr>hy_order_stream := os', hy_forward := hy_forward s @ [None]\<rparr>"
    have "hydrate_entry N c 2 s j = Inr s'"
      using os'(1) olen ro cnt None by (simp add: hydrate_entry_def es Let_def s'_def)
    moreover have "hydration_state N c xs ro rs (Suc j) s'"
      using st os' dj j None by (simp add: hydration_state_def s'_def insert_reverse_append)
    ultimately show ?thesis by blast
  next
    case (Some h)
    have h: "hash_wf N h" using ohwf Some by simp
    let ?sr = "suffix_record N 0 ?k h j"
    have slen: "length ?sr = suffixes_entry_size c" by (rule length_suffix_record [OF c h])
    obtain ss' where ss': "is_read (hy_suffix_stream s) (suffixes_entry_size c) = (?sr, ss')" "is_good ss'"
      "is_rest ss' = suffix_records N ?k (j + 1) rest @ rs"
      using is_read_full [of "hy_suffix_stream s" ?sr _ "suffixes_entry_size c"] st dj(1) slen Some by auto
    have "j < 256 ^ ?k" using j k(1) by simp
    note rs = read_suffix_record [OF c h this]
    define s' where "s' = \<lparr>hy_order_stream = os', hy_suffix_stream = ss',
      hy_forward = take j xs @ [Some h],
      hy_reverse = map_insert h (LocalPi (of_nat j)) (insert_reverse 0 (take j xs) []),
      hy_expected_next_suffix_index = of_nat ?cnt + 1\<rparr>"
    have "hydrate_entry N c 2 s j = Inr s'"
      using os'(1) olen ro cnt Some ss'(1) slen rs hash_from_parts [OF c h] st j
      by (simp add: hydrate_entry_def es Let_def s'_def min_def)
    moreover have "hydration_state N c xs ro rs (Suc j) s'"
      using st os' ss' dj j Some by (simp add: hydration_state_def s'_def insert_reverse_append min_def)
    ultimately show ?thesis by blast
  qed
qed

lemma hydrate_loop:
  assumes "calc_ok N 0 c" "\<forall>h. Some h \<in> set xs \<longrightarrow> hash_wf N h"
    and "length xs < 256 ^ dc_bytes_per_local_pi c" "length xs \<le> 65535"
    and "hydration_state N c xs ro rs 0 s0"
  shows "\<exists>s. rfold (hydrate_entry N c 2) s0 [0..<length xs] = Inr s
    \<and> hydration_state N c xs ro rs (length xs) s"
proof -
  have "\<exists>s. rfold (hydrate_entry N c 2) s0 [0..<length xs] = Inr s
    \<and> hydration_state N c xs ro rs (length [0..<length xs]) s"
  proof (rule rfold_invariant [where P = "\<lambda>ys. hydration_state N c xs ro rs (length ys)"])
    show "hydration_state N c xs ro rs (length []) s0" using assms(5) by simp
  next
    fix ys i zs s
    assume eq: "[0..<length xs] = ys @ i # zs" and s: "hydration_state N c xs ro rs (length ys) s"
    have j: "length ys < length xs" using arg_cong [OF eq, of length] by simp
    have i: "i = length ys" using arg_cong [OF eq, of "\<lambda>l. l ! length ys"] j by simp
    show "\<exists>s'. hydrate_entry N c 2 s i = Inr s' \<and> hydration_state N c xs ro rs (length (ys @ [i])) s'"
      using hydrate_entry_step [OF assms(1-4) j s] by (simp add: i)
  qed
  then show ?thesis by simp
qed

text \<open>Everything before the loop: the files are opened and the header byte is read.\<close>

lemma hydrate_self_for_lookup_loop:
  assumes c: "calc_ok N 0 (donut_entries_calculator st)"
    and order: "fs_node fs (st00_path st @ [HASHES_ORDER_FILENAME]) = Some (File (2 # ob))"
      "length ob = 2 * n"
    and suffix: "suffix_file_path = Inr rel" "fs_node fs (st00_path st @ rel) = Some (File sb)"
  obtains os ss where "is_good os" "is_rest os = ob" "is_good ss" "is_rest ss = sb"
    "hydrate_self_for_lookup N fs st =
      rbind (rfold (hydrate_entry N (donut_entries_calculator st) 2)
        \<lparr>hy_order_stream = os, hy_suffix_stream = ss, hy_forward = [], hy_reverse = [],
         hy_expected_next_suffix_index = 0\<rparr> [0..<n])
      (\<lambda>s. Inr (st\<lparr>forward_lookup_vector := hy_forward s, reverse_lookup_map := hy_reverse s\<rparr>))"
proof -
  let ?c = "donut_entries_calculator st"
  let ?os = "\<lparr>is_content = 2 # ob, is_pos = 0, is_eof = False, is_fail = False\<rparr>"
  let ?ss = "\<lparr>is_content = sb, is_pos = 0, is_eof = False, is_fail = False\<rparr>"
  obtain os' where os': "is_read ?os 1 = ([2], os')" "is_good os'" "is_rest os' = ob"
    using is_read_full [of ?os "[2]" ob 1] by (auto simp: is_good_def is_rest_def)
  have es: "hashes_order_entry_size ?c 2 = 2" using c by (simp add: hashes_order_entry_size_def calc_ok_def)
  have opened: "is_open_file fs (st00_path st @ [HASHES_ORDER_FILENAME]) = Some ?os"
    "is_open_file fs (st00_path st @ rel) = Some ?ss"
    "fs_file_size fs (st00_path st @ [HASHES_ORDER_FILENAME]) = Inr (1 + 2 * n)"
    "fs_exists fs (st00_path st @ [HASHES_ORDER_FILENAME])" "fs_exists fs (st00_path st @ rel)"
    using order suffix by (simp_all add: is_open_file_def fs_exists_def fs_file_size_def)
  have "hydrate_self_for_lookup N fs st =
      rbind (rfold (hydrate_entry N ?c 2)
        \<lparr>hy_order_stream = os', hy_suffix_stream = ?ss, hy_forward = [], hy_reverse = [],
         hy_expected_next_suffix_index = 0\<rparr> [0..<n])
      (\<lambda>s. Inr (st\<lparr>forward_lookup_vector := hy_forward s, reverse_lookup_map := hy_reverse s\<rparr>))"
    unfolding hydrate_self_for_lookup_def suffix(1) rbind.simps Let_def opened(1,2,3)
    using os'(1) es opened(4,5) by simp
  then show ?thesis using os'(2,3) by (intro that [of os' ?ss]) (simp_all add: is_good_def is_rest_def)
qed

lemma hydrate_self_for_lookup_ok:
  assumes c: "calc_ok N 0 (donut_entries_calculator st)"
    and wf: "\<forall>h. Some h \<in> set xs \<longrightarrow> hash_wf N h"
    and k: "length xs < 256 ^ dc_bytes_per_local_pi (donut_entries_calculator st)" "length xs \<le> 65535"
    and order: "fs_node fs (st00_path st @ [HASHES_ORDER_FILENAME]) = Some (File (order_file N xs))"
    and suffix: "suffix_file_path = Inr rel" "fs_node fs (st00_path st @ rel) =
      Some (File (suffix_records N (dc_bytes_per_local_pi (donut_entries_calculator st)) 0 xs))"
  shows "hydrate_self_for_lookup N fs st =
    Inr (st\<lparr>forward_lookup_vector := xs, reverse_lookup_map := insert_reverse 0 xs []\<rparr>)"
proof -
  have o: "fs_node fs (st00_path st @ [HASHES_ORDER_FILENAME]) = Some (File (2 # order_records N 0 xs))"
    using order by (simp add: order_file_def)
  obtain os ss where ss: "is_good os" "is_rest os = order_records N 0 xs" "is_good ss"
    "is_rest ss = suffix_records N (dc_bytes_per_local_pi (donut_entries_calculator st)) 0 xs"
    and eq: "hydrate_self_for_lookup N fs st =
      rbind (rfold (hydrate_entry N (donut_entries_calculator st) 2)
        \<lparr>hy_order_stream = os, hy_suffix_stream = ss, hy_forward = [], hy_reverse = [],
         hy_expected_next_suffix_index = 0\<rparr> [0..<length xs])
      (\<lambda>s. Inr (st\<lparr>forward_lookup_vector := hy_forward s, reverse_lookup_map := hy_reverse s\<rparr>))"
    by (rule hydrate_self_for_lookup_loop [OF c o length_order_records [OF wf c] suffix])
  show ?thesis
    using hydrate_loop [OF c wf k, of "[]" "[]" "\<lparr>hy_order_stream = os, hy_suffix_stream = ss, hy_forward = [],
        hy_reverse = [], hy_expected_next_suffix_index = 0\<rparr>"] ss
    by (auto simp: eq hydration_state_def)
qed

text \<open>A record whose suffix index is not the number of hashes before it stops the hydration.\<close>

lemma hydrate_self_for_lookup_bad_index:
  assumes c: "calc_ok N 0 (donut_entries_calculator st)"
    and wf: "\<forall>h. Some h \<in> set xs \<longrightarrow> hash_wf N h" "hash_wf N h"
    and k: "length xs < 256 ^ dc_bytes_per_local_pi (donut_entries_calculator st)" "length xs \<le> 65535"
    and order: "fs_node fs (st00_path st @ [HASHES_ORDER_FILENAME]) =
      Some (File (order_file N xs @ order_record N 0 (Some h) i 2 @ mr))" "length mr = 2 * n"
    and i: "i < 65535" "i \<noteq> count_hashes xs"
    and suffix: "suffix_file_path = Inr rel" "fs_node fs (st00_path st @ rel) =
      Some (File (suffix_records N (dc_bytes_per_local_pi (donut_entries_calculator st)) 0 xs @ rs))"
  shows "hydrate_self_for_lookup N fs st =
    Inl (Assert_Failed ''hydrate_self_for_lookup(): Out-of-order suffix index encountered during sequential hydration'')"
proof -
  let ?c = "donut_entries_calculator st" and ?r = "order_record N 0 (Some h) i 2"
  have es: "hashes_order_entry_size ?c 2 = 2" using c by (simp add: hashes_order_entry_size_def calc_ok_def)
  have rlen: "length ?r = 2" using length_order_record [OF c, of "Some h" i 2] wf(2) es by simp
  have o: "fs_node fs (st00_path st @ [HASHES_ORDER_FILENAME]) =
      Some (File (2 # order_records N 0 xs @ ?r @ mr))"
    using order by (simp add: order_file_def)
  have len: "length (order_records N 0 xs @ ?r @ mr) = 2 * (length xs + Suc n)"
    using rlen order(2) length_order_records [OF wf(1) c] by simp
  obtain os ss where ss: "is_good os" "is_rest os = order_records N 0 xs @ ?r @ mr" "is_good ss"
    "is_rest ss = suffix_records N (dc_bytes_per_local_pi ?c) 0 xs @ rs"
    and eq: "hydrate_self_for_lookup N fs st =
      rbind (rfold (hydrate_entry N ?c 2)
        \<lparr>hy_order_stream = os, hy_suffix_stream = ss, hy_forward = [], hy_reverse = [],
         hy_expected_next_suffix_index = 0\<rparr> [0..<length xs + Suc n])
      (\<lambda>s. Inr (st\<lparr>forward_lookup_vector := hy_forward s, reverse_lookup_map := hy_reverse s\<rparr>))"
    by (rule hydrate_self_for_lookup_loop [OF c o len suffix])
  let ?s0 = "\<lparr>hy_order_stream = os, hy_suffix_stream = ss, hy_forward = [],
        hy_reverse = [], hy_expected_next_suffix_index = 0\<rparr>"
  obtain s where s: "rfold (hydrate_entry N ?c 2) ?s0 [0..<length xs] = Inr s"
    "hydration_state N ?c xs (?r @ mr) rs (length xs) s"
    using hydrate_loop [OF c wf(1) k, of "?r @ mr" rs ?s0] ss by (auto simp: hydration_state_def)
  obtain os' where os': "is_read (hy_order_stream s) 2 = (?r, os')"
    using is_read_full [of "hy_order_stream s" ?r mr 2] s(2) rlen by (auto simp: hydration_state_def)
  have "(256 :: nat) ^ 2 = 65536" by simp
  then have ro: "read_hashes_order_entry_from_bytes ?c ?r 2 = Inr
      \<lparr>hoe_ms_prefix_bytes = prefix_part N 0 h, hoe_suffixes_file_index = of_nat i, hoe_is_sentinel = False\<rparr>"
    using read_order_record [OF c, of "Some h" 2 i] wf(2) i(1) by simp
  have "(of_nat i :: u64) \<noteq> of_nat (count_hashes xs)"
    using i count_hashes_le [of xs] k(2) by (simp add: word_unat_eq_iff unat_of_nat)
  then have "hydrate_entry N ?c 2 s (length xs) =
      Inl (Assert_Failed ''hydrate_self_for_lookup(): Out-of-order suffix index encountered during sequential hydration'')"
    using os' rlen ro s(2) by (simp add: hydrate_entry_def es Let_def hydration_state_def)
  moreover have "[0..<length xs + Suc n] = [0..<length xs] @ length xs # [Suc (length xs)..<length xs + Suc n]"
    by (subst upt_add_eq_append) (simp_all add: upt_conv_Cons del: upt_Suc)
  ultimately show ?thesis unfolding eq using s(1) by (simp add: rfold_append)
qed

section \<open>What the constructor establishes\<close>

lemma donut_calc_exists:
  assumes "0 < cap" "cap \<le> 65535" "8 * N + 7 < 2 ^ 64"
  shows "\<exists>c. mk_donut_calc N 0 g (of_nat cap) = Inr c \<and> calc_ok N 0 c \<and> dc_first_global_pi c = g
    \<and> calculate_bytes_per_local_pi (of_nat cap) = Inr (dc_bytes_per_local_pi c)"
proof -
  have "unat (of_nat cap :: u64) = cap" using assms by (subst unat_of_nat) simp
  then have "(of_nat cap :: u64) \<noteq> 0" using assms(1) by auto
  then have "\<exists>c. mk_donut_calc N (of_nat 0) g (of_nat cap) = Inr c"
    by (simp add: mk_donut_calc_def calculate_bytes_per_local_pi_eq Let_def)
  then obtain c where c: "mk_donut_calc N (of_nat 0) g (of_nat cap) = Inr c" by blast
  show ?thesis using mk_donut_calc_ok [OF c assms(3)] c by auto
qed

lemma mk_st00_new:
  assumes wf: "fs_wf fs" and cap: "0 < cap" "cap \<le> 65535" and N: "8 * N + 7 < 2 ^ 64"
    and name: "object_folder_single_offset obj = Inr w" and range: "unat w + cap < 2 ^ 64 - 1"
    and fresh: "fs_node fs (obj @ [ST00]) = None"
    and dirs: "\<And>q c. prefix q obj \<Longrightarrow> fs_node fs q \<noteq> Some (File c)"
  shows "\<exists>fs' st. mk_st00 N fs obj cap = Inr (fs', st) \<and> st00_mem N st \<and> st00_files N fs' st
    \<and> st00_open fs' st \<and> forward_lookup_vector st = [] \<and> capacity st = cap
    \<and> first_global_pi st = GlobalPi w \<and> object_path st = obj \<and> st00_path st = obj @ [ST00]
    \<and> (\<forall>q. \<not> prefix q (obj @ [ST00]) \<longrightarrow> \<not> prefix (obj @ [ST00]) q \<longrightarrow> fs_node fs' q = fs_node fs q)
    \<and> (\<forall>q. prefix q (obj @ [ST00]) \<longrightarrow> fs_node fs' q = Some Dir)
    \<and> \<not> fm_finished_sealed (st00_manifest st)"
proof -
  let ?p = "obj @ [ST00]" and ?sfx = "[''HashEntries.bin'']"
  have nofile: "fs_node fs q \<noteq> Some (File c)" if "prefix q ?p" for q c
    using that dirs fresh by (auto simp: prefix_snoc)
  obtain fs1 where fs1: "fs_create_directories fs ?p = Inr fs1" "fs_wf fs1"
    "\<And>q. fs_node fs1 q = (if prefix q ?p then Some Dir else fs_node fs q)"
    using fs_create_directories_spec [OF wf nofile] by blast
  have below: "fs_node fs1 (?p @ q) = None" if "q \<noteq> []" for q
    using fs_wf_missing_below [OF wf fresh, of q] that prefix_length_le [of "?p @ q" ?p] by (auto simp: fs1(3))
  obtain m where m: "mk_manifest fs1 ?p = Inr m" "fm_inv (fs1, m)" "fm_base_path m = ?p" "\<not> fm_finished_sealed m"
    using mk_manifest_spec [OF fs1(2), of ?p] by (auto simp: fs_is_directory_def fs1(3))
  obtain c where c: "mk_donut_calc N 0 (GlobalPi w) (of_nat cap) = Inr c" "calc_ok N 0 c"
    "dc_first_global_pi c = GlobalPi w"
    "calculate_bytes_per_local_pi (of_nat cap) = Inr (dc_bytes_per_local_pi c)"
    using donut_calc_exists [OF cap N] by blast
  let ?h1 = "fm_next_file_handle m"
  have n1: "fs_node fs1 (fm_base_path m @ [HASHES_ORDER_FILENAME]) = None" using below by (simp add: m(3) del: append_assoc)
  have d1: "fs_node fs1 (fm_base_path m @ q) \<noteq> Some (File x)" if "prefix q (butlast [HASHES_ORDER_FILENAME])" for q x
    using that fs1(3) by (simp add: m(3))
  obtain fs2 m2 where c1: "create_new_file (fs1, m) [HASHES_ORDER_FILENAME] = Inr ((fs2, m2), ?h1)"
    "fm_inv (fs2, m2)" "fm_base_path m2 = ?p" "fm_next_file_handle m2 = ?h1 + 1" "\<not> fm_finished_sealed m2"
    "fm_rel_paths_by_handle m2 = (fm_rel_paths_by_handle m)(?h1 \<mapsto> [HASHES_ORDER_FILENAME])"
    "\<And>k. fm_content (fs2, m2) k = (if k = ?h1 then Some [] else fm_content (fs1, m) k)"
    "\<And>k. fm_writable (fs2, m2) k \<longleftrightarrow> k = ?h1 \<or> fm_writable (fs1, m) k"
    "\<And>q. fs_node fs2 q = (if q = ?p @ [HASHES_ORDER_FILENAME] then Some (File [])
          else if prefix q ?p then Some Dir else fs_node fs1 q)"
    using create_new_file_spec [OF m(2,4) _ n1 d1] by (auto simp: m(3))
  have ne: "[HASHES_ORDER_FILENAME] \<noteq> ?sfx" by (simp add: HASHES_ORDER_FILENAME_def)
  have n2: "fs_node fs2 (fm_base_path m2 @ ?sfx) = None"
    using below [of ?sfx] ne prefix_length_le [of "?p @ ?sfx" ?p] by (auto simp: c1(3,9))
  have d2: "fs_node fs2 (fm_base_path m2 @ q) \<noteq> Some (File x)" if "prefix q (butlast ?sfx)" for q x
    using that by (simp add: c1(3,9))
  obtain fs3 m3 where c2: "create_new_file (fs2, m2) ?sfx = Inr ((fs3, m3), ?h1 + 1)"
    "fm_inv (fs3, m3)" "fm_base_path m3 = ?p" "\<not> fm_finished_sealed m3"
    "fm_rel_paths_by_handle m3 = (fm_rel_paths_by_handle m2)(?h1 + 1 \<mapsto> ?sfx)"
    "\<And>k. fm_content (fs3, m3) k = (if k = ?h1 + 1 then Some [] else fm_content (fs2, m2) k)"
    "\<And>k. fm_writable (fs3, m3) k \<longleftrightarrow> k = ?h1 + 1 \<or> fm_writable (fs2, m2) k"
    "\<And>q. fs_node fs3 q = (if q = ?p @ ?sfx then Some (File [])
          else if prefix q ?p then Some Dir else fs_node fs2 q)"
    using create_new_file_spec [OF c1(2,5) _ n2 d2] by (auto simp: c1(3,4))
  have w1: "fm_writable (fs3, m3) ?h1" "fm_content (fs3, m3) ?h1 = Some []"
    using c1(7,8) c2(6,7) by simp_all
  obtain fs4 m4 where a: "append_to_file (fs3, m3) ?h1 [2] = Inr (fs4, m4)" "fm_inv (fs4, m4)"
    "fm_frame (fs4, m4) = fm_frame (fs3, m3)" "\<And>k. fm_writable (fs4, m4) k = fm_writable (fs3, m3) k"
    "\<And>k. fm_content (fs4, m4) k = (if k = ?h1 then Some [2] else fm_content (fs3, m3) k)"
    using append_to_file_spec [OF c2(2) w1, of "[2]"] by auto
  note fr = fm_frame_snd [OF a(3), simplified]
  define st where "st = \<lparr>forward_lookup_vector = [], reverse_lookup_map = [], capacity = cap,
     object_path = obj, first_global_pi = GlobalPi w, st00_path = ?p, st00_manifest = m4,
     donut_entries_calculator = c, file_handle_hashes_order = ?h1, file_handle_suffix_entries = ?h1 + 1\<rparr>"
  have eq: "mk_st00 N fs obj cap = Inr (fs4, st)"
    using fresh fs1(1) m(1) c(1) c1(1) c2(1) a(1)
    by (simp add: mk_st00_def name create_folder_if_needed_def fs_exists_def suffix_file_path_eq Let_def st_def)
  have "st00_mem N st" using c cap range
    by (simp add: st00_mem_def st_def ingester_donut_capacity_def)
  moreover have "st00_files N fs4 st"
    using a c1 c2 fr by (simp add: st00_files_def st00_files_with_def order_file_def st_def suffix_file_path_eq)
  moreover have "st00_open fs4 st" using a c1 c2 by (simp add: st00_open_def st_def)
  moreover have "fs_node fs4 q = Some Dir" if "prefix q ?p" for q
    using fr(4) that c2(8) [of q] prefix_length_le [OF that]
    by (auto simp: fs_is_directory_def fun_eq_iff split: if_splits)
  moreover have "fs_node fs4 q = fs_node fs q" if "\<not> prefix q ?p" "\<not> prefix ?p q" for q
  proof -
    have "\<not> fm_known m3 q" using that by (auto simp: fm_known_def c2(3))
    then have "fs_node fs4 q = fs_node fs3 q" by (rule fr(5))
    then show ?thesis using that by (auto simp: c2(8) c1(9) fs1(3) simp del: append_assoc)
  qed
  ultimately show ?thesis using eq fr(3) c2(4) by (intro exI [of _ fs4] exI [of _ st]) (simp add: st_def)
qed

lemma mk_st00_hydrated:
  assumes wf: "fs_wf fs" and cap: "0 < cap" "cap \<le> 65535" and N: "8 * N + 7 < 2 ^ 64"
    and name: "object_folder_single_offset obj = Inr w" and range: "unat w + cap < 2 ^ 64 - 1"
    and xs: "length xs \<le> cap" "\<forall>h. Some h \<in> set xs \<longrightarrow> hash_wf N h"
    and k: "calculate_bytes_per_local_pi (of_nat cap) = Inr k"
    and order: "fs_node fs (obj @ [ST00] @ [HASHES_ORDER_FILENAME]) =
      Some (File (order_file N xs))"
    and suffix: "suffix_file_path = Inr rel"
      "fs_node fs (obj @ [ST00] @ rel) = Some (File (suffix_records N k 0 xs))"
  shows "\<exists>st. mk_st00 N fs obj cap = Inr (fs, st) \<and> st00_mem N st \<and> st00_files N fs st
    \<and> forward_lookup_vector st = xs \<and> capacity st = cap
    \<and> first_global_pi st = GlobalPi w \<and> object_path st = obj \<and> st00_path st = obj @ [ST00]
    \<and> fm_open_files_by_handle (st00_manifest st) = [] \<and> \<not> fm_finished_sealed (st00_manifest st)"
proof -
  let ?p = "obj @ [ST00]"
  have rel: "rel = [''HashEntries.bin'']" using suffix(1) by (simp add: suffix_file_path_eq)
  have dir: "fs_is_directory fs ?p" using fs_wf_node_parent [OF wf, of ?p rel] suffix(2) by (simp add: rel)
  obtain m where m: "mk_manifest fs ?p = Inr m" "fm_inv (fs, m)" "fm_base_path m = ?p" "\<not> fm_finished_sealed m"
    "fm_open_files_by_handle m = []"
    "\<And>q. fm_file_handles_by_rel_path m q \<noteq> None \<longleftrightarrow> q \<noteq> [] \<and> (\<exists>c. fs_node fs (?p @ q) = Some (File c))"
    using mk_manifest_spec [OF wf dir] by blast
  have "fm_file_handles_by_rel_path m [HASHES_ORDER_FILENAME] \<noteq> None" "fm_file_handles_by_rel_path m rel \<noteq> None"
    using order suffix(2) unfolding m(6) by (simp_all add: rel)
  then obtain h1 h2 where h: "fm_file_handles_by_rel_path m [HASHES_ORDER_FILENAME] = Some h1"
    "fm_file_handles_by_rel_path m rel = Some h2" by auto
  then have r: "fm_rel_paths_by_handle m h1 = Some [HASHES_ORDER_FILENAME]" "fm_rel_paths_by_handle m h2 = Some rel"
    using m(2) by (simp_all add: fm_inv_def)
  have ne: "h1 \<noteq> h2" using r by (auto simp: HASHES_ORDER_FILENAME_def rel)
  obtain c where c: "mk_donut_calc N 0 (GlobalPi w) (of_nat cap) = Inr c" "calc_ok N 0 c"
    "dc_first_global_pi c = GlobalPi w"
    "calculate_bytes_per_local_pi (of_nat cap) = Inr (dc_bytes_per_local_pi c)"
    using donut_calc_exists [OF cap N] by blast
  then have kk: "k = dc_bytes_per_local_pi c" using k by simp
  have un: "unat (of_nat cap :: u64) = cap" using cap by (subst unat_of_nat) simp
  have fit: "length xs < 256 ^ dc_bytes_per_local_pi c"
  proof -
    have "cap < 256 ^ dc_bytes_per_local_pi c"
      using bytes_per_local_pi_fit(2) [OF c(4)] cap by (simp add: un)
    with xs(1) show ?thesis by simp
  qed
  define st0 where "st0 = \<lparr>forward_lookup_vector = [], reverse_lookup_map = [], capacity = cap,
     object_path = obj, first_global_pi = GlobalPi w, st00_path = ?p, st00_manifest = m,
     donut_entries_calculator = c, file_handle_hashes_order = 0, file_handle_suffix_entries = 0\<rparr>"
  have hyd: "hydrate_self_for_lookup N fs st0 =
      Inr (st0\<lparr>forward_lookup_vector := xs, reverse_lookup_map := insert_reverse 0 xs []\<rparr>)"
    using c fit xs cap order suffix kk by (intro hydrate_self_for_lookup_ok) (simp_all add: st0_def)
  define st where "st = st0\<lparr>forward_lookup_vector := xs, reverse_lookup_map := insert_reverse 0 xs [],
     file_handle_hashes_order := h1, file_handle_suffix_entries := h2\<rparr>"
  have "fs_exists fs ?p" using dir by (simp add: fs_is_directory_def fs_exists_def)
  then have eq: "mk_st00 N fs obj cap = Inr (fs, st)"
    using m(1) c(1) hyd h unfolding mk_st00_def name create_folder_if_needed_def suffix(1) rbind.simps Let_def
    by (simp add: get_file_handle_def st_def st0_def)
  have "st00_mem N st" using c cap range xs
    by (simp add: st00_mem_def st_def st0_def ingester_donut_capacity_def)
  moreover have "st00_files N fs st"
    using m r ne order suffix kk by (simp add: st00_files_def st00_files_with_def st_def st0_def fm_content_def)
  ultimately show ?thesis using eq m(4,5) by (intro exI [of _ st]) (simp add: st_def st0_def)
qed

section \<open>Lookups in memory\<close>

lemma hashes_of_mem: "h \<in> set (hashes_of xs) \<longleftrightarrow> Some h \<in> set xs"
  by (force simp: hashes_of_def)

lemma st00_next_offset_eq:
  "st00_mem N st \<Longrightarrow> st00_next_offset st = gpi_at (st00_first_offset st) (length (forward_lookup_vector st))"
  by (simp add: st00_next_offset_def gpi_plus_lpi_def st00_first_offset_def st00_mem_def lpi_plus_gpi_at)

lemma st00_reverse_first:
  assumes "st00_mem N st" "i < length (forward_lookup_vector st)"
    and "forward_lookup_vector st ! i = Some h" "\<And>j. j < i \<Longrightarrow> forward_lookup_vector st ! j \<noteq> Some h"
  shows "st00_reverse_lookup st h = gpi_at (first_global_pi st) i"
proof -
  let ?xs = "forward_lookup_vector st"
  have "?xs = take i ?xs @ Some h # drop (Suc i) ?xs"
    using assms(2,3) by (metis id_take_nth_drop)
  moreover have "Some h \<notin> set (take i ?xs)"
    using assms(2,4) by (auto simp: in_set_conv_nth)
  ultimately have "map_of (insert_reverse 0 ?xs []) h = Some (LocalPi (of_nat (0 + length (take i ?xs))))"
    by (metis map_of.simps(1) map_of_insert_reverse_first)
  then have "map_of (reverse_lookup_map st) h = Some (LocalPi (of_nat i))"
    using assms(1,2) by (simp add: st00_mem_def min_def)
  then show ?thesis using assms(1,2)
    by (simp add: st00_reverse_lookup_def st00_mem_def lpi_plus_gpi_at)
qed

interpretation donut: earliest_lookupable "st00_mem N" forward_lookup_vector st00_first_offset
  st00_next_offset st00_forward_lookup st00_reverse_lookup
  for N
proof
  fix st h
  assume ok: "st00_mem N st"
  then show fits: "unat (gpi_int (st00_first_offset st)) + length (forward_lookup_vector st) < 2 ^ 64 - 1"
    by (simp add: st00_mem_def st00_first_offset_def)
  show next': "st00_next_offset st = gpi_at (st00_first_offset st) (length (forward_lookup_vector st))"
    by (rule st00_next_offset_eq [OF ok])
  show "st00_forward_lookup st (gpi_at (st00_first_offset st) i) = Inr (forward_lookup_vector st ! i)"
    if i: "i < length (forward_lookup_vector st)" for i
  proof -
    have "contains_pi (st00_first_offset st) (st00_next_offset st) (gpi_at (st00_first_offset st) i)"
      unfolding next' using fits i by (subst contains_pi_range) auto
    moreover have "unat (gpi_int (gpi_at (st00_first_offset st) i) - gpi_int (first_global_pi st)) = i"
      using fits i by (simp add: gpi_at_def st00_first_offset_def unat_of_nat)
    ultimately show ?thesis using i by (simp add: st00_forward_lookup_def read_at_Inr)
  qed
  show "st00_reverse_lookup st h = GLOBAL_PI_NO_MATCH" if "Some h \<notin> set (forward_lookup_vector st)"
    using ok that by (simp add: st00_reverse_lookup_def st00_mem_def map_of_insert_reverse_absent)
  show "\<exists>i<length (forward_lookup_vector st). forward_lookup_vector st ! i = Some h \<and>
      st00_reverse_lookup st h = gpi_at (st00_first_offset st) i"
    if h: "Some h \<in> set (forward_lookup_vector st)"
  proof -
    let ?xs = "forward_lookup_vector st"
    obtain ys zs where xs: "?xs = ys @ Some h # zs" "Some h \<notin> set ys"
      using split_list_first [OF h] by blast
    have "st00_reverse_lookup st h = gpi_at (first_global_pi st) (length ys)"
      using xs by (intro st00_reverse_first [OF ok]) (auto simp: nth_append in_set_conv_nth)
    then show ?thesis using xs by (intro exI [of _ "length ys"]) (simp add: st00_first_offset_def)
  qed
  show "st00_reverse_lookup st h = gpi_at (st00_first_offset st) i"
    if "i < length (forward_lookup_vector st)" "forward_lookup_vector st ! i = Some h"
      "\<And>j. j < i \<Longrightarrow> forward_lookup_vector st ! j \<noteq> Some h" for i
    using st00_reverse_first [OF ok that] by (simp add: st00_first_offset_def)
qed

definition st01_mem :: "nat \<Rightarrow> st01 \<Rightarrow> bool" where
  "st01_mem N s \<longleftrightarrow> st00_mem N (prior_ST00 s)"

definition st01_entries :: "st01 \<Rightarrow> hash option list" where
  "st01_entries s = forward_lookup_vector (prior_ST00 s)"

text \<open>The filled donut delegates, so it keeps the contract.\<close>

interpretation filled: earliest_lookupable "st01_mem N" st01_entries st01_first_offset
  st01_next_offset st01_forward_lookup st01_reverse_lookup
  for N
proof
  fix s h i
  assume ok: "st01_mem N s"
  then have ok': "st00_mem N (prior_ST00 s)" by (simp add: st01_mem_def)
  note d = st01_entries_def st01_first_offset_def st01_next_offset_def st01_forward_lookup_def
    st01_reverse_lookup_def
  show "unat (gpi_int (st01_first_offset s)) + length (st01_entries s) < 2 ^ 64 - 1"
    unfolding d by (rule donut.range_fits [OF ok'])
  show "st01_next_offset s = gpi_at (st01_first_offset s) (length (st01_entries s))"
    unfolding d by (rule donut.next_offset [OF ok'])
  show "st01_forward_lookup s (gpi_at (st01_first_offset s) i) = Inr (st01_entries s ! i)"
    if "i < length (st01_entries s)"
    using that donut.forward_at [OF ok'] unfolding d by blast
  show "st01_reverse_lookup s h = GLOBAL_PI_NO_MATCH" if "Some h \<notin> set (st01_entries s)"
    using that donut.reverse_absent [OF ok'] unfolding d by blast
  show "\<exists>i<length (st01_entries s). st01_entries s ! i = Some h \<and>
      st01_reverse_lookup s h = gpi_at (st01_first_offset s) i" if "Some h \<in> set (st01_entries s)"
    using that donut.reverse_present [OF ok'] unfolding d by blast
  show "st01_reverse_lookup s h = gpi_at (st01_first_offset s) i"
    if "i < length (st01_entries s)" "st01_entries s ! i = Some h"
      "\<And>j. j < i \<Longrightarrow> st01_entries s ! j \<noteq> Some h"
    using that donut.reverse_earliest [OF ok', of i h] unfolding d by blast
qed

section \<open>A donut over its life\<close>

text \<open>Feeding a donut batch after batch, as the worker does.\<close>

definition feed_batches :: "nat \<Rightarrow> fs \<times> st00 \<Rightarrow> hash option list list \<Rightarrow> (fs \<times> st00) res" where
  "feed_batches N s batches =
     rfold (\<lambda>s batch. rbind (append_hashes N s batch) (\<lambda>(s', _). Inr s')) s batches"

text \<open>What the program leaves on disk when the donut is destroyed.\<close>

definition st00_shutdown :: "fs \<times> st00 \<Rightarrow> fs" where
  "st00_shutdown s = (case s of (fs, st) \<Rightarrow> destroy_manifest (fs, st00_manifest st))"

lemma feed_batches_ok:
  assumes "st00_mem N st" "st00_files N fs st" "st00_open fs st"
    and "distinct (hashes_of (forward_lookup_vector st @ concat batches))"
    and "\<forall>h. Some h \<in> set (concat batches) \<longrightarrow> hash_wf N h"
    and "length (forward_lookup_vector st) + length (concat batches) < capacity st"
  shows "\<exists>fs' m. feed_batches N (fs, st) batches = Inr (fs', st00_extended st (concat batches) m)
    \<and> st00_mem N (st00_extended st (concat batches) m) \<and> st00_files N fs' (st00_extended st (concat batches) m)
    \<and> st00_open fs' (st00_extended st (concat batches) m)"
  using assms
proof (induction batches arbitrary: fs st)
  case Nil
  moreover have "st00_extended st [] (st00_manifest st) = st"
    using Nil(1) by (simp add: st00_extended_def st00_mem_def)
  ultimately show ?case by (intro exI [of _ fs] exI [of _ "st00_manifest st"]) (simp add: feed_batches_def)
next
  case (Cons b bs)
  let ?fv = "forward_lookup_vector st"
  have dist: "distinct (hashes_of ?fv)" using Cons.prems(4) by (simp add: hashes_of_def)
  have taking: "length b = min (length b) (capacity st - length ?fv)" using Cons.prems(6) by simp
  have wf: "\<forall>h. Some h \<in> set b \<longrightarrow> hash_wf N h" using Cons.prems(5) by simp
  obtain fs1 m1 where r: "append_hashes N (fs, st) b = Inr ((fs1, st00_extended st b m1), length b)"
    "st00_mem N (st00_extended st b m1)"
    "st00_files_with N fs1 (st00_extended st b m1) (order_file N ?fv @ order_records N (length (reverse_lookup_map st)) b)"
    "\<And>h. fm_writable (fs1, m1) h \<longleftrightarrow> fm_writable (fs, st00_manifest st) h
          \<and> length ?fv + length b < capacity st"
    by (rule append_hashes_result [OF Cons.prems(1) Cons.prems(2) [unfolded st00_files_def] Cons.prems(3) wf taking]) auto
  let ?st1 = "st00_extended st b m1"
  have files: "st00_files N fs1 ?st1"
    using r(3) order_file_extended [OF Cons.prems(1) dist, of b] by (simp add: st00_files_def)
  have open': "st00_open fs1 ?st1" using r(4) Cons.prems(3,6) by (simp add: st00_open_def)
  obtain fs2 m2 where IH: "feed_batches N (fs1, ?st1) bs = Inr (fs2, st00_extended ?st1 (concat bs) m2)"
    "st00_mem N (st00_extended ?st1 (concat bs) m2)" "st00_files N fs2 (st00_extended ?st1 (concat bs) m2)"
    "st00_open fs2 (st00_extended ?st1 (concat bs) m2)"
    using Cons.IH [OF r(2) files open'] Cons.prems(4-6) by auto
  have e: "st00_extended ?st1 (concat bs) m2 = st00_extended st (b @ concat bs) m2"
    by (simp add: st00_extended_def)
  show ?case using IH [unfolded e] r(1)
    by (intro exI [of _ fs2] exI [of _ m2]) (simp add: feed_batches_def)
qed

text \<open>Where a donut can be created: at a free place named after its offset.\<close>

definition free_place :: "nat \<Rightarrow> fs \<Rightarrow> path \<Rightarrow> nat \<Rightarrow> u64 \<Rightarrow> bool" where
  "free_place N fs obj cap w \<longleftrightarrow>
     fs_wf fs \<and> 8 * N + 7 < 2 ^ 64 \<and> 0 < cap \<and> cap \<le> ingester_donut_capacity
   \<and> object_folder_single_offset obj = Inr w \<and> unat w + cap < 2 ^ 64 - 1
   \<and> fs_node fs (obj @ [ST00]) = None
   \<and> list_all (\<lambda>n. case fs_node fs (take n obj) of Some (File _) \<Rightarrow> False | _ \<Rightarrow> True) [0..<Suc (length obj)]"

lemma mk_st00_free_place:
  assumes "free_place N fs obj cap w"
  obtains fs' st where "mk_st00 N fs obj cap = Inr (fs', st)" "st00_mem N st" "st00_files N fs' st"
    "st00_open fs' st" "forward_lookup_vector st = []" "capacity st = cap"
    "first_global_pi st = GlobalPi w" "object_path st = obj" "st00_path st = obj @ [ST00]"
proof -
  have files: "fs_node fs q \<noteq> Some (File c)" if "prefix q obj" for q c
  proof
    assume q: "fs_node fs q = Some (File c)"
    have "q = take (length q) obj" "length q \<le> length obj"
      using that by (auto simp: prefix_def)
    then have "case fs_node fs (take (length q) obj) of Some (File _) \<Rightarrow> False | _ \<Rightarrow> True"
      using assms unfolding free_place_def list_all_iff
      by (metis (no_types, lifting) atLeastLessThan_iff le_imp_less_Suc set_upt zero_le)
    moreover have "fs_node fs (take (length q) obj) = Some (File c)"
      using q \<open>q = take (length q) obj\<close> by simp
    ultimately show False by simp
  qed
  show ?thesis
    using mk_st00_new [of fs cap N obj w, OF _ _ _ _ _ _ _ files] assms that
    by (auto simp: free_place_def ingester_donut_capacity_def)
qed

lemma first_batches_ok:
  assumes "free_place N fs obj cap w" "distinct (hashes_of (concat batches))"
    and "\<forall>h. Some h \<in> set (concat batches) \<longrightarrow> hash_wf N h" "length (concat batches) < cap"
  obtains s0 fs2 st2 where "mk_st00 N fs obj cap = Inr s0" "feed_batches N s0 batches = Inr (fs2, st2)"
    "st00_mem N st2" "st00_files N fs2 st2" "st00_open fs2 st2"
    "forward_lookup_vector st2 = concat batches" "capacity st2 = cap"
    "first_global_pi st2 = GlobalPi w" "object_path st2 = obj" "st00_path st2 = obj @ [ST00]"
proof -
  obtain fs' st where st: "mk_st00 N fs obj cap = Inr (fs', st)" "st00_mem N st" "st00_files N fs' st"
    "st00_open fs' st" "forward_lookup_vector st = []" "capacity st = cap"
    "first_global_pi st = GlobalPi w" "object_path st = obj" "st00_path st = obj @ [ST00]"
    by (rule mk_st00_free_place [OF assms(1)])
  show ?thesis
    using feed_batches_ok [OF st(2-4), of batches] st assms(2-4) that
    by (auto simp: hashes_of_def)
qed

lemma shutdown_files:
  assumes "st00_files_with N fs st ob"
  shows "fs_wf (st00_shutdown (fs, st))"
    "fs_node (st00_shutdown (fs, st)) (st00_path st @ [HASHES_ORDER_FILENAME]) = Some (File ob)"
    "suffix_file_path = Inr rel \<Longrightarrow> fs_node (st00_shutdown (fs, st)) (st00_path st @ rel) = Some (File
      (suffix_records N (dc_bytes_per_local_pi (donut_entries_calculator st)) 0 (forward_lookup_vector st)))"
  using assms flush_spec [of "(fs, st00_manifest st)"]
  by (auto simp: st00_files_with_def st00_shutdown_def destroy_manifest_def suffix_file_path_eq)

text \<open>A donut that is restarted from what it left on disk.\<close>

lemma restart_ok:
  assumes mem: "st00_mem N st" and files: "st00_files N fs st"
    and N: "8 * N + 7 < 2 ^ 64" and name: "object_folder_single_offset (object_path st) = Inr w"
    and first: "first_global_pi st = GlobalPi w" and path: "st00_path st = object_path st @ [ST00]"
  obtains st3 where "mk_st00 N (st00_shutdown (fs, st)) (object_path st) (capacity st) = Inr (st00_shutdown (fs, st), st3)"
    "st00_mem N st3" "st00_files N (st00_shutdown (fs, st)) st3"
    "forward_lookup_vector st3 = forward_lookup_vector st" "reverse_lookup_map st3 = reverse_lookup_map st"
    "capacity st3 = capacity st" "first_global_pi st3 = first_global_pi st"
    "fm_open_files_by_handle (st00_manifest st3) = []" "\<not> fm_finished_sealed (st00_manifest st3)"
proof -
  let ?rel = "[''HashEntries.bin'']" and ?fs = "st00_shutdown (fs, st)"
  note sh = shutdown_files [OF files [unfolded st00_files_def]]
  have m: "0 < capacity st" "capacity st \<le> 65535" "unat w + capacity st < 2 ^ 64 - 1"
    "length (forward_lookup_vector st) \<le> capacity st"
    "\<forall>h. Some h \<in> set (forward_lookup_vector st) \<longrightarrow> hash_wf N h"
    "calculate_bytes_per_local_pi (of_nat (capacity st)) = Inr (dc_bytes_per_local_pi (donut_entries_calculator st))"
    using mem first by (simp_all add: st00_mem_def ingester_donut_capacity_def)
  have "fs_node ?fs (object_path st @ [ST00] @ [HASHES_ORDER_FILENAME]) = Some (File (order_file N (forward_lookup_vector st)))"
    "fs_node ?fs (object_path st @ [ST00] @ ?rel) = Some (File
      (suffix_records N (dc_bytes_per_local_pi (donut_entries_calculator st)) 0 (forward_lookup_vector st)))"
    using sh(2) sh(3) [OF suffix_file_path_eq] path by simp_all
  from mk_st00_hydrated [OF sh(1) m(1,2) N name m(3-6) this(1) suffix_file_path_eq this(2)] mem first that
  show ?thesis by (auto simp: st00_mem_def)
qed

section \<open>Properties of the donuts\<close>

lemma free_place_example: "0 < cap \<Longrightarrow> cap \<le> 65535 \<Longrightarrow> free_place 1 [] [''Offset_0''] cap 0"
proof -
  assume cap: "0 < cap" "cap \<le> 65535"
  have "object_folder_single_offset [''Offset_0''] = Inr 0" by code_simp
  with cap show ?thesis
    by (simp add: free_place_def ingester_donut_capacity_def fs_node_def)
qed

text \<open>C14: appending is exact.  A donut created at a free place and fed batches of fresh hashes,
  fewer than its capacity in all, takes from the next batch exactly as many presentations as still
  fit, keeps all presentations in order and covers exactly their global indexes.\<close>

theorem append_hashes_takes_what_fits:
  assumes "free_place N fs obj cap w" "distinct (hashes_of (concat batches))"
    and "\<forall>h. Some h \<in> set (concat batches) \<union> set batch \<longrightarrow> hash_wf N h"
    and "length (concat batches) < cap"
  shows "\<exists>s0 s1 fs2 st2 taken. mk_st00 N fs obj cap = Inr s0 \<and> feed_batches N s0 batches = Inr s1
    \<and> append_hashes N s1 batch = Inr ((fs2, st2), taken)
    \<and> taken = min (length batch) (cap - length (concat batches))
    \<and> forward_lookup_vector st2 = concat batches @ take taken batch
    \<and> remaining_capacity st2 = cap - length (concat batches) - taken
    \<and> st00_first_offset st2 = GlobalPi w
    \<and> st00_next_offset st2 = GlobalPi (w + of_nat (length (concat batches) + taken))"
proof -
  obtain s0 fs2 st2 where s: "mk_st00 N fs obj cap = Inr s0" "feed_batches N s0 batches = Inr (fs2, st2)"
    "st00_mem N st2" "st00_files N fs2 st2" "st00_open fs2 st2"
    "forward_lookup_vector st2 = concat batches" "capacity st2 = cap" "first_global_pi st2 = GlobalPi w"
    by (rule first_batches_ok [OF assms(1,2) _ assms(4)]) (use assms(3) in auto)
  define taken where "taken = min (length batch) (cap - length (concat batches))"
  have t: "taken = min (length batch) (capacity st2 - length (forward_lookup_vector st2))"
    using s by (simp add: taken_def)
  have wf: "\<forall>h. Some h \<in> set batch \<longrightarrow> hash_wf N h" using assms(3) by blast
  obtain fs3 m where r: "append_hashes N (fs2, st2) batch = Inr ((fs3, st00_extended st2 (take taken batch) m), taken)"
    "st00_mem N (st00_extended st2 (take taken batch) m)"
    by (rule append_hashes_result [OF s(3) s(4) [unfolded st00_files_def] s(5) wf t])
  let ?st = "st00_extended st2 (take taken batch) m"
  have len: "length (take taken batch) = taken" by (simp add: taken_def)
  have "st00_next_offset ?st = gpi_at (GlobalPi w) (length (concat batches) + taken)"
    using st00_next_offset_eq [OF r(2)] s(6,8) len by (simp add: st00_first_offset_def)
  then have "st00_next_offset ?st = GlobalPi (w + of_nat (length (concat batches) + taken))"
    by (simp add: gpi_at_def)
  moreover have "remaining_capacity ?st = cap - length (concat batches) - taken"
    using st00_memD(7) [OF r(2)] s(6,7) len by simp
  ultimately show ?thesis using s r(1) taken_def by (auto simp: st00_first_offset_def)
qed

lemma append_hashes_takes_what_fits_witness:
  "\<exists>s0 s1 fs2 st2. mk_st00 1 [] [''Offset_0''] 3 = Inr s0 \<and> feed_batches 1 s0 [[Some [7], None]] = Inr s1
    \<and> append_hashes 1 s1 [Some [8], Some [9], None] = Inr ((fs2, st2), 1)
    \<and> forward_lookup_vector st2 = [Some [7], None, Some [8]]"
  using append_hashes_takes_what_fits [OF free_place_example, of 3 "[[Some [7], None]]" "[Some [8], Some [9], None]"]
  by (auto simp: hash_wf_def hashes_of_def)

text \<open>C15: a donut answers from memory what was presented to it.  After any batches (with
  repetitions or not, as far as they fit in one), the reverse lookup of a hash gives no match
  exactly when the hash was not presented, and otherwise the global index of its earliest
  presentation, at which the forward lookup finds the hash again.\<close>

theorem donut_lookups_exact:
  assumes "free_place N fs obj cap w" "\<forall>h. Some h \<in> set batch \<longrightarrow> hash_wf N h"
    and "mk_st00 N fs obj cap = Inr s0" "append_hashes N s0 batch = Inr ((fs1, st), taken)"
  shows "(st00_reverse_lookup st h = GLOBAL_PI_NO_MATCH) = (Some h \<notin> set (take taken batch))
    \<and> (\<forall>i < taken. batch ! i = Some h \<longrightarrow> Some h \<notin> set (take i batch) \<longrightarrow>
          st00_reverse_lookup st h = gpi_at (GlobalPi w) i)
    \<and> (\<forall>i < taken. st00_forward_lookup st (gpi_at (GlobalPi w) i) = Inr (batch ! i))"
proof -
  obtain fs0 st0 where st0: "s0 = (fs0, st0)" "st00_mem N st0" "st00_files N fs0 st0" "st00_open fs0 st0"
    "forward_lookup_vector st0 = []" "capacity st0 = cap" "first_global_pi st0 = GlobalPi w"
    using mk_st00_free_place [OF assms(1)] assms(3) by (metis sum.inject(2))
  obtain m where r: "st = st00_extended st0 (take taken batch) m" "st00_mem N st"
    "taken = min (length batch) (cap - 0)"
    using append_hashes_result [OF st0(2) st0(3) [unfolded st00_files_def] st0(4) assms(2) refl] assms(4) st0
    by auto
  have fv: "forward_lookup_vector st = take taken batch" "length (take taken batch) = taken"
    and first: "st00_first_offset st = GlobalPi w"
    using r st0 by (simp_all add: st00_first_offset_def)
  have "st00_reverse_lookup st h = gpi_at (GlobalPi w) i"
    if "i < taken" "batch ! i = Some h" "Some h \<notin> set (take i batch)" for i
    using donut.reverse_earliest [OF r(2), of i h] that fv r(3)
    by (simp add: first in_set_conv_nth)
  moreover have "st00_forward_lookup st (gpi_at (GlobalPi w) i) = Inr (batch ! i)" if "i < taken" for i
    using donut.forward_at [OF r(2), of i] that fv by (simp add: first)
  ultimately show ?thesis using donut.reverse_no_match_iff [OF r(2), of h] fv by simp
qed

lemma donut_lookups_exact_witness:
  "\<exists>fs0 st0 fs1 st. mk_st00 1 [] [''Offset_0''] 3 = Inr (fs0, st0)
    \<and> append_hashes 1 (fs0, st0) [None, Some [8], Some [8]] = Inr ((fs1, st), 3)
    \<and> st00_reverse_lookup st [8] = GlobalPi 1 \<and> st00_reverse_lookup st [9] = GLOBAL_PI_NO_MATCH"
proof -
  let ?b = "[None, Some [8], Some [8]] :: hash option list"
  have fp: "free_place 1 [] [''Offset_0''] 3 0" by (rule free_place_example) simp_all
  have wf: "\<forall>h. Some h \<in> set ?b \<longrightarrow> hash_wf 1 h" by (simp add: hash_wf_def)
  obtain fs0 st0 where st0: "mk_st00 1 [] [''Offset_0''] 3 = Inr (fs0, st0)" "st00_mem 1 st0" "st00_files 1 fs0 st0"
    "st00_open fs0 st0" "forward_lookup_vector st0 = []" "capacity st0 = 3"
    by (rule mk_st00_free_place [OF fp])
  have "3 = min (length ?b) (capacity st0 - length (forward_lookup_vector st0))" using st0 by simp
  then obtain fs1 st where r: "append_hashes 1 (fs0, st0) ?b = Inr ((fs1, st), 3)"
    using append_hashes_result [OF st0(2) st0(3) [unfolded st00_files_def] st0(4) wf] by metis
  have "st00_reverse_lookup st [8] = gpi_at (GlobalPi 0) 1"
    using donut_lookups_exact [OF fp wf st0(1) r, of "[8]"] by (auto simp: less_Suc_eq numeral_3_eq_3)
  moreover have "st00_reverse_lookup st [9] = GLOBAL_PI_NO_MATCH"
    using donut_lookups_exact [OF fp wf st0(1) r, of "[9]"] by simp
  ultimately show ?thesis using st0(1) r by (auto simp: gpi_at_def)
qed

lemma append_entry_refused:
  assumes mem: "st00_mem N st" and wf: "\<forall>h. oh = Some h \<longrightarrow> hash_wf N h"
    and l: "al_local_pi_int s < capacity st"
    and len: "length (al_suffix_buffer s) = N + 2" "length (al_order_buffer s) = 2"
    and refused: "\<And>h bs. append_to_file (al_disk s) h bs = Inl e"
  shows "append_entry N st s oh = Inl e"
proof -
  let ?c = "donut_entries_calculator st" and ?n = "unat (gpi_int (first_global_pi st)) + al_local_pi_int s"
  note c = st00_memD [OF mem]
  have range: "?n < 2 ^ 64 - 1" using mem l by (simp add: st00_mem_def)
  show ?thesis
  proof (cases oh)
    case None
    have "write_hashes_order_file_entry N ?c None (of_nat (unat (NOT 0 :: u64))) 2 (al_order_buffer s) =
        Inr (2, order_record N 0 None (unat (NOT 0 :: u64)) 2)"
      using write_hashes_order_file_entry_eq [OF c(1), of None 2 "unat (NOT 0 :: u64)" "al_order_buffer s"] len c(6)
      by simp
    then show ?thesis using len c(5)
      by (simp add: append_entry_def None write_suffixes_file_entry_def Let_def refused)
  next
    case (Some h)
    have h: "hash_wf N h" using wf Some by simp
    let ?sr = "suffix_record N 0 (dc_bytes_per_local_pi ?c) h (al_local_pi_int s)"
    have "lpi_plus_gpi (LocalPi (of_nat (al_local_pi_int s))) (first_global_pi st) = GlobalPi (of_nat ?n)"
      using range by (subst lpi_plus_gpi_of_nat) (simp_all add: add.commute)
    moreover have "write_suffixes_file_entry N ?c (Some h) (GlobalPi (of_nat ?n)) (al_suffix_buffer s) =
        Inr (suffixes_entry_size ?c, ?sr @ drop (suffixes_entry_size ?c) (al_suffix_buffer s))"
      using c(2,5) len range by (intro write_suffixes_file_entry_eq [OF c(1) h]) simp_all
    moreover have "0 < suffixes_entry_size ?c"
      using c(3) l by (cases "dc_bytes_per_local_pi ?c") (auto simp: suffixes_entry_size_def)
    ultimately show ?thesis by (simp add: append_entry_def Some Let_def refused del: of_nat_add)
  qed
qed

lemma append_hashes_refused:
  assumes mem: "st00_mem N st" and wf: "\<forall>h. oh = Some h \<longrightarrow> hash_wf N h"
    and l: "length (forward_lookup_vector st) < capacity st"
    and refused: "\<And>h bs. append_to_file (fs, st00_manifest st) h bs = Inl e"
  shows "append_hashes N (fs, st) (oh # rest) = Inl e"
proof -
  note c = st00_memD [OF mem]
  obtain t where t: "min (length (oh # rest)) (remaining_capacity st) = Suc t"
    using l c(7) by (cases "min (length (oh # rest)) (remaining_capacity st)") auto
  have "append_entry N st \<lparr>al_disk = (fs, st00_manifest st),
      al_next_suffix_file_index = of_nat (length (reverse_lookup_map st)),
      al_local_pi_int = length (forward_lookup_vector st),
      al_suffix_buffer = replicate (N + 2) 0, al_order_buffer = replicate 2 0\<rparr> oh = Inl e"
    using l by (intro append_entry_refused [OF mem wf]) (simp_all add: refused)
  moreover have "replicate 2 (0 :: u8) = [0, 0]" by (simp add: numeral_2_eq_2)
  ultimately show ?thesis using c(5,6) unfolding append_hashes_def prod.case Let_def t by simp
qed

text \<open>C12: a restart loses nothing.  A donut is created, fed distinct hashes (with gaps) in any
  batches and destroyed; the constructor then rebuilds from the two files a donut that holds the
  same presentations and gives the same answer to every lookup.\<close>

theorem restart_preserves_lookups:
  assumes "free_place N fs obj cap w" "distinct (hashes_of (concat batches))"
    and "\<forall>h. Some h \<in> set (concat batches) \<longrightarrow> hash_wf N h" "length (concat batches) < cap"
  shows "\<exists>s0 fs2 st2 fs3 st3. mk_st00 N fs obj cap = Inr s0 \<and> feed_batches N s0 batches = Inr (fs2, st2)
    \<and> mk_st00 N (st00_shutdown (fs2, st2)) obj cap = Inr (fs3, st3)
    \<and> forward_lookup_vector st3 = concat batches
    \<and> (\<forall>h. st00_reverse_lookup st3 h = st00_reverse_lookup st2 h)
    \<and> (\<forall>g. st00_forward_lookup st3 g = st00_forward_lookup st2 g)
    \<and> remaining_capacity st3 = remaining_capacity st2"
proof -
  have w: "object_folder_single_offset obj = Inr w" "8 * N + 7 < 2 ^ 64" using assms(1) by (simp_all add: free_place_def)
  obtain s0 fs2 st2 where s: "mk_st00 N fs obj cap = Inr s0" "feed_batches N s0 batches = Inr (fs2, st2)"
    "st00_mem N st2" "st00_files N fs2 st2" "forward_lookup_vector st2 = concat batches" "capacity st2 = cap"
    "first_global_pi st2 = GlobalPi w" "object_path st2 = obj" "st00_path st2 = obj @ [ST00]"
    by (rule first_batches_ok [OF assms])
  obtain st3 where st3: "mk_st00 N (st00_shutdown (fs2, st2)) obj cap = Inr (st00_shutdown (fs2, st2), st3)"
    "forward_lookup_vector st3 = forward_lookup_vector st2" "reverse_lookup_map st3 = reverse_lookup_map st2"
    "capacity st3 = capacity st2" "first_global_pi st3 = first_global_pi st2"
    using restart_ok [OF s(3,4) w(2) _ s(7)] s(6,8,9) w(1) by metis
  have "st00_reverse_lookup st3 h = st00_reverse_lookup st2 h" "st00_forward_lookup st3 g = st00_forward_lookup st2 g"
    "remaining_capacity st3 = remaining_capacity st2" for h g
    using st3 by (simp_all add: st00_reverse_lookup_def st00_forward_lookup_def st00_first_offset_def
        st00_next_offset_def remaining_capacity_def split: option.split)
  then show ?thesis using s(1,2,5) st3(1,2) by auto
qed

lemma restart_preserves_lookups_witness:
  "\<exists>s0 fs2 st2 fs3 st3. mk_st00 1 [] [''Offset_0''] 5 = Inr s0
    \<and> feed_batches 1 s0 [[Some [7], None], [Some [8]]] = Inr (fs2, st2)
    \<and> mk_st00 1 (st00_shutdown (fs2, st2)) [''Offset_0''] 5 = Inr (fs3, st3)
    \<and> forward_lookup_vector st3 = [Some [7], None, Some [8]]"
  using restart_preserves_lookups [OF free_place_example, of 5 "[[Some [7], None], [Some [8]]]"]
  by (auto simp: hash_wf_def hashes_of_def)

text \<open>A donut that was rebuilt from disk cannot be continued.  Although the constructor is
  meant to leave the two files ready for appending, it never opens them: the first presentation
  appended to a rebuilt donut that is not full throws, whatever it is.\<close>

theorem rebuilt_donut_rejects_hashes:
  assumes "free_place N fs obj cap w" "distinct (hashes_of (concat batches))"
    and "\<forall>h. Some h \<in> set (concat batches) \<longrightarrow> hash_wf N h" "length (concat batches) < cap"
    and "batch \<noteq> []" "\<forall>h. Some h \<in> set batch \<longrightarrow> hash_wf N h"
  shows "\<exists>s0 s2 s3. mk_st00 N fs obj cap = Inr s0 \<and> feed_batches N s0 batches = Inr s2
    \<and> mk_st00 N (st00_shutdown s2) obj cap = Inr s3
    \<and> append_hashes N s3 batch = Inl (Runtime_Error ''append_to_file(): File is not open'')"
proof -
  have w: "object_folder_single_offset obj = Inr w" "8 * N + 7 < 2 ^ 64" using assms(1) by (simp_all add: free_place_def)
  obtain s0 fs2 st2 where s: "mk_st00 N fs obj cap = Inr s0" "feed_batches N s0 batches = Inr (fs2, st2)"
    "st00_mem N st2" "st00_files N fs2 st2" "forward_lookup_vector st2 = concat batches" "capacity st2 = cap"
    "first_global_pi st2 = GlobalPi w" "object_path st2 = obj" "st00_path st2 = obj @ [ST00]"
    by (rule first_batches_ok [OF assms(1-4)])
  let ?fs = "st00_shutdown (fs2, st2)"
  obtain st3 where st3: "mk_st00 N ?fs obj cap = Inr (?fs, st3)" "st00_mem N st3"
    "forward_lookup_vector st3 = forward_lookup_vector st2" "capacity st3 = capacity st2"
    "fm_open_files_by_handle (st00_manifest st3) = []" "\<not> fm_finished_sealed (st00_manifest st3)"
    using restart_ok [OF s(3,4) w(2) _ s(7)] s(6,8,9) w(1) by metis
  have refused: "append_to_file (?fs, st00_manifest st3) h bs =
      Inl (Runtime_Error ''append_to_file(): File is not open'')" for h bs
    using st3(5,6) by (simp add: append_to_file_def)
  obtain oh rest where batch: "batch = oh # rest" using assms(5) by (cases batch) auto
  have "append_hashes N (?fs, st3) batch = Inl (Runtime_Error ''append_to_file(): File is not open'')"
    unfolding batch using st3(3,4) s(5,6) assms(4,6) refused
    by (intro append_hashes_refused [OF st3(2)]) (auto simp: batch)
  then show ?thesis using s(1,2) st3(1) by blast
qed

lemma rebuilt_donut_rejects_hashes_witness:
  "\<exists>s0 s2 s3. mk_st00 1 [] [''Offset_0''] 5 = Inr s0 \<and> feed_batches 1 s0 [[Some [7]]] = Inr s2
    \<and> mk_st00 1 (st00_shutdown s2) [''Offset_0''] 5 = Inr s3
    \<and> append_hashes 1 s3 [Some [8]] = Inl (Runtime_Error ''append_to_file(): File is not open'')"
  using rebuilt_donut_rejects_hashes [OF free_place_example, of 5 "[[Some [7]]]" "[Some [8]]"]
  by (auto simp: hash_wf_def hashes_of_def)

lemma mk_st00_bad_index:
  assumes wf: "fs_wf fs" and cap: "0 < cap" "cap \<le> 65535" and N: "8 * N + 7 < 2 ^ 64"
    and name: "object_folder_single_offset obj = Inr w"
    and xs: "length xs \<le> cap" "\<forall>g. Some g \<in> set xs \<longrightarrow> hash_wf N g" "hash_wf N h"
    and k: "calculate_bytes_per_local_pi (of_nat cap) = Inr k"
    and order: "fs_node fs (obj @ [ST00] @ [HASHES_ORDER_FILENAME]) =
      Some (File (order_file N xs @ order_record N 0 (Some h) i 2))"
    and i: "i < count_hashes xs"
    and suffix: "suffix_file_path = Inr rel"
      "fs_node fs (obj @ [ST00] @ rel) = Some (File (suffix_records N k 0 xs @ rs))"
  shows "mk_st00 N fs obj cap = Inl (Assert_Failed
        ''hydrate_self_for_lookup(): Out-of-order suffix index encountered during sequential hydration'')"
proof -
  let ?p = "obj @ [ST00]"
  have rel: "rel \<noteq> []" using suffix(1) by (auto simp: suffix_file_path_eq)
  have dir: "fs_is_directory fs ?p" using fs_wf_node_parent [OF wf, of ?p rel] suffix(2) rel by simp
  then have ex: "fs_exists fs ?p" by (simp add: fs_is_directory_def fs_exists_def)
  obtain m where m: "mk_manifest fs ?p = Inr m" using mk_manifest_spec [OF wf dir] by blast
  obtain c where c: "mk_donut_calc N 0 (GlobalPi w) (of_nat cap) = Inr c" "calc_ok N 0 c"
    "calculate_bytes_per_local_pi (of_nat cap) = Inr (dc_bytes_per_local_pi c)"
    using donut_calc_exists [OF cap N] by blast
  have un: "unat (of_nat cap :: u64) = cap" using cap by (subst unat_of_nat) simp
  have fit: "length xs < 256 ^ dc_bytes_per_local_pi c"
  proof -
    have "cap < 256 ^ dc_bytes_per_local_pi c" using bytes_per_local_pi_fit(2) [OF c(3)] cap by (simp add: un)
    with xs(1) show ?thesis by simp
  qed
  define st0 where "st0 = \<lparr>forward_lookup_vector = [], reverse_lookup_map = [], capacity = cap,
     object_path = obj, first_global_pi = GlobalPi w, st00_path = ?p, st00_manifest = m,
     donut_entries_calculator = c, file_handle_hashes_order = 0, file_handle_suffix_entries = 0\<rparr>"
  have f: "donut_entries_calculator st0 = c" "st00_path st0 = ?p" "k = dc_bytes_per_local_pi c"
    using k c(3) by (simp_all add: st0_def)
  have i': "i < 65535" "i \<noteq> count_hashes xs" using i count_hashes_le [of xs] xs(1) cap(2) by simp_all
  have "hydrate_self_for_lookup N fs st0 = Inl (Assert_Failed
        ''hydrate_self_for_lookup(): Out-of-order suffix index encountered during sequential hydration'')"
    using c(2) fit xs cap order suffix i'
    by (intro hydrate_self_for_lookup_bad_index [where xs = xs and h = h and i = i and mr = "[]" and n = 0 and rs = rs])
       (simp_all add: f)
  then show ?thesis
    using m c(1) ex unfolding mk_st00_def name create_folder_if_needed_def suffix(1) rbind.simps Let_def
    by (simp add: st0_def)
qed

lemma length_insert_reverse_less:
  "\<not> distinct (hashes_of xs) \<Longrightarrow> length (insert_reverse l xs []) < count_hashes xs"
proof -
  assume d: "\<not> distinct (hashes_of xs)"
  let ?m = "insert_reverse l xs []"
  have k: "distinct (map fst ?m)" "set (map fst ?m) = set (hashes_of xs)"
    using insert_reverse_keys [of "[]" l xs] by simp_all
  have "length (map fst ?m) = card (set (hashes_of xs))" using k by (metis distinct_card)
  also have "\<dots> < length (hashes_of xs)"
    using d card_distinct card_length [of "hashes_of xs"] le_neq_implies_less by blast
  finally show ?thesis by (simp add: count_hashes_eq)
qed

text \<open>C13: repeated hashes break the restart.  The index of the next suffix record is taken from
  the number of different hashes, while every hash, repeated or not, writes a record.  So when a
  donut has taken a batch with a repeated hash and then one more hash, the files it leaves behind
  are rejected by the constructor.\<close>

theorem repeated_hash_breaks_restart:
  assumes "free_place N fs obj cap w" "\<not> distinct (hashes_of batch)"
    and "\<forall>h. Some h \<in> set batch \<longrightarrow> hash_wf N h" "hash_wf N h" "length batch < cap"
  shows "\<exists>s0 s2. mk_st00 N fs obj cap = Inr s0 \<and> feed_batches N s0 [batch, [Some h]] = Inr s2
    \<and> mk_st00 N (st00_shutdown s2) obj cap = Inl (Assert_Failed
        ''hydrate_self_for_lookup(): Out-of-order suffix index encountered during sequential hydration'')"
proof -
  have w: "object_folder_single_offset obj = Inr w" "8 * N + 7 < 2 ^ 64" "cap \<le> 65535"
    using assms(1) by (simp_all add: free_place_def ingester_donut_capacity_def)
  obtain fs0 st0 where s0: "mk_st00 N fs obj cap = Inr (fs0, st0)" "st00_mem N st0" "st00_files N fs0 st0"
    "st00_open fs0 st0" "forward_lookup_vector st0 = []" "capacity st0 = cap"
    "first_global_pi st0 = GlobalPi w" "object_path st0 = obj" "st00_path st0 = obj @ [ST00]"
    by (rule mk_st00_free_place [OF assms(1)])
  have t1: "length batch = min (length batch) (capacity st0 - length (forward_lookup_vector st0))"
    using assms(5) s0 by simp
  obtain fs1 m1 where r1: "append_hashes N (fs0, st0) batch = Inr ((fs1, st00_extended st0 batch m1), length batch)"
    "st00_mem N (st00_extended st0 batch m1)"
    "st00_files_with N fs1 (st00_extended st0 batch m1) (order_file N [] @ order_records N (length (reverse_lookup_map st0)) batch)"
    "\<And>h. fm_writable (fs1, m1) h \<longleftrightarrow> fm_writable (fs0, st00_manifest st0) h \<and> length batch < cap"
    by (rule append_hashes_result [OF s0(2) s0(3) [unfolded st00_files_def] s0(4) assms(3) t1]) (auto simp: s0)
  let ?st1 = "st00_extended st0 batch m1"
  have o1: "st00_open fs1 ?st1" using r1(4) s0(4) assms(5) by (simp add: st00_open_def)
  have "reverse_lookup_map st0 = []" using s0(2,5) by (simp add: st00_mem_def)
  then have f1: "st00_files_with N fs1 ?st1 (order_file N batch)"
    using r1(3) by (simp add: order_file_def)
  let ?i = "length (insert_reverse 0 batch [])"
  have t2: "1 = min (length [Some h]) (capacity ?st1 - length (forward_lookup_vector ?st1))"
    using assms(5) s0 by simp
  have wf1: "\<forall>g. Some g \<in> set [Some h] \<longrightarrow> hash_wf N g" using assms(4) by simp
  obtain fs2 m2 where r2: "append_hashes N (fs1, ?st1) [Some h] = Inr ((fs2, st00_extended ?st1 [Some h] m2), 1)"
    "st00_mem N (st00_extended ?st1 [Some h] m2)"
    "st00_files_with N fs2 (st00_extended ?st1 [Some h] m2) (order_file N batch @ order_records N ?i [Some h])"
    by (rule append_hashes_result [OF r1(2) f1 o1 wf1 t2]) (auto simp: s0)
  let ?st2 = "st00_extended ?st1 [Some h] m2"
  have fed: "feed_batches N (fs0, st0) [batch, [Some h]] = Inr (fs2, ?st2)"
    using r1(1) r2(1) by (simp add: feed_batches_def)
  have broken: "mk_st00 N (st00_shutdown (fs2, ?st2)) obj cap = Inl (Assert_Failed
        ''hydrate_self_for_lookup(): Out-of-order suffix index encountered during sequential hydration'')"
  proof (rule mk_st00_bad_index [where xs = batch and h = h and i = ?i])
    show "?i < count_hashes batch" by (rule length_insert_reverse_less [OF assms(2)])
  qed (use shutdown_files [OF r2(3)] s0 assms r2(2) suffix_file_path_eq w in \<open>auto simp: st00_mem_def suffix_records_append\<close>)
  show ?thesis using s0(1) fed broken by blast
qed

lemma repeated_hash_breaks_restart_witness:
  "\<exists>s0 s2. mk_st00 1 [] [''Offset_0''] 5 = Inr s0
    \<and> feed_batches 1 s0 [[Some [7], Some [7]], [Some [8]]] = Inr s2
    \<and> mk_st00 1 (st00_shutdown s2) [''Offset_0''] 5 = Inl (Assert_Failed
        ''hydrate_self_for_lookup(): Out-of-order suffix index encountered during sequential hydration'')"
  using repeated_hash_breaks_restart [OF free_place_example, of 5 "[Some [7], Some [7]]" "[8]"]
  by (auto simp: hash_wf_def hashes_of_def)

end
