(* ===== verification/Lookupable_Room.thy ===== *)
theory Lookupable_Room
  imports Buffer_Room Remainder_Donut
begin

text \<open>
  \<^verbatim>\<open>apps/wedding_cake/include/lookupable_buffer_room.hpp\<close>: the buffer room as something that
  can be searched.  The class is a template over the items; its definitions take the operations
  of the items as arguments, and the room of filled donuts is an instance.
\<close>

section \<open>The operations\<close>

definition lookupable_initialize_add :: "nat \<Rightarrow> 'd \<Rightarrow> 'd buffer_room \<Rightarrow> 'd buffer_room res" where
  "lookupable_initialize_add C donut r = InitializeAdd C donut r"

definition lookupable_feed :: "nat \<Rightarrow> 'd \<Rightarrow> 'd buffer_room \<Rightarrow> 'd buffer_room res" where
  "lookupable_feed C donut r = Feed C donut r"

definition lookupable_discard :: "'d buffer_room \<Rightarrow> 'd buffer_room res" where
  "lookupable_discard r = Discard r"

text \<open>\<open>empty()\<close> asks the buffer room for its \<open>empty()\<close>, a member that no version of it in the
  repository has: it is an argument here, and of everything that calls it.\<close>

definition lookupable_empty :: "('d buffer_room \<Rightarrow> bool) \<Rightarrow> 'd buffer_room \<Rightarrow> bool" where
  "lookupable_empty buffer_empty r = buffer_empty r"

definition room_first_offset :: "('d \<Rightarrow> global_pi) \<Rightarrow> 'd buffer_room \<Rightarrow> global_pi res" where
  "room_first_offset first r =
     (case with_current_contents (\<lambda>donuts.
        if donuts = [] then Inl (Assert_Failed ''Please don't ask an empty buffer room for first_offset'')
        else Inr (first (hd donuts))) r of
        (_, Some result) \<Rightarrow> result
      | (_, None) \<Rightarrow> Inr GLOBAL_PI_NO_MATCH)"

definition room_next_offset :: "('d \<Rightarrow> global_pi) \<Rightarrow> 'd buffer_room \<Rightarrow> global_pi res" where
  "room_next_offset next_of r =
     (case with_current_contents (\<lambda>donuts.
        if donuts = [] then Inl (Assert_Failed ''Please don't ask an empty buffer room for next_offset'')
        else Inr (next_of (last donuts))) r of
        (_, Some result) \<Rightarrow> result
      | (_, None) \<Rightarrow> Inr GLOBAL_PI_NO_MATCH)"

fun search_forward :: "('d \<Rightarrow> global_pi) \<Rightarrow> ('d \<Rightarrow> global_pi) \<Rightarrow> ('d \<Rightarrow> global_pi \<Rightarrow> hash option res)
    \<Rightarrow> global_pi \<Rightarrow> 'd list \<Rightarrow> hash option option res" where
  "search_forward first next_of forward g [] = Inr None"
| "search_forward first next_of forward g (donut # donuts) =
     (if contains_pi (first donut) (next_of donut) g
      then rbind (forward donut g) (\<lambda>result. Inr (Some result))
      else search_forward first next_of forward g donuts)"

definition room_forward_lookup :: "('d \<Rightarrow> global_pi) \<Rightarrow> ('d \<Rightarrow> global_pi) \<Rightarrow>
    ('d \<Rightarrow> global_pi \<Rightarrow> hash option res) \<Rightarrow> 'd buffer_room \<Rightarrow> global_pi \<Rightarrow> hash option res" where
  "room_forward_lookup first next_of forward r g =
     rbind (room_first_offset first r) (\<lambda>f.
     rbind (room_next_offset next_of r) (\<lambda>n.
     if \<not> contains_pi f n g then Inl (Assert_Failed ''Parent should have checked bounds'')
     else case with_current_contents (\<lambda>donuts. search_forward first next_of forward g (rev donuts)) r of
       (_, None) \<Rightarrow> Inl (Assert_Failed ''Why wasn't global_pi represented by a child?'')
     | (_, Some search) \<Rightarrow> rbind search (\<lambda>found. case found of
         None \<Rightarrow> Inl (Assert_Failed ''Why wasn't global_pi represented by a child?'')
       | Some result \<Rightarrow> Inr result)))"

fun search_reverse :: "('d \<Rightarrow> hash \<Rightarrow> global_pi) \<Rightarrow> hash \<Rightarrow> 'd list \<Rightarrow> global_pi" where
  "search_reverse reverse h [] = GLOBAL_PI_NO_MATCH"
| "search_reverse reverse h (donut # donuts) =
     (let result = reverse donut h in
      if result \<noteq> GLOBAL_PI_NO_MATCH then result else search_reverse reverse h donuts)"

definition room_reverse_lookup :: "('d \<Rightarrow> hash \<Rightarrow> global_pi) \<Rightarrow> 'd buffer_room \<Rightarrow> hash \<Rightarrow> global_pi" where
  "room_reverse_lookup reverse r h =
     (case with_current_contents (search_reverse reverse h) r of
        (_, Some result) \<Rightarrow> result
      | (_, None) \<Rightarrow> GLOBAL_PI_NO_MATCH)"

section \<open>Items that follow each other\<close>

text \<open>The items of a room are well formed and each starts where the one before it ends.\<close>

fun contiguous :: "('d \<Rightarrow> bool) \<Rightarrow> ('d \<Rightarrow> global_pi) \<Rightarrow> ('d \<Rightarrow> global_pi) \<Rightarrow> global_pi \<Rightarrow> 'd list \<Rightarrow> bool" where
  "contiguous okd first next_of g [] = True"
| "contiguous okd first next_of g (d # ds) =
     (okd d \<and> first d = g \<and> contiguous okd first next_of (next_of d) ds)"

lemma contiguous_append:
  "contiguous okd first next_of g (ds @ [d]) \<longleftrightarrow> contiguous okd first next_of g ds \<and> okd d
     \<and> first d = (if ds = [] then g else next_of (last ds))"
  by (induction ds arbitrary: g) auto

lemma contiguous_all: "contiguous okd first next_of g ds \<Longrightarrow> d \<in> set ds \<Longrightarrow> okd d"
  by (induction ds arbitrary: g) auto

definition room_ok :: "('d \<Rightarrow> bool) \<Rightarrow> ('d \<Rightarrow> hash option list) \<Rightarrow> ('d \<Rightarrow> global_pi) \<Rightarrow>
    ('d \<Rightarrow> global_pi) \<Rightarrow> 'd buffer_room \<Rightarrow> bool" where
  "room_ok okd entries_of first next_of r \<longleftrightarrow>
     \<not> is_discarding r \<and> items r \<noteq> []
   \<and> contiguous okd first next_of (first (hd (items r))) (items r)
   \<and> unat (gpi_int (first (hd (items r)))) + length (concat (map entries_of (items r))) < 2 ^ 64 - 1"

definition room_entries :: "('d \<Rightarrow> hash option list) \<Rightarrow> 'd buffer_room \<Rightarrow> hash option list" where
  "room_entries entries_of r = concat (map entries_of (items r))"

lemma with_open_contents:
  "\<not> is_discarding r \<Longrightarrow> with_current_contents f r = (r, Some (f (items r)))"
  by (simp add: with_current_contents_def reader_enter_def reader_exit_def Let_def)

context range_bounded
begin

lemma next_of_contiguous:
  "contiguous ok first_offset next_offset g ds \<Longrightarrow> ds \<noteq> [] \<Longrightarrow>
    next_offset (last ds) = gpi_at g (length (concat (map entries ds)))"
proof (induction ds rule: rev_induct)
  case (snoc d ds)
  then have d: "ok d" "next_offset d = gpi_at (first_offset d) (length (entries d))"
    using next_offset by (auto simp: contiguous_append)
  show ?case
    using snoc d by (cases "ds = []") (auto simp: contiguous_append gpi_at_plus)
qed simp

lemma first_of_snoc:
  assumes "contiguous ok first_offset next_offset g (ds @ [d])"
  shows "first_offset d = gpi_at g (length (concat (map entries ds)))"
  using assms next_of_contiguous [of g ds] by (cases "ds = []") (auto simp: contiguous_append)

lemma room_offsets:
  assumes "room_ok ok entries first_offset next_offset r"
  shows "room_first_offset first_offset r = Inr (first_offset (hd (items r)))"
    "room_next_offset next_offset r =
      Inr (gpi_at (first_offset (hd (items r))) (length (room_entries entries r)))"
  using assms next_of_contiguous
  by (auto simp: room_ok_def room_first_offset_def room_next_offset_def with_open_contents room_entries_def)

end

context lookupable
begin

lemma search_forward_contiguous:
  assumes "contiguous ok first_offset next_offset g ds"
    and "unat (gpi_int g) + length (concat (map entries ds)) < 2 ^ 64 - 1"
    and "i < length (concat (map entries ds))"
  shows "search_forward first_offset next_offset forward_lookup (gpi_at g i) (rev ds)
    = Inr (Some (concat (map entries ds) ! i))"
  using assms
proof (induction ds rule: rev_induct)
  case (snoc d ds)
  let ?n = "length (concat (map entries ds))"
  have d: "ok d" and ds: "contiguous ok first_offset next_offset g ds"
    using snoc.prems(1) by (simp_all add: contiguous_append)
  have first: "first_offset d = gpi_at g ?n" by (rule first_of_snoc [OF snoc.prems(1)])
  have contains: "contains_pi (first_offset d) (next_offset d) (gpi_at g i) \<longleftrightarrow> ?n \<le> i"
  proof -
    have "contains_pi (first_offset d) (next_offset d) (gpi_at g i)
        \<longleftrightarrow> (\<exists>j < length (entries d). gpi_at g i = gpi_at g (?n + j))"
      unfolding contains_iff [OF d] unfolding first gpi_at_plus ..
    also have "\<dots> \<longleftrightarrow> (\<exists>j < length (entries d). i = ?n + j)"
      using snoc.prems(2,3) by (auto simp: gpi_at_inject)
    also have "\<dots> \<longleftrightarrow> ?n \<le> i"
      using snoc.prems(3) by (auto simp: le_iff_add)
    finally show ?thesis .
  qed
  show ?case
  proof (cases "?n \<le> i")
    case True
    then have "gpi_at g i = gpi_at (first_offset d) (i - ?n)" by (simp add: first gpi_at_plus)
    moreover have "i - ?n < length (entries d)" using snoc.prems(3) True by simp
    ultimately have "forward_lookup d (gpi_at g i) = Inr (entries d ! (i - ?n))"
      using forward_at [OF d] by metis
    then show ?thesis using True contains by (simp add: nth_append)
  next
    case False
    then show ?thesis using snoc.IH [OF ds] snoc.prems(2) contains by (simp add: nth_append)
  qed
qed simp

lemma room_forward_at:
  assumes "room_ok ok entries first_offset next_offset r" "i < length (room_entries entries r)"
  shows "room_forward_lookup first_offset next_offset forward_lookup r (gpi_at (first_offset (hd (items r))) i)
    = Inr (room_entries entries r ! i)"
proof -
  let ?f = "first_offset (hd (items r))"
  have r: "\<not> is_discarding r" "contiguous ok first_offset next_offset ?f (items r)"
    "unat (gpi_int ?f) + length (concat (map entries (items r))) < 2 ^ 64 - 1"
    using assms(1) by (simp_all add: room_ok_def)
  have "contains_pi ?f (gpi_at ?f (length (room_entries entries r))) (gpi_at ?f i)"
    using r(3) assms(2) by (subst contains_pi_range) (auto simp: room_entries_def)
  then show ?thesis
    using search_forward_contiguous [OF r(2,3)] assms(2) r(1)
    by (simp add: room_forward_lookup_def room_offsets [OF assms(1)] with_open_contents room_entries_def)
qed

end

context earliest_lookupable
begin

lemma search_reverse_absent:
  "contiguous ok first_offset next_offset g ds \<Longrightarrow> Some h \<notin> set (concat (map entries ds)) \<Longrightarrow>
    search_reverse reverse_lookup h ds = GLOBAL_PI_NO_MATCH"
  by (induction ds arbitrary: g) (auto simp: reverse_absent)

lemma search_reverse_first:
  assumes "contiguous ok first_offset next_offset g ds"
    and "i < length (concat (map entries ds))" "concat (map entries ds) ! i = Some h"
    and "\<And>j. j < i \<Longrightarrow> concat (map entries ds) ! j \<noteq> Some h"
  shows "search_reverse reverse_lookup h ds = gpi_at g i"
  using assms
proof (induction ds arbitrary: g i)
  case (Cons d ds)
  have d: "ok d" "first_offset d = g" "contiguous ok first_offset next_offset (next_offset d) ds"
    using Cons.prems(1) by simp_all
  let ?n = "length (entries d)"
  show ?case
  proof (cases "i < ?n")
    case True
    have "reverse_lookup d h = gpi_at g i"
      unfolding d(2) [symmetric]
    proof (rule reverse_earliest [OF d(1) True])
      show "entries d ! i = Some h" using Cons.prems(3) True by (simp add: nth_append)
      show "entries d ! j \<noteq> Some h" if "j < i" for j
        using Cons.prems(4) [OF that] True that by (simp add: nth_append)
    qed
    moreover have "gpi_at g i \<noteq> GLOBAL_PI_NO_MATCH"
      using index_not_no_match [OF d(1) True] d(2) by simp
    ultimately show ?thesis by simp
  next
    case False
    have "Some h \<notin> set (entries d)"
    proof
      assume "Some h \<in> set (entries d)"
      then obtain j where "j < ?n" "entries d ! j = Some h" by (auto simp: in_set_conv_nth)
      then show False using Cons.prems(4) [of j] False by (simp add: nth_append)
    qed
    then have "reverse_lookup d h = GLOBAL_PI_NO_MATCH" by (rule reverse_absent [OF d(1)])
    moreover have "search_reverse reverse_lookup h ds = gpi_at (next_offset d) (i - ?n)"
    proof (rule Cons.IH [OF d(3)])
      show "i - ?n < length (concat (map entries ds))" using Cons.prems(2) False by simp
      show "concat (map entries ds) ! (i - ?n) = Some h"
        using Cons.prems(3) False by (simp add: nth_append)
      show "concat (map entries ds) ! j \<noteq> Some h" if "j < i - ?n" for j
        using Cons.prems(4) [of "?n + j"] that by (simp add: nth_append)
    qed
    moreover have "gpi_at (next_offset d) (i - ?n) = gpi_at g i"
      using next_offset [OF d(1)] d(2) False by (simp add: gpi_at_plus)
    ultimately show ?thesis by simp
  qed
qed simp

end

section \<open>The room of filled donuts\<close>

definition st01_room_ok :: "nat \<Rightarrow> st01 buffer_room \<Rightarrow> bool" where
  "st01_room_ok N = room_ok (st01_mem N) st01_entries st01_first_offset st01_next_offset"

definition st01_room_first_offset :: "st01 buffer_room \<Rightarrow> global_pi res" where
  "st01_room_first_offset = room_first_offset st01_first_offset"

definition st01_room_next_offset :: "st01 buffer_room \<Rightarrow> global_pi res" where
  "st01_room_next_offset = room_next_offset st01_next_offset"

definition st01_room_forward_lookup :: "st01 buffer_room \<Rightarrow> global_pi \<Rightarrow> hash option res" where
  "st01_room_forward_lookup = room_forward_lookup st01_first_offset st01_next_offset st01_forward_lookup"

definition st01_room_reverse_lookup :: "st01 buffer_room \<Rightarrow> hash \<Rightarrow> global_pi" where
  "st01_room_reverse_lookup = room_reverse_lookup st01_reverse_lookup"

fun value_of :: "global_pi res \<Rightarrow> global_pi" where
  "value_of (Inr g) = g"
| "value_of (Inl _) = GLOBAL_PI_NO_MATCH"

lemma st01_room_offsets:
  assumes "st01_room_ok N r"
  shows "st01_room_first_offset r = Inr (st01_first_offset (hd (items r)))"
    "st01_room_next_offset r = Inr (gpi_at (st01_first_offset (hd (items r))) (length (room_entries st01_entries r)))"
  using filled.room_offsets [of N r] assms
  by (simp_all add: st01_room_ok_def st01_room_first_offset_def st01_room_next_offset_def)

lemma st01_room_reverse_absent:
  assumes "st01_room_ok N r" "Some h \<notin> set (room_entries st01_entries r)"
  shows "st01_room_reverse_lookup r h = GLOBAL_PI_NO_MATCH"
  using assms filled.search_reverse_absent [of N "st01_first_offset (hd (items r))" "items r" h]
  by (simp add: st01_room_ok_def room_ok_def room_entries_def st01_room_reverse_lookup_def
      room_reverse_lookup_def with_open_contents)

lemma st01_room_reverse_first:
  assumes "st01_room_ok N r" "i < length (room_entries st01_entries r)"
    and "room_entries st01_entries r ! i = Some h"
    and "\<And>j. j < i \<Longrightarrow> room_entries st01_entries r ! j \<noteq> Some h"
  shows "st01_room_reverse_lookup r h = gpi_at (st01_first_offset (hd (items r))) i"
  using assms filled.search_reverse_first [of N "st01_first_offset (hd (items r))" "items r" i h]
  by (simp add: st01_room_ok_def room_ok_def room_entries_def st01_room_reverse_lookup_def
      room_reverse_lookup_def with_open_contents)

lemma first_index:
  assumes "x \<in> set xs"
  shows "\<exists>i < length xs. xs ! i = x \<and> (\<forall>j < i. xs ! j \<noteq> x)"
proof -
  obtain ys zs where "xs = ys @ x # zs" "x \<notin> set ys" using split_list_first [OF assms] by blast
  then show ?thesis by (intro exI [of _ "length ys"]) (auto simp: nth_append in_set_conv_nth)
qed

text \<open>A room of donuts that follow each other keeps the contract of a single donut.\<close>

interpretation donut_room: earliest_lookupable "st01_room_ok N" "room_entries st01_entries"
  "\<lambda>r. value_of (st01_room_first_offset r)" "\<lambda>r. value_of (st01_room_next_offset r)"
  st01_room_forward_lookup st01_room_reverse_lookup
  for N
proof
  fix r h i
  assume ok: "st01_room_ok N r"
  note off = st01_room_offsets [OF ok]
  show "unat (gpi_int (value_of (st01_room_first_offset r))) + length (room_entries st01_entries r) < 2 ^ 64 - 1"
    using ok by (simp add: off st01_room_ok_def room_ok_def room_entries_def)
  show "value_of (st01_room_next_offset r) =
      gpi_at (value_of (st01_room_first_offset r)) (length (room_entries st01_entries r))"
    by (simp add: off)
  show "st01_room_forward_lookup r (gpi_at (value_of (st01_room_first_offset r)) i) =
      Inr (room_entries st01_entries r ! i)" if "i < length (room_entries st01_entries r)"
    using filled.room_forward_at [of N r i] ok that
    by (simp add: off st01_room_ok_def st01_room_forward_lookup_def)
  show "st01_room_reverse_lookup r h = GLOBAL_PI_NO_MATCH" if "Some h \<notin> set (room_entries st01_entries r)"
    using st01_room_reverse_absent [OF ok that] .
  show "\<exists>i<length (room_entries st01_entries r). room_entries st01_entries r ! i = Some h \<and>
      st01_room_reverse_lookup r h = gpi_at (value_of (st01_room_first_offset r)) i"
    if h: "Some h \<in> set (room_entries st01_entries r)"
    using first_index [OF h] st01_room_reverse_first [OF ok, of _ h] by (auto simp: off)
  show "st01_room_reverse_lookup r h = gpi_at (value_of (st01_room_first_offset r)) i"
    if "i < length (room_entries st01_entries r)" "room_entries st01_entries r ! i = Some h"
      "\<And>j. j < i \<Longrightarrow> room_entries st01_entries r ! j \<noteq> Some h"
    using st01_room_reverse_first [OF ok that] by (simp add: off)
qed

text \<open>C33: A room of filled donuts that follow each other answers like one donut with all their
  presentations: it covers exactly their range, the forward lookup returns what was presented at
  an index and refuses indexes out of range, and the reverse lookup returns the earliest
  presentation of a hash, or no match when there is none.\<close>

theorem room_lookups_exact:
  assumes "st01_room_ok N r"
  defines "xs \<equiv> room_entries st01_entries r" and "f \<equiv> st01_first_offset (hd (items r))"
  shows "st01_room_first_offset r = Inr f \<and> st01_room_next_offset r = Inr (gpi_at f (length xs))
    \<and> (\<forall>i. i < length xs \<longrightarrow> st01_room_forward_lookup r (gpi_at f i) = Inr (xs ! i))
    \<and> (\<forall>g. (\<forall>i < length xs. g \<noteq> gpi_at f i) \<longrightarrow>
          st01_room_forward_lookup r g = Inl (Assert_Failed ''Parent should have checked bounds''))
    \<and> (\<forall>h. Some h \<notin> set xs \<longrightarrow> st01_room_reverse_lookup r h = GLOBAL_PI_NO_MATCH)
    \<and> (\<forall>i h. i < length xs \<and> xs ! i = Some h \<and> (\<forall>j < i. xs ! j \<noteq> Some h) \<longrightarrow>
          st01_room_reverse_lookup r h = gpi_at f i)"
proof (intro conjI allI impI)
  note off = st01_room_offsets [OF assms(1), folded xs_def f_def]
  show "st01_room_first_offset r = Inr f" "st01_room_next_offset r = Inr (gpi_at f (length xs))"
    by (rule off)+
  show "st01_room_forward_lookup r (gpi_at f i) = Inr (xs ! i)" if "i < length xs" for i
    using donut_room.forward_at [OF assms(1)] that by (simp add: off xs_def)
  show "st01_room_forward_lookup r g = Inl (Assert_Failed ''Parent should have checked bounds'')"
    if "\<forall>i < length xs. g \<noteq> gpi_at f i" for g
  proof -
    have "\<not> contains_pi f (gpi_at f (length xs)) g"
      using donut_room.contains_iff [OF assms(1), of g] that by (simp add: off xs_def [symmetric])
    then show ?thesis
      using off by (simp add: st01_room_forward_lookup_def room_forward_lookup_def
          st01_room_first_offset_def st01_room_next_offset_def)
  qed
  show "st01_room_reverse_lookup r h = GLOBAL_PI_NO_MATCH" if "Some h \<notin> set xs" for h
    using donut_room.reverse_absent [OF assms(1)] that by (simp add: xs_def)
  show "st01_room_reverse_lookup r h = gpi_at f i"
    if "i < length xs \<and> xs ! i = Some h \<and> (\<forall>j < i. xs ! j \<noteq> Some h)" for i h
    using donut_room.reverse_earliest [OF assms(1), of i h] that by (simp add: off xs_def)
qed

definition example_donut :: "manifest \<Rightarrow> u64 \<Rightarrow> hash option list \<Rightarrow> st01" where
  "example_donut m w xs =
     \<lparr>prior_ST00 = \<lparr>forward_lookup_vector = xs, reverse_lookup_map = insert_reverse 0 xs [],
        capacity = 2, object_path = [], first_global_pi = GlobalPi w, st00_path = [ST00], st00_manifest = m,
        donut_entries_calculator = \<lparr>dc_prefix_bits_count = 0, dc_suffix_bits_count = 8,
          dc_prefix_bytes_count = 0, dc_suffix_bytes_count = 1, dc_first_global_pi = GlobalPi w,
          dc_entries_per_donut = 2, dc_bytes_per_local_pi = 1\<rparr>,
        file_handle_hashes_order = 1, file_handle_suffix_entries = 2\<rparr>, st01_path = [ST01]\<rparr>"

lemma example_donut_mem:
  assumes "length xs \<le> 2" "unat w < 1000" "\<forall>h. Some h \<in> set xs \<longrightarrow> length h = 1"
  shows "st01_mem 1 (example_donut m w xs)"
proof -
  have "calculate_bytes_per_local_pi 2 = Inr 1" by code_simp
  then show ?thesis
    using assms by (simp add: example_donut_def st01_mem_def st00_mem_def calc_ok_def hash_wf_def
        ingester_donut_capacity_def)
qed

theorem room_lookups_exact_witness:
  "\<exists>r. st01_room_ok 1 r \<and> length (items r) = 2
     \<and> st01_room_forward_lookup r (GlobalPi 2) = Inr (Some [8])
     \<and> st01_room_reverse_lookup r [7] = GlobalPi 0"
proof -
  fix m :: manifest
  let ?d = "\<lambda>w xs. example_donut m w xs"
  let ?r = "\<lparr>items = [?d 0 [Some [7], None], ?d 2 [Some [8], Some [7]]], active_readers = 0,
    is_discarding = False\<rparr>"
  have entries: "room_entries st01_entries ?r = [Some [7], None, Some [8], Some [7]]"
    by (simp add: room_entries_def st01_entries_def example_donut_def)
  have first: "st01_first_offset (hd (items ?r)) = GlobalPi 0"
    by (simp add: st01_first_offset_def st00_first_offset_def example_donut_def)
  have next': "st01_next_offset (?d 0 [Some [7], None]) = GlobalPi 2"
    "st01_first_offset (?d 2 [Some [8], Some [7]]) = GlobalPi 2"
    by (simp_all add: st01_next_offset_def st00_next_offset_def st01_first_offset_def
        st00_first_offset_def example_donut_def gpi_plus_lpi_def lpi_plus_gpi_def
        LOCAL_PI_NO_MATCH_def GLOBAL_PI_NO_MATCH_def PI_NO_MATCH_VAL_def)
  have ok: "st01_room_ok 1 ?r"
    using first next' entries
      example_donut_mem [of "[Some [7], None]" 0 m] example_donut_mem [of "[Some [8], Some [7]]" 2 m]
    by (simp add: st01_room_ok_def room_ok_def room_entries_def)
  note * = room_lookups_exact [OF ok, unfolded entries first]
  have "st01_room_forward_lookup ?r (gpi_at (GlobalPi 0) 2) = Inr (Some [8])"
    using * by force
  moreover have "st01_room_reverse_lookup ?r [7] = gpi_at (GlobalPi 0) 0"
    using conjunct2 [OF conjunct2 [OF conjunct2 [OF conjunct2 [OF conjunct2 [OF *]]]],
        THEN spec, of 0, THEN spec, of "[7]"]
    by simp
  ultimately show ?thesis using ok by (intro exI [of _ ?r]) (simp add: gpi_at_def)
qed

end
