(* ===== verification/Ingester_Buffer.thy ===== *)
theory Ingester_Buffer
  imports Lookup
begin

text \<open>
  \<^verbatim>\<open>apps/wedding_cake/include/ingester_buffer.hpp\<close>: the buffer in memory between the clients
  that feed blocks of hashes and the worker that writes them to the donuts.  All its operations
  run under one mutex, so each is one step; a wait whose predicate is false is the fault
  \<open>Blocked\<close>, and \<open>flush\<close>, which waits in its middle, is split at the wait.
\<close>

section \<open>The state and its operations\<close>

record ingester_buffer =
  downstream_remaining_capacity :: nat
  ram_buffer :: "hash option list"
  ram_reverse_lookup_map :: "hash \<rightharpoonup> local_pi"
  ram_first_global_pi :: global_pi
  please_flush :: bool
  stopping :: bool

definition mk_ingester_buffer :: "nat \<Rightarrow> global_pi \<Rightarrow> ingester_buffer res" where
  "mk_ingester_buffer initial_downstream_remaining_capacity initial_first_global_pi =
     (if \<not> initial_downstream_remaining_capacity > 0
      then Inl (Assert_Failed ''IngestorBuffer: We should always find some downstream capacity at startup'')
      else Inr \<lparr>downstream_remaining_capacity = initial_downstream_remaining_capacity, ram_buffer = [],
                ram_reverse_lookup_map = Map.empty, ram_first_global_pi = initial_first_global_pi,
                please_flush = False, stopping = False\<rparr>)"

definition ram_size :: "ingester_buffer \<Rightarrow> nat" where
  "ram_size b = length (ram_buffer b)"

definition can_feed :: "ingester_buffer \<Rightarrow> bool" where
  "can_feed b \<longleftrightarrow> length (ram_buffer b) < downstream_remaining_capacity b \<or> stopping b"

definition has_items :: "ingester_buffer \<Rightarrow> bool" where
  "has_items b \<longleftrightarrow> length (ram_buffer b) \<ge> downstream_remaining_capacity b \<or> please_flush b \<or> stopping b"

definition flush_done :: "ingester_buffer \<Rightarrow> bool" where
  "flush_done b \<longleftrightarrow> \<not> please_flush b \<or> stopping b"

text \<open>\<open>reverse_lookup_map_[hash] = pi\<close> overwrites what was there.\<close>

fun assign_reverse :: "nat \<Rightarrow> hash option list \<Rightarrow> (hash \<rightharpoonup> local_pi) \<Rightarrow> (hash \<rightharpoonup> local_pi)" where
  "assign_reverse local_pi_int [] m = m"
| "assign_reverse local_pi_int (optional_hash # block) m =
     assign_reverse (local_pi_int + 1) block
       (case optional_hash of Some h \<Rightarrow> m(h \<mapsto> LocalPi (of_nat local_pi_int)) | None \<Rightarrow> m)"

definition feed_block_of_hashes :: "hash option list \<Rightarrow> ingester_buffer \<Rightarrow> ingester_buffer res" where
  "feed_block_of_hashes block b =
     (if block = [] then Inr b
      else if \<not> can_feed b then Inl Blocked
      else if stopping b then Inr b
      else Inr (b\<lparr>ram_reverse_lookup_map :=
                    assign_reverse (length (ram_buffer b)) block (ram_reverse_lookup_map b),
                  ram_buffer := ram_buffer b @ block\<rparr>))"

definition flush_request :: "ingester_buffer \<Rightarrow> ingester_buffer" where
  "flush_request b = (if ram_buffer b = [] then b else b\<lparr>please_flush := True\<rparr>)"

definition stop :: "ingester_buffer \<Rightarrow> ingester_buffer" where
  "stop b = b\<lparr>stopping := True, please_flush := False\<rparr>"

text \<open>
  The consumer's function gets the buffer by reference and works on a state \<open>'s\<close> of its own; it
  returns that state, what it left in the buffer and the new downstream capacity.
\<close>

definition with_at_least_n_hashes ::
    "('s \<Rightarrow> hash option list \<Rightarrow> bool \<Rightarrow> (('s \<times> hash option list) \<times> nat) res) \<Rightarrow>
     's \<times> ingester_buffer \<Rightarrow> ('s \<times> ingester_buffer) res" where
  "with_at_least_n_hashes func sb =
     (case sb of (s, b) \<Rightarrow>
      if \<not> has_items b then Inl Blocked
      else if stopping b \<and> ram_buffer b = [] then Inr (s, b)
      else let is_flush_active = please_flush b; buffer_size_sent = length (ram_buffer b) in
      rbind (func s (ram_buffer b) is_flush_active) (\<lambda>((s', buffer'), new_remaining_capacity).
      if \<not> buffer' = []
      then Inl (Assert_Failed ''IngestorBuffer: Lambda should always empty the buffer'')
      else if \<not> new_remaining_capacity > 0
      then Inl (Assert_Failed ''IngestorBuffer: We should always find some remaining downstream capacity after lambda'')
      else Inr (s', b\<lparr>downstream_remaining_capacity := new_remaining_capacity,
                      ram_buffer := buffer',
                      ram_first_global_pi :=
                        GlobalPi (gpi_int (ram_first_global_pi b) + of_nat buffer_size_sent),
                      ram_reverse_lookup_map := Map.empty,
                      please_flush := (if is_flush_active then False else please_flush b)\<rparr>)))"

definition ram_first_offset :: "ingester_buffer \<Rightarrow> global_pi" where
  "ram_first_offset b = ram_first_global_pi b"

definition ram_next_offset :: "ingester_buffer \<Rightarrow> global_pi" where
  "ram_next_offset b = gpi_plus_lpi (ram_first_global_pi b) (LocalPi (of_nat (length (ram_buffer b))))"

definition ram_forward_lookup :: "ingester_buffer \<Rightarrow> global_pi \<Rightarrow> hash option res" where
  "ram_forward_lookup b g =
     (if \<not> contains_pi (ram_first_offset b) (ram_next_offset b) g
      then Inl (Assert_Failed ''contains_pi(*this, global_pi)'')
      else read_at (ram_buffer b) (unat (pi_distance g (ram_first_global_pi b))))"

definition ram_reverse_lookup :: "ingester_buffer \<Rightarrow> hash \<Rightarrow> global_pi" where
  "ram_reverse_lookup b h =
     (case ram_reverse_lookup_map b h of
        Some l \<Rightarrow> lpi_plus_gpi l (ram_first_global_pi b)
      | None \<Rightarrow> GLOBAL_PI_NO_MATCH)"

section \<open>Well-formed buffers\<close>

definition ram_ok :: "ingester_buffer \<Rightarrow> bool" where
  "ram_ok b \<longleftrightarrow>
     0 < downstream_remaining_capacity b
   \<and> unat (gpi_int (ram_first_global_pi b)) + length (ram_buffer b) < 2 ^ 64 - 1
   \<and> ram_reverse_lookup_map b = assign_reverse 0 (ram_buffer b) Map.empty"

lemma assign_reverse_append:
  "assign_reverse l (xs @ ys) m = assign_reverse (l + length xs) ys (assign_reverse l xs m)"
  by (induction l xs m rule: assign_reverse.induct) simp_all

lemma assign_reverse_absent: "Some h \<notin> set xs \<Longrightarrow> assign_reverse l xs m h = m h"
  by (induction l xs m rule: assign_reverse.induct) (auto split: option.splits)

text \<open>The map holds the last index of each hash.\<close>

lemma assign_reverse_last:
  assumes "i < length xs" "xs ! i = Some h" "Some h \<notin> set (drop (Suc i) xs)"
  shows "assign_reverse l xs m h = Some (LocalPi (of_nat (l + i)))"
proof -
  have "xs = take i xs @ Some h # drop (Suc i) xs" using assms(1,2) by (metis id_take_nth_drop)
  then have "assign_reverse l xs m h
      = assign_reverse (l + i + 1) (drop (Suc i) xs) ((assign_reverse l (take i xs) m)(h \<mapsto> LocalPi (of_nat (l + i)))) h"
    using assms(1) assign_reverse_append [of l "take i xs" "Some h # drop (Suc i) xs" m] by (simp add: min_def)
  then show ?thesis by (simp add: assign_reverse_absent [OF assms(3)])
qed

lemma last_index:
  assumes "x \<in> set xs"
  shows "\<exists>i < length xs. xs ! i = x \<and> x \<notin> set (drop (Suc i) xs)"
proof -
  obtain ys zs where "xs = ys @ x # zs" "x \<notin> set zs" using split_list_last [OF assms] by blast
  then show ?thesis by (intro exI [of _ "length ys"]) (auto simp: nth_append)
qed

lemma ram_reverse_last:
  assumes "ram_ok b" "i < length (ram_buffer b)" "ram_buffer b ! i = Some h"
    and "Some h \<notin> set (drop (Suc i) (ram_buffer b))"
  shows "ram_reverse_lookup b h = gpi_at (ram_first_offset b) i"
  using assms assign_reverse_last [OF assms(2-4), of 0 Map.empty]
  by (simp add: ram_reverse_lookup_def ram_ok_def ram_first_offset_def lpi_plus_gpi_at)

lemma ram_next_offset_eq:
  "ram_ok b \<Longrightarrow> ram_next_offset b = gpi_at (ram_first_offset b) (length (ram_buffer b))"
  by (simp add: ram_next_offset_def ram_ok_def gpi_plus_lpi_def ram_first_offset_def lpi_plus_gpi_at)

interpretation ram: lookupable ram_ok ram_buffer ram_first_offset ram_next_offset
  ram_forward_lookup ram_reverse_lookup
proof
  fix b h i
  assume ok: "ram_ok b"
  then show fits: "unat (gpi_int (ram_first_offset b)) + length (ram_buffer b) < 2 ^ 64 - 1"
    by (simp add: ram_ok_def ram_first_offset_def)
  show next': "ram_next_offset b = gpi_at (ram_first_offset b) (length (ram_buffer b))"
    by (rule ram_next_offset_eq [OF ok])
  show "ram_forward_lookup b (gpi_at (ram_first_offset b) i) = Inr (ram_buffer b ! i)"
    if i: "i < length (ram_buffer b)"
  proof -
    let ?g = "gpi_at (ram_first_offset b) i"
    have u: "unat (gpi_int ?g) = unat (gpi_int (ram_first_offset b)) + i"
      using fits i by (intro unat_gpi_at) simp
    have "contains_pi (ram_first_offset b) (ram_next_offset b) ?g"
      unfolding next' using fits i by (subst contains_pi_range) auto
    moreover have "unat (pi_distance ?g (ram_first_global_pi b)) = i"
      using fits i u
      by (simp add: pi_distance_def gpi_no_match_iff ram_first_offset_def word_less_nat_alt
          unat_sub word_le_nat_alt)
    ultimately show ?thesis using i by (simp add: ram_forward_lookup_def read_at_Inr)
  qed
  show "ram_reverse_lookup b h = GLOBAL_PI_NO_MATCH" if "Some h \<notin> set (ram_buffer b)"
    using ok that by (simp add: ram_reverse_lookup_def ram_ok_def assign_reverse_absent)
  show "\<exists>i<length (ram_buffer b). ram_buffer b ! i = Some h \<and>
      ram_reverse_lookup b h = gpi_at (ram_first_offset b) i" if "Some h \<in> set (ram_buffer b)"
    using last_index [OF that] ram_reverse_last [OF ok] by blast
qed

lemma mk_ingester_buffer_ok:
  "0 < cap \<Longrightarrow> unat (gpi_int g) < 2 ^ 64 - 1 \<Longrightarrow> \<exists>b. mk_ingester_buffer cap g = Inr b \<and> ram_ok b
    \<and> ram_buffer b = [] \<and> downstream_remaining_capacity b = cap \<and> ram_first_global_pi b = g
    \<and> \<not> please_flush b \<and> \<not> stopping b"
  by (simp add: mk_ingester_buffer_def ram_ok_def)

lemma feed_ok:
  assumes "ram_ok b" "feed_block_of_hashes block b = Inr b'" "\<not> stopping b"
    and "unat (gpi_int (ram_first_global_pi b)) + length (ram_buffer b @ block) < 2 ^ 64 - 1"
  shows "ram_ok b'" "ram_buffer b' = ram_buffer b @ block"
    "ram_first_global_pi b' = ram_first_global_pi b" "stopping b' = stopping b"
    "please_flush b' = please_flush b" "downstream_remaining_capacity b' = downstream_remaining_capacity b"
  using assms
  by (auto simp: feed_block_of_hashes_def ram_ok_def assign_reverse_append split: if_splits)

section \<open>Buffer and consumer together\<close>

text \<open>
  What the buffer needs of the consumer of its batches: it takes a batch it has room for, in
  order and completely, and reports the space that is left.
\<close>

locale batch_consumer =
  fixes consume :: "'s \<Rightarrow> hash option list \<Rightarrow> bool \<Rightarrow> (('s \<times> hash option list) \<times> nat) res"
    and inv :: "'s \<Rightarrow> bool"
    and contents :: "'s \<Rightarrow> hash option list"
    and origin :: "'s \<Rightarrow> global_pi"
    and free :: "'s \<Rightarrow> nat"
    and accepts :: "'s \<Rightarrow> hash option list \<Rightarrow> bool"
  assumes free_positive: "inv s \<Longrightarrow> 0 < free s"
    and contents_fit: "inv s \<Longrightarrow> unat (gpi_int (origin s)) + length (contents s) < 2 ^ 64 - 1"
    and consumes: "inv s \<Longrightarrow> accepts s batch \<Longrightarrow>
      \<exists>s'. consume s batch flushing = Inr ((s', []), free s') \<and> inv s' \<and> origin s' = origin s
        \<and> contents s' = contents s @ batch"
begin

text \<open>The buffer continues the numbering of the consumer and knows its free space.\<close>

definition linked :: "'s \<Rightarrow> ingester_buffer \<Rightarrow> bool" where
  "linked s b \<longleftrightarrow> inv s \<and> ram_ok b \<and> downstream_remaining_capacity b = free s
     \<and> ram_first_global_pi b = gpi_at (origin s) (length (contents s))"

lemma linked_start:
  assumes "inv s" "mk_ingester_buffer (free s) (gpi_at (origin s) (length (contents s))) = Inr b"
  shows "linked s b" "ram_buffer b = []" "\<not> please_flush b" "\<not> stopping b"
proof -
  have "unat (gpi_int (gpi_at (origin s) (length (contents s)))) < 2 ^ 64 - 1"
    using contents_fit [OF assms(1)] by (simp add: unat_gpi_at)
  from mk_ingester_buffer_ok [OF free_positive [OF assms(1)] this] assms
  show "linked s b" "ram_buffer b = []" "\<not> please_flush b" "\<not> stopping b" by (auto simp: linked_def)
qed

lemma linked_feed:
  assumes "linked s b" "feed_block_of_hashes block b = Inr b'" "\<not> stopping b"
    and "unat (gpi_int (origin s)) + length (contents s @ ram_buffer b @ block) < 2 ^ 64 - 1"
  shows "linked s b'" "ram_buffer b' = ram_buffer b @ block"
    "please_flush b' = please_flush b" "stopping b' = stopping b"
proof -
  have "unat (gpi_int (ram_first_global_pi b)) = unat (gpi_int (origin s)) + length (contents s)"
    using assms(1,4) by (simp add: linked_def unat_gpi_at)
  then have "unat (gpi_int (ram_first_global_pi b)) + length (ram_buffer b @ block) < 2 ^ 64 - 1"
    using assms(4) by simp
  note f = feed_ok [OF _ assms(2,3) this]
  show "linked s b'" "ram_buffer b' = ram_buffer b @ block"
    "please_flush b' = please_flush b" "stopping b' = stopping b"
    using f assms(1) by (simp_all add: linked_def)
qed

lemma linked_flags: "linked s b \<Longrightarrow> linked s (flush_request b)" "linked s b \<Longrightarrow> linked s (stop b)"
  by (auto simp: linked_def flush_request_def stop_def ram_ok_def)

lemma linked_drain:
  assumes "linked s b" "has_items b" "accepts s (ram_buffer b)"
  obtains s' b' where "with_at_least_n_hashes consume (s, b) = Inr (s', b')" "linked s' b'"
    "origin s' = origin s" "contents s' = contents s @ ram_buffer b" "ram_buffer b' = []"
    "flush_done b'" "stopping b' = stopping b"
proof (cases "stopping b \<and> ram_buffer b = []")
  case True
  show ?thesis
    by (rule that [of s b]) (use True assms in \<open>simp_all add: with_at_least_n_hashes_def flush_done_def\<close>)
next
  case False
  obtain s' where s': "consume s (ram_buffer b) (please_flush b) = Inr ((s', []), free s')" "inv s'"
    "origin s' = origin s" "contents s' = contents s @ ram_buffer b"
    using consumes [OF _ assms(3)] assms(1) by (auto simp: linked_def)
  define b' where "b' = b\<lparr>downstream_remaining_capacity := free s', ram_buffer := [],
      ram_first_global_pi := GlobalPi (gpi_int (ram_first_global_pi b) + of_nat (length (ram_buffer b))),
      ram_reverse_lookup_map := Map.empty, please_flush := False\<rparr>"
  have first: "ram_first_global_pi b' = gpi_at (origin s') (length (contents s'))"
    using assms(1) by (simp add: b'_def linked_def s' gpi_at_def ac_simps)
  have "unat (gpi_int (ram_first_global_pi b')) < 2 ^ 64 - 1"
    using contents_fit [OF s'(2)] unfolding first by (simp add: unat_gpi_at)
  moreover have "ram_buffer b' = []" "ram_reverse_lookup_map b' = Map.empty"
    "downstream_remaining_capacity b' = free s'" by (simp_all add: b'_def)
  ultimately have "linked s' b'"
    using s'(2) first free_positive [OF s'(2)] by (simp add: linked_def ram_ok_def)
  moreover have "with_at_least_n_hashes consume (s, b) = Inr (s', b')"
    using assms(2) False s'(1) free_positive [OF s'(2)]
    by (cases "please_flush b") (auto simp: with_at_least_n_hashes_def b'_def)
  ultimately show ?thesis using s' that by (simp add: b'_def flush_done_def)
qed

text \<open>So the numbering the buffer answers with is the position in the whole stream.\<close>

lemma linked_next_offset:
  "linked s b \<Longrightarrow> ram_next_offset b = gpi_at (origin s) (length (contents s @ ram_buffer b))"
  by (simp add: linked_def ram_next_offset_eq ram_first_offset_def gpi_at_plus)

end

text \<open>The buffer answers for what was fed to it.  After any blocks fed since its construction,
  it holds them in order, the forward lookup returns what was fed at an index, and the reverse
  lookup returns the \<^emph>\<open>latest\<close> presentation of a hash in the buffer (the donuts keep the earliest
  one), or no match when there is none.\<close>

theorem ram_lookups_exact:
  assumes "mk_ingester_buffer cap g = Inr b0"
    and "rfold (\<lambda>b block. feed_block_of_hashes block b) b0 blocks = Inr b"
    and "unat (gpi_int g) + length (concat blocks) < 2 ^ 64 - 1"
  shows "ram_buffer b = concat blocks
    \<and> (\<forall>i < length (ram_buffer b). ram_forward_lookup b (gpi_at g i) = Inr (ram_buffer b ! i))
    \<and> (\<forall>h. ram_reverse_lookup b h = GLOBAL_PI_NO_MATCH \<longleftrightarrow> Some h \<notin> set (ram_buffer b))
    \<and> (\<forall>i h. i < length (ram_buffer b) \<and> ram_buffer b ! i = Some h \<and> Some h \<notin> set (drop (Suc i) (ram_buffer b))
        \<longrightarrow> ram_reverse_lookup b h = gpi_at g i)"
proof -
  have fed: "ram_ok b \<and> ram_buffer b = ram_buffer b0 @ concat blocks \<and> ram_first_global_pi b = ram_first_global_pi b0"
    if "rfold (\<lambda>b block. feed_block_of_hashes block b) b0 blocks = Inr b" "ram_ok b0" "\<not> stopping b0"
      "unat (gpi_int (ram_first_global_pi b0)) + length (ram_buffer b0 @ concat blocks) < 2 ^ 64 - 1" for b0
    using that
  proof (induction blocks arbitrary: b0)
    case (Cons block blocks)
    obtain b1 where b1: "feed_block_of_hashes block b0 = Inr b1"
      "rfold (\<lambda>b block. feed_block_of_hashes block b) b1 blocks = Inr b"
      using Cons.prems(1) by (cases "feed_block_of_hashes block b0") auto
    have fits: "unat (gpi_int (ram_first_global_pi b0)) + length (ram_buffer b0 @ block) < 2 ^ 64 - 1"
      using Cons.prems(4) by simp
    note f = feed_ok [OF Cons.prems(2) b1(1) Cons.prems(3) fits]
    show ?case using Cons.IH [OF b1(2) f(1)] Cons.prems(3,4) f by simp
  qed simp
  have "0 < cap" using assms(1) by (simp add: mk_ingester_buffer_def split: if_splits)
  moreover have "unat (gpi_int g) < 2 ^ 64 - 1" using assms(3) by simp
  ultimately have b0: "ram_ok b0" "ram_buffer b0 = []" "ram_first_global_pi b0 = g" "\<not> stopping b0"
    using mk_ingester_buffer_ok [of cap g] assms(1) by auto
  from fed [OF assms(2) b0(1,4)] b0(2,3) assms(3)
  have b: "ram_ok b" "ram_buffer b = concat blocks" "ram_first_offset b = g"
    by (simp_all add: ram_first_offset_def)
  show ?thesis
    using b ram.forward_at [OF b(1)] ram.reverse_no_match_iff [OF b(1)] ram_reverse_last [OF b(1)] by simp
qed

theorem ram_lookups_exact_witness:
  "\<exists>b. ram_buffer b = [Some [7], None, Some [8], Some [7]]
     \<and> ram_reverse_lookup b [7] = GlobalPi 13 \<and> ram_reverse_lookup b [9] = GLOBAL_PI_NO_MATCH"
proof -
  obtain b0 where b0: "mk_ingester_buffer 5 (GlobalPi 10) = Inr b0" by (simp add: mk_ingester_buffer_def)
  let ?blocks = "[[Some [7], None], [], [Some [8], Some [7]]]"
  obtain b where b: "rfold (\<lambda>b block. feed_block_of_hashes block b) b0 ?blocks = Inr b"
    using b0 by (auto simp: mk_ingester_buffer_def feed_block_of_hashes_def can_feed_def)
  note * = ram_lookups_exact [OF b0 b]
  have buf: "ram_buffer b = [Some [7], None, Some [8], Some [7]]" using * by simp
  have "ram_reverse_lookup b [7] = gpi_at (GlobalPi 10) 3"
    using conjunct2 [OF conjunct2 [OF conjunct2 [OF *]], THEN spec, of 3, THEN spec, of "[7]"] buf by simp
  moreover have "ram_reverse_lookup b [9] = GLOBAL_PI_NO_MATCH" using * buf by simp
  ultimately show ?thesis using buf by (intro exI [of _ b]) (simp add: gpi_at_def)
qed

end
