(* ===== verification/Ingester_Tier.thy ===== *)
theory Ingester_Tier
  imports Lookupable_Room Ingester_Buffer
begin

text \<open>
  The ingester tier below \<^verbatim>\<open>apps/wedding_cake/include\<close>: its folder of donuts
  (\<^verbatim>\<open>ingester_tier_folder.hpp\<close>), the reconstruction of a donut from its folder
  (\<^verbatim>\<open>ingester_tier_hydrator.hpp\<close>) and the body of the worker thread that moves hashes
  from the buffer into the donuts (\<^verbatim>\<open>ingestor_worker.hpp\<close>).  The operations act on the tree
  of files and the tier; \<open>N\<close> is \<open>HashBytesCount\<close>.
\<close>

section \<open>The tier folder\<close>

record tier_folder =
  tier_path :: path
  sorted_offsets_found_at_startup :: "u64 list"
  hatchling :: st00
  tier_room :: "st01 buffer_room"

definition Folder :: string where
  "Folder = ''Ingester''"

datatype ingester_evolver = Evolver_ST00 st00 | Evolver_ST01 st01

definition ingester_hydrate_evolver_from_disk :: "nat \<Rightarrow> fs \<Rightarrow> path \<Rightarrow> (fs \<times> ingester_evolver) res" where
  "ingester_hydrate_evolver_from_disk N fs obj_path =
     rbind (mk_st00 N fs obj_path ingester_donut_capacity) (\<lambda>(fs1, st).
     if \<not> fs_exists fs1 (obj_path @ [ST01]) then Inr (fs1, Evolver_ST00 st)
     else rbind (mk_st01 fs1 st) (\<lambda>(fs2, s). Inr (fs2, Evolver_ST01 s)))"

definition find_sorted_offsets :: "fs \<Rightarrow> path \<Rightarrow> (fs \<times> u64 list) res" where
  "find_sorted_offsets fs tier =
     rbind (fs_create_directories fs tier) (\<lambda>fs1. Inr (fs1, object_folder_offsets fs1 tier))"

definition create_or_hydrate_hatchling :: "nat \<Rightarrow> fs \<Rightarrow> path \<Rightarrow> u64 list \<Rightarrow> (fs \<times> st00) res" where
  "create_or_hydrate_hatchling N fs tier sorted_offsets_found =
     (if sorted_offsets_found = []
      then mk_st00 N fs (tier @ [object_folder_name 0]) ingester_donut_capacity
      else mk_st00 N fs (tier @ [object_folder_name (last sorted_offsets_found)]) ingester_donut_capacity)"

definition hydrate_room_entry :: "nat \<Rightarrow> path \<Rightarrow> fs \<times> st01 buffer_room \<Rightarrow> u64 \<Rightarrow> (fs \<times> st01 buffer_room) res" where
  "hydrate_room_entry N tier s offset =
     (case s of (fs, r) \<Rightarrow>
      rbind (ingester_hydrate_evolver_from_disk N fs (tier @ [object_folder_name offset])) (\<lambda>(fs1, evolver).
      case evolver of
        Evolver_ST00 _ \<Rightarrow> Inl (Assert_Failed ''hydrate_buffer_room(): BufferRoom on disk should only hold Ingester_ST01_FilledDonut's'')
      | Evolver_ST01 donut \<Rightarrow> rbind (lookupable_initialize_add tier_fanout donut r) (\<lambda>r'. Inr (fs1, r'))))"

definition hydrate_buffer_room :: "nat \<Rightarrow> fs \<Rightarrow> path \<Rightarrow> u64 list \<Rightarrow> st01 buffer_room \<Rightarrow> (fs \<times> st01 buffer_room) res" where
  "hydrate_buffer_room N fs tier sorted_offsets_found r =
     (if length sorted_offsets_found > tier_fanout + 1
      then Inl (Runtime_Error ''create_or_hydrate_buffer_room(): Too many object folders found in tier'')
      else if length sorted_offsets_found \<le> 1 then Inr (fs, r)
      else rfold (hydrate_room_entry N tier) (fs, r)
             (take (length sorted_offsets_found - 1) sorted_offsets_found))"

definition mk_tier_folder :: "nat \<Rightarrow> fs \<Rightarrow> path \<Rightarrow> (fs \<times> tier_folder) res" where
  "mk_tier_folder N fs base_path =
     (let tier = base_path @ [Folder] in
      rbind (find_sorted_offsets fs tier) (\<lambda>(fs1, offsets).
      rbind (create_or_hydrate_hatchling N fs1 tier offsets) (\<lambda>(fs2, h).
      rbind (hydrate_buffer_room N fs2 tier offsets empty_room) (\<lambda>(fs3, r).
      Inr (fs3, \<lparr>tier_path = tier, sorted_offsets_found_at_startup = offsets,
                 hatchling = h, tier_room = r\<rparr>)))))"

definition promote_hatchling_and_spawn_next :: "nat \<Rightarrow> fs \<times> tier_folder \<Rightarrow> (fs \<times> tier_folder) res" where
  "promote_hatchling_and_spawn_next N s =
     (case s of (fs, f) \<Rightarrow>
      rbind (object_folder_single_offset (object_path (hatchling f))) (\<lambda>prev_offset.
      let new_offset = prev_offset + of_nat (capacity (hatchling f)) in
      rbind (mk_st01 fs (hatchling f)) (\<lambda>(fs1, promoted_hatchling).
      rbind (lookupable_feed tier_fanout promoted_hatchling (tier_room f)) (\<lambda>r.
      rbind (mk_st00 N fs1 (tier_path f @ [object_folder_name new_offset]) ingester_donut_capacity)
        (\<lambda>(fs2, replacement_hatchling).
      Inr (fs2, f\<lparr>tier_room := r, hatchling := replacement_hatchling\<rparr>))))))"

definition tier_first_offset :: "(st01 buffer_room \<Rightarrow> bool) \<Rightarrow> tier_folder \<Rightarrow> global_pi res" where
  "tier_first_offset buffer_empty f =
     (if \<not> lookupable_empty buffer_empty (tier_room f) then st01_room_first_offset (tier_room f)
      else Inr (st00_first_offset (hatchling f)))"

definition tier_next_offset :: "tier_folder \<Rightarrow> global_pi" where
  "tier_next_offset f = st00_next_offset (hatchling f)"

definition flush_manifest_to_disk :: "fs \<times> tier_folder \<Rightarrow> fs \<times> tier_folder" where
  "flush_manifest_to_disk s = s"

text \<open>The destructor destroys the room's donuts and the hatchling, whose manifests flush.\<close>

definition destroy_tier_folder :: "fs \<times> tier_folder \<Rightarrow> fs" where
  "destroy_tier_folder s = (case s of (fs, f) \<Rightarrow>
     let fs1 = fold (\<lambda>donut fs. destroy_manifest (fs, st00_manifest (prior_ST00 donut))) (items (tier_room f)) fs
     in destroy_manifest (fs1, st00_manifest (hatchling f)))"

section \<open>The body of the worker\<close>

text \<open>
  The loop that consumes the buffer; every round takes at least one hash or breaks, so it ends.
\<close>

function drain :: "nat \<Rightarrow> fs \<times> tier_folder \<Rightarrow> hash option list \<Rightarrow> ((fs \<times> tier_folder) \<times> hash option list) res" where
  "drain N s batch =
     (if batch = [] then Inr (s, [])
      else rbind (append_hashes N (fst s, hatchling (snd s)) batch) (\<lambda>r.
           case r of ((fs1, h), consumed_count) \<Rightarrow>
           let s1 = (fs1, (snd s)\<lparr>hatchling := h\<rparr>) in
           if consumed_count > 0
           then rbind (if remaining_capacity h = 0 then promote_hatchling_and_spawn_next N s1 else Inr s1)
                  (\<lambda>s2. drain N s2 (drop consumed_count batch))
           else Inr (s1, batch)))"
  by pat_completeness auto
termination
  by (relation "measure (\<lambda>(N, s, batch). length batch)") auto

declare drain.simps [simp del]

text \<open>
  Where the loop stands when the promotion waits in \<open>Feed\<close>: the full hatchling was moved into the
  promoted donut, a local variable of \<open>promote_hatchling_and_spawn_next\<close>, and what was consumed is
  already erased from the batch.  After the move the vector and the map of the hatchling are empty;
  its other members, whose values a move leaves open, are kept.
\<close>

definition move_out_hatchling :: "fs \<times> tier_folder \<Rightarrow> ((fs \<times> tier_folder) \<times> st01) res" where
  "move_out_hatchling s =
     (case s of (fs, f) \<Rightarrow>
      rbind (mk_st01 fs (hatchling f)) (\<lambda>(fs1, promoted_hatchling).
      Inr ((fs1, f\<lparr>hatchling := (hatchling f)\<lparr>forward_lookup_vector := [], reverse_lookup_map := []\<rparr>\<rparr>),
           promoted_hatchling)))"

function drain_waiting :: "nat \<Rightarrow> fs \<times> tier_folder \<Rightarrow> hash option list \<Rightarrow>
    ((fs \<times> tier_folder) \<times> st01 \<times> hash option list) option" where
  "drain_waiting N s batch =
     (if batch = [] then None
      else case append_hashes N (fst s, hatchling (snd s)) batch of
        Inl _ \<Rightarrow> None
      | Inr ((fs1, h), consumed_count) \<Rightarrow>
          let s1 = (fs1, (snd s)\<lparr>hatchling := h\<rparr>); rest = drop consumed_count batch in
          if consumed_count = 0 then None
          else if remaining_capacity h \<noteq> 0 then drain_waiting N s1 rest
          else case promote_hatchling_and_spawn_next N s1 of
            Inr s2 \<Rightarrow> drain_waiting N s2 rest
          | Inl Blocked \<Rightarrow>
              (case move_out_hatchling s1 of
                 Inr (s2, promoted) \<Rightarrow> Some (s2, promoted, rest)
               | Inl _ \<Rightarrow> None)
          | Inl _ \<Rightarrow> None)"
  by pat_completeness auto
termination
  by (relation "measure (\<lambda>(N, s, batch). length batch)") auto

declare drain_waiting.simps [simp del]

definition worker_lambda :: "nat \<Rightarrow> fs \<times> tier_folder \<Rightarrow> hash option list \<Rightarrow> bool \<Rightarrow>
    (((fs \<times> tier_folder) \<times> hash option list) \<times> nat) res" where
  "worker_lambda N s batch is_flushing =
     (if batch = []
      then let s1 = (if is_flushing then flush_manifest_to_disk s else s)
           in Inr ((s1, batch), remaining_capacity (hatchling (snd s1)))
      else rbind (drain N s batch) (\<lambda>(s1, rest).
           if \<not> rest = []
           then Inl (Assert_Failed ''ingester_worker(): Expected RAM buffer to be fully drained'')
           else let s2 = (if is_flushing then flush_manifest_to_disk s1 else s1)
                in Inr ((s2, rest), remaining_capacity (hatchling (snd s2)))))"

section \<open>The tier invariant\<close>

text \<open>
  The \<open>k\<close>-th donut of a tier starts at \<open>k * ingester_donut_capacity\<close> and lives in the folder
  named after that offset.
\<close>

definition donut_offset :: "nat \<Rightarrow> u64" where
  "donut_offset k = of_nat (k * ingester_donut_capacity)"

definition place :: "path \<Rightarrow> nat \<Rightarrow> path" where
  "place tier k = tier @ [object_folder_name (donut_offset k)]"

definition donut_inv :: "nat \<Rightarrow> fs \<Rightarrow> path \<Rightarrow> nat \<Rightarrow> st00 \<Rightarrow> bool" where
  "donut_inv N fs tier k st \<longleftrightarrow>
     st00_mem N st \<and> capacity st = ingester_donut_capacity
   \<and> object_path st = place tier k \<and> st00_path st = place tier k @ [ST00]
   \<and> first_global_pi st = GlobalPi (donut_offset k)
   \<and> (\<exists>ob. st00_files_with N fs st ob
        \<and> (distinct (hashes_of (forward_lookup_vector st)) \<longrightarrow> ob = order_file N (forward_lookup_vector st)))"

definition filled_inv :: "nat \<Rightarrow> fs \<Rightarrow> path \<Rightarrow> nat \<Rightarrow> st01 \<Rightarrow> bool" where
  "filled_inv N fs tier k s \<longleftrightarrow>
     donut_inv N fs tier k (prior_ST00 s)
   \<and> length (forward_lookup_vector (prior_ST00 s)) = ingester_donut_capacity
   \<and> fm_open_files_by_handle (st00_manifest (prior_ST00 s)) = []
   \<and> fs_node fs (place tier k @ [ST01]) = Some Dir"

text \<open>\<open>tier_body\<close> also holds between the append that fills the hatchling and its promotion.\<close>

definition tier_body :: "nat \<Rightarrow> fs \<times> tier_folder \<Rightarrow> bool" where
  "tier_body N s \<longleftrightarrow> (case s of (fs, f) \<Rightarrow>
     8 * N + 7 < 2 ^ 64 \<and> fs_wf fs \<and> fs_is_directory fs (tier_path f)
   \<and> \<not> is_discarding (tier_room f) \<and> active_readers (tier_room f) = 0
   \<and> length (items (tier_room f)) \<le> tier_fanout
   \<and> (\<forall>k < length (items (tier_room f)). filled_inv N fs (tier_path f) k (items (tier_room f) ! k))
   \<and> donut_inv N fs (tier_path f) (length (items (tier_room f))) (hatchling f)
   \<and> fs_node fs (place (tier_path f) (length (items (tier_room f))) @ [ST01]) = None
   \<and> (\<forall>name. fs_node fs (tier_path f @ [name]) \<noteq> None \<longrightarrow> prefix object_folder_prefix name \<longrightarrow>
        (\<exists>k \<le> length (items (tier_room f)). name = object_folder_name (donut_offset k))))"

definition tier_inv :: "nat \<Rightarrow> fs \<times> tier_folder \<Rightarrow> bool" where
  "tier_inv N s \<longleftrightarrow> tier_body N s \<and> st00_open (fst s) (hatchling (snd s))
   \<and> length (forward_lookup_vector (hatchling (snd s))) < ingester_donut_capacity"

definition tier_contents :: "fs \<times> tier_folder \<Rightarrow> hash option list" where
  "tier_contents s = room_entries st01_entries (tier_room (snd s)) @ forward_lookup_vector (hatchling (snd s))"

definition tier_capacity :: nat where
  "tier_capacity = (tier_fanout + 1) * ingester_donut_capacity"

lemma tier_numbers: "tier_fanout = 4" "ingester_donut_capacity = 65535" "tier_capacity = 327675"
  by (simp_all add: tier_fanout_def tier_fanout_bit_count_def ingester_donut_capacity_def tier_capacity_def)

lemma unat_donut_offset: "k \<le> 6 \<Longrightarrow> unat (donut_offset k) = k * 65535"
  unfolding donut_offset_def by (subst unat_of_nat) (simp add: tier_numbers)

lemma donut_offset_inject: "j \<le> 6 \<Longrightarrow> k \<le> 6 \<Longrightarrow> donut_offset j = donut_offset k \<longleftrightarrow> j = k"
  using unat_donut_offset [of j] unat_donut_offset [of k]
  by (metis mult_cancel2 zero_neq_numeral)

lemma place_inject: "j \<le> 6 \<Longrightarrow> k \<le> 6 \<Longrightarrow> place tier j = place tier k \<longleftrightarrow> j = k"
  by (simp add: place_def object_folder_name_inject donut_offset_inject)

lemma place_apart:
  assumes "prefix (place tier j @ p) q" "prefix (place tier k @ r) q" "j \<le> 6" "k \<le> 6"
  shows "j = k"
proof -
  have len: "length (place tier i) = Suc (length tier)" for i by (simp add: place_def)
  have "take (Suc (length tier)) q = place tier j" "take (Suc (length tier)) q = place tier k"
    using assms(1,2) by (auto simp: prefix_def len)
  then show ?thesis using place_inject [OF assms(3,4), of tier] by simp
qed

lemma place_offset: "k \<le> 6 \<Longrightarrow> object_folder_single_offset (place tier k) = Inr (donut_offset k)"
  by (simp add: place_def object_folder_single_offset_name unat_donut_offset)

lemma fm_known_below: "fm_known m q \<Longrightarrow> prefix (fm_base_path m) q"
  by (auto simp: fm_known_def)

text \<open>A donut only depends on what is below its own folder.\<close>

lemma fm_content_frame:
  "\<forall>q. prefix (fm_base_path m) q \<longrightarrow> fs_node fs' q = fs_node fs q \<Longrightarrow> fm_content (fs', m) h = fm_content (fs, m) h"
  by (simp add: fm_content_def split: option.split)

lemma fm_inv_frame:
  assumes "fm_inv (fs, m)" "fs_wf fs'" "\<forall>q. prefix (fm_base_path m) q \<longrightarrow> fs_node fs' q = fs_node fs q"
  shows "fm_inv (fs', m)"
proof -
  have c: "fm_content (fs', m) = fm_content (fs, m)" by (rule ext) (rule fm_content_frame [OF assms(3)])
  have d: "fs_is_directory fs' (fm_base_path m) = fs_is_directory fs (fm_base_path m)"
    using assms(3) by (simp add: fs_is_directory_def)
  show ?thesis using assms(1,2) unfolding fm_inv_def prod.case c d by blast
qed

lemma donut_inv_frame:
  assumes "donut_inv N fs tier k st" "fs_wf fs'"
    and "\<forall>q. prefix (place tier k @ [ST00]) q \<longrightarrow> fs_node fs' q = fs_node fs q"
  shows "donut_inv N fs' tier k st"
proof -
  obtain ob where ob: "st00_files_with N fs st ob"
    "distinct (hashes_of (forward_lookup_vector st)) \<longrightarrow> ob = order_file N (forward_lookup_vector st)"
    using assms(1) by (auto simp: donut_inv_def)
  have base: "fm_base_path (st00_manifest st) = place tier k @ [ST00]"
    using ob(1) assms(1) by (simp add: st00_files_with_def donut_inv_def)
  have fr: "\<forall>q. prefix (fm_base_path (st00_manifest st)) q \<longrightarrow> fs_node fs' q = fs_node fs q"
    using assms(3) by (simp add: base)
  have "st00_files_with N fs' st ob"
    using ob(1) fm_inv_frame [OF _ assms(2) fr] fm_content_frame [OF fr]
    by (simp add: st00_files_with_def)
  then show ?thesis using assms(1) ob(2) unfolding donut_inv_def by blast
qed

lemma filled_inv_frame:
  assumes "filled_inv N fs tier k s" "fs_wf fs'"
    and "\<forall>q. prefix (place tier k) q \<longrightarrow> fs_node fs' q = fs_node fs q"
  shows "filled_inv N fs' tier k s"
proof -
  have "\<forall>q. prefix (place tier k @ [ST00]) q \<longrightarrow> fs_node fs' q = fs_node fs q"
    using assms(3) by (metis append_prefixD)
  from donut_inv_frame [OF _ assms(2) this] show ?thesis
    using assms(1,3) unfolding filled_inv_def by auto
qed

lemma st00_open_frame: "st00_open fs' st = st00_open fs st"
  by (simp add: st00_open_def fm_writable_def)

text \<open>Appending to the donut at its place touches nothing outside of its folder.\<close>

lemma donut_append:
  assumes inv: "donut_inv N fs tier k st" and open': "st00_open fs st"
    and wf: "\<forall>h. Some h \<in> set batch \<longrightarrow> hash_wf N h"
  defines "taking \<equiv> min (length batch) (ingester_donut_capacity - length (forward_lookup_vector st))"
  obtains fs' st' where "append_hashes N (fs, st) batch = Inr ((fs', st'), taking)"
    "donut_inv N fs' tier k st'" "forward_lookup_vector st' = forward_lookup_vector st @ take taking batch"
    "length (forward_lookup_vector st') < ingester_donut_capacity \<Longrightarrow> st00_open fs' st'"
    "length (forward_lookup_vector st') = ingester_donut_capacity \<Longrightarrow> fm_open_files_by_handle (st00_manifest st') = []"
    "fs_wf fs'" "\<And>q. \<not> prefix (place tier k @ [ST00]) q \<Longrightarrow> fs_node fs' q = fs_node fs q"
    "\<And>q. fs_is_directory fs' q = fs_is_directory fs q"
    "remaining_capacity st' = ingester_donut_capacity - length (forward_lookup_vector st')"
proof -
  let ?fv = "forward_lookup_vector st"
  obtain ob where ob: "st00_files_with N fs st ob" "distinct (hashes_of ?fv) \<longrightarrow> ob = order_file N ?fv"
    using inv by (auto simp: donut_inv_def)
  note i = inv [unfolded donut_inv_def]
  have mem: "st00_mem N st" and cap: "capacity st = ingester_donut_capacity" using i by blast+
  have t: "taking = min (length batch) (capacity st - length ?fv)" by (simp add: taking_def cap)
  obtain fs' m where r: "append_hashes N (fs, st) batch = Inr ((fs', st00_extended st (take taking batch) m), taking)"
    "st00_mem N (st00_extended st (take taking batch) m)"
    "st00_files_with N fs' (st00_extended st (take taking batch) m)
      (ob @ order_records N (length (reverse_lookup_map st)) (take taking batch))"
    "\<And>h. fm_writable (fs', m) h \<longleftrightarrow> fm_writable (fs, st00_manifest st) h \<and> length ?fv + taking < capacity st"
    "length ?fv + taking = capacity st \<Longrightarrow> fm_open_files_by_handle m = []"
    "\<And>q. \<not> fm_known (st00_manifest st) q \<Longrightarrow> fs_node fs' q = fs_node fs q"
    "\<And>q. fs_is_directory fs' q = fs_is_directory fs q"
    using append_hashes_result [OF mem ob(1) open' wf t] by blast
  let ?st' = "st00_extended st (take taking batch) m"
  have len: "length (forward_lookup_vector ?st') = length ?fv + taking" by (simp add: taking_def)
  have "ob @ order_records N (length (reverse_lookup_map st)) (take taking batch) = order_file N (?fv @ take taking batch)"
    if "distinct (hashes_of (?fv @ take taking batch))"
    using that ob(2) order_file_extended [OF mem] by (simp add: hashes_of_def)
  then have inv': "donut_inv N fs' tier k ?st'" using r(2,3) i unfolding donut_inv_def by auto
  have "st00_path st = place tier k @ [ST00]" using i by blast
  with ob(1) have base: "fm_base_path (st00_manifest st) = place tier k @ [ST00]"
    by (simp add: st00_files_with_def)
  have nodes: "fs_node fs' q = fs_node fs q" if "\<not> prefix (place tier k @ [ST00]) q" for q
  proof (rule r(6))
    show "\<not> fm_known (st00_manifest st) q"
      using fm_known_below [of "st00_manifest st" q] that unfolding base by blast
  qed
  have wf': "fs_wf fs'" using r(3) by (auto simp: st00_files_with_def fm_inv_def)
  have left: "remaining_capacity ?st' = ingester_donut_capacity - length (forward_lookup_vector ?st')"
    using st00_memD(7) [OF r(2)] cap by simp
  have op: "st00_open fs' ?st'" if "length (forward_lookup_vector ?st') < ingester_donut_capacity"
    using that open' r(4) len cap by (simp add: st00_open_def)
  have sealed: "fm_open_files_by_handle (st00_manifest ?st') = []"
    if "length (forward_lookup_vector ?st') = ingester_donut_capacity"
    using that r(5) len cap by simp
  have fv: "forward_lookup_vector ?st' = ?fv @ take taking batch" by simp
  show ?thesis by (rule that [OF r(1) inv' fv op sealed wf' nodes r(7) left])
qed

lemma tier_bodyD:
  assumes "tier_body N (fs, f)"
  shows "8 * N + 7 < 2 ^ 64" "fs_wf fs" "fs_is_directory fs (tier_path f)"
    "\<not> is_discarding (tier_room f)" "active_readers (tier_room f) = 0"
    "length (items (tier_room f)) \<le> tier_fanout"
    "\<And>k. k < length (items (tier_room f)) \<Longrightarrow> filled_inv N fs (tier_path f) k (items (tier_room f) ! k)"
    "donut_inv N fs (tier_path f) (length (items (tier_room f))) (hatchling f)"
    "fs_node fs (place (tier_path f) (length (items (tier_room f))) @ [ST01]) = None"
    "\<And>name. fs_node fs (tier_path f @ [name]) \<noteq> None \<Longrightarrow> prefix object_folder_prefix name \<Longrightarrow>
        \<exists>k \<le> length (items (tier_room f)). name = object_folder_name (donut_offset k)"
  using assms unfolding tier_body_def prod.case by blast+

lemma tier_bodyI:
  assumes "tier_path f = t" "tier_room f = r" "hatchling f = h"
    and "8 * N + 7 < 2 ^ 64" "fs_wf fs" "fs_is_directory fs t"
    "\<not> is_discarding r" "active_readers r = 0" "length (items r) \<le> tier_fanout"
    "\<And>k. k < length (items r) \<Longrightarrow> filled_inv N fs t k (items r ! k)"
    "donut_inv N fs t (length (items r)) h"
    "fs_node fs (place t (length (items r)) @ [ST01]) = None"
    "\<And>name. fs_node fs (t @ [name]) \<noteq> None \<Longrightarrow> prefix object_folder_prefix name \<Longrightarrow>
        \<exists>k \<le> length (items r). name = object_folder_name (donut_offset k)"
  shows "tier_body N (fs, f)"
  unfolding tier_body_def prod.case assms(1-3) using assms(4-) by blast

lemma ST00_ST01 [simp]: "ST00 \<noteq> ST01" "ST01 \<noteq> ST00"
  by (simp_all add: ST00_def ST01_def)

lemma places_le: "k \<le> tier_fanout + 1 \<Longrightarrow> k \<le> 6"
  by (simp add: tier_numbers)

text \<open>Appending to the hatchling.\<close>

lemma tier_append:
  assumes body: "tier_body N (fs, f)" and open': "st00_open fs (hatchling f)"
    and wf: "\<forall>h. Some h \<in> set batch \<longrightarrow> hash_wf N h"
  defines "taking \<equiv> min (length batch) (ingester_donut_capacity - length (forward_lookup_vector (hatchling f)))"
  obtains fs' h where "append_hashes N (fs, hatchling f) batch = Inr ((fs', h), taking)"
    "tier_body N (fs', f\<lparr>hatchling := h\<rparr>)"
    "forward_lookup_vector h = forward_lookup_vector (hatchling f) @ take taking batch"
    "length (forward_lookup_vector h) < ingester_donut_capacity \<Longrightarrow> st00_open fs' h"
    "length (forward_lookup_vector h) = ingester_donut_capacity \<Longrightarrow> fm_open_files_by_handle (st00_manifest h) = []"
    "remaining_capacity h = ingester_donut_capacity - length (forward_lookup_vector h)"
proof -
  let ?n = "length (items (tier_room f))" and ?t = "tier_path f"
  note b = tier_bodyD [OF body]
  obtain fs' h where a: "append_hashes N (fs, hatchling f) batch = Inr ((fs', h), taking)"
    "donut_inv N fs' ?t ?n h" "forward_lookup_vector h = forward_lookup_vector (hatchling f) @ take taking batch"
    "length (forward_lookup_vector h) < ingester_donut_capacity \<Longrightarrow> st00_open fs' h"
    "length (forward_lookup_vector h) = ingester_donut_capacity \<Longrightarrow> fm_open_files_by_handle (st00_manifest h) = []"
    "fs_wf fs'" "\<And>q. \<not> prefix (place ?t ?n @ [ST00]) q \<Longrightarrow> fs_node fs' q = fs_node fs q"
    "\<And>q. fs_is_directory fs' q = fs_is_directory fs q"
    "remaining_capacity h = ingester_donut_capacity - length (forward_lookup_vector h)"
    using donut_append [OF b(8) open' wf] unfolding taking_def by blast
  have "tier_body N (fs', f\<lparr>hatchling := h\<rparr>)"
  proof (rule tier_bodyI [where t = ?t and r = "tier_room f" and h = h])
    show "filled_inv N fs' ?t k (items (tier_room f) ! k)" if k: "k < ?n" for k
    proof (rule filled_inv_frame [OF b(7) [OF k] a(6)], intro allI impI)
      fix q assume q: "prefix (place ?t k) q"
      have "\<not> prefix (place ?t ?n @ [ST00]) q"
        using place_apart [of ?t k "[]" q ?n "[ST00]"] q k b(6) places_le by auto
      then show "fs_node fs' q = fs_node fs q" by (rule a(7))
    qed
    show "fs_node fs' (place ?t ?n @ [ST01]) = None"
      using b(9) a(7) [of "place ?t ?n @ [ST01]"] by simp
    show "\<exists>k \<le> ?n. name = object_folder_name (donut_offset k)"
      if "fs_node fs' (?t @ [name]) \<noteq> None" "prefix object_folder_prefix name" for name
    proof (rule b(10) [OF _ that(2)])
      have "\<not> prefix (place ?t ?n @ [ST00]) (?t @ [name])" by (simp add: place_def)
      from a(7) [OF this] that(1) show "fs_node fs (?t @ [name]) \<noteq> None" by simp
    qed
  qed (use b a in simp_all)
  from that [OF a(1) this a(3-5,9)] show ?thesis .
qed

lemma donut_place_dirs:
  assumes "donut_inv N fs tier k st" "fs_wf fs" "prefix q (place tier k @ [ST00])"
  shows "fs_node fs q = Some Dir"
proof -
  have "fs_is_directory fs (place tier k @ [ST00])"
    using assms(1) by (auto simp: donut_inv_def st00_files_with_def fm_inv_def)
  moreover obtain r where "place tier k @ [ST00] = q @ r" using assms(3) by (auto simp: prefix_def)
  ultimately show ?thesis
    using fs_wf_node_parent [OF assms(2), of q r] by (cases "r = []") (auto simp: fs_is_directory_def)
qed

lemma free_place_node:
  assumes body: "tier_body N (fs, f)" and k: "length (items (tier_room f)) < k" "k \<le> 6"
  shows "fs_node fs (place (tier_path f) k) = None"
proof (rule ccontr)
  assume "fs_node fs (place (tier_path f) k) \<noteq> None"
  then have "fs_node fs (tier_path f @ [object_folder_name (donut_offset k)]) \<noteq> None"
    by (simp add: place_def)
  moreover have "prefix object_folder_prefix (object_folder_name (donut_offset k))"
    by (simp add: object_folder_name_def)
  ultimately have "\<exists>j \<le> length (items (tier_room f)).
      object_folder_name (donut_offset k) = object_folder_name (donut_offset j)"
    by (rule tier_bodyD(10) [OF body])
  then obtain j where "j \<le> length (items (tier_room f))" "donut_offset k = donut_offset j"
    unfolding object_folder_name_inject by blast
  then show False using k donut_offset_inject [of k j] by simp
qed

lemma mk_st01_ok:
  assumes "fs_wf fs" "donut_inv N fs tier k st" "fs_node fs (place tier k @ [ST01]) = None"
  obtains fs1 where "mk_st01 fs st = Inr (fs1, \<lparr>prior_ST00 = st, st01_path = place tier k @ [ST01]\<rparr>)"
    "fs_wf fs1" "\<And>q. fs_node fs1 q = (if q = place tier k @ [ST01] then Some Dir else fs_node fs q)"
proof -
  let ?p = "place tier k @ [ST01]"
  have obj: "object_path st = place tier k" using assms(2) by (simp add: donut_inv_def)
  have above: "fs_node fs q = Some Dir" if "prefix q ?p" "q \<noteq> ?p" for q
    using donut_place_dirs [OF assms(2,1), of q] that by (auto simp: prefix_snoc)
  obtain fs1 where fs1: "fs_create_directories fs ?p = Inr fs1" "fs_wf fs1"
    "\<And>q. fs_node fs1 q = (if prefix q ?p then Some Dir else fs_node fs q)"
    using fs_create_directories_spec [OF assms(1), of ?p] above assms(3)
    by (metis node.distinct(1) option.distinct(1) option.inject)
  have "fs_node fs1 q = (if q = ?p then Some Dir else fs_node fs q)" for q
    using above [of q] by (auto simp: fs1(3))
  moreover have "mk_st01 fs st = Inr (fs1, \<lparr>prior_ST00 = st, st01_path = ?p\<rparr>)"
    using assms(3) fs1(1) by (simp add: mk_st01_def obj fs_exists_def)
  ultimately show ?thesis using that fs1(2) by blast
qed

lemma donut_offset_Suc: "donut_offset k + of_nat ingester_donut_capacity = donut_offset (Suc k)"
  by (simp add: donut_offset_def)

text \<open>A new hatchling at the next free place.\<close>

lemma spawn_ok:
  assumes "8 * N + 7 < 2 ^ 64" "fs_wf fs" "k \<le> 6"
    and tier: "\<And>q c. prefix q tier \<Longrightarrow> fs_node fs q \<noteq> Some (File c)" and free: "fs_node fs (place tier k) = None"
  obtains fs' h where "mk_st00 N fs (place tier k) ingester_donut_capacity = Inr (fs', h)"
    "donut_inv N fs' tier k h" "st00_open fs' h" "forward_lookup_vector h = []" "fs_wf fs'"
    "\<And>q. \<not> prefix q (place tier k @ [ST00]) \<Longrightarrow> \<not> prefix (place tier k @ [ST00]) q \<Longrightarrow> fs_node fs' q = fs_node fs q"
    "\<And>q. prefix q (place tier k @ [ST00]) \<Longrightarrow> fs_node fs' q = Some Dir"
proof -
  have nofile: "fs_node fs q \<noteq> Some (File c)" if "prefix q (place tier k)" for q c
    using that tier free by (auto simp: place_def prefix_snoc)
  have "unat (donut_offset k) + ingester_donut_capacity < 2 ^ 64 - 1"
    using assms(3) by (simp add: unat_donut_offset tier_numbers)
  from mk_st00_new [OF assms(2) _ _ assms(1) place_offset [OF assms(3)] this
      fs_wf_missing_below [OF assms(2) free] nofile]
  obtain fs' h where h: "mk_st00 N fs (place tier k) ingester_donut_capacity = Inr (fs', h)" "st00_mem N h"
    "st00_files N fs' h" "st00_open fs' h" "forward_lookup_vector h = []" "capacity h = ingester_donut_capacity"
    "first_global_pi h = GlobalPi (donut_offset k)" "object_path h = place tier k"
    "st00_path h = place tier k @ [ST00]"
    "\<forall>q. \<not> prefix q (place tier k @ [ST00]) \<longrightarrow> \<not> prefix (place tier k @ [ST00]) q \<longrightarrow> fs_node fs' q = fs_node fs q"
    "\<forall>q. prefix q (place tier k @ [ST00]) \<longrightarrow> fs_node fs' q = Some Dir"
    by (auto simp: tier_numbers)
  have "donut_inv N fs' tier k h" using h unfolding donut_inv_def st00_files_def by blast
  moreover have "fs_wf fs'" using h(3) by (auto simp: st00_files_def st00_files_with_def fm_inv_def)
  ultimately show ?thesis using that h by blast
qed

text \<open>The promotion of a full hatchling while the room has space.\<close>

lemma promote_ok:
  assumes body: "tier_body N (fs, f)"
    and full: "length (forward_lookup_vector (hatchling f)) = ingester_donut_capacity"
      "fm_open_files_by_handle (st00_manifest (hatchling f)) = []"
    and space: "length (items (tier_room f)) < tier_fanout"
  obtains fs' f' where "promote_hatchling_and_spawn_next N (fs, f) = Inr (fs', f')" "tier_inv N (fs', f')"
    "tier_path f' = tier_path f" "forward_lookup_vector (hatchling f') = []"
    "length (items (tier_room f')) = Suc (length (items (tier_room f)))"
    "tier_contents (fs', f') = tier_contents (fs, f)"
proof -
  let ?n = "length (items (tier_room f))" and ?t = "tier_path f" and ?h = "hatchling f" and ?r = "tier_room f"
  note b = tier_bodyD [OF body]
  have n: "?n \<le> 6" "Suc ?n \<le> 6" using space by (simp_all add: tier_numbers)
  define d where "d = \<lparr>prior_ST00 = ?h, st01_path = place ?t ?n @ [ST01]\<rparr>"
  obtain fs1 where m: "mk_st01 fs ?h = Inr (fs1, d)" "fs_wf fs1"
    "\<And>q. fs_node fs1 q = (if q = place ?t ?n @ [ST01] then Some Dir else fs_node fs q)"
    using mk_st01_ok [OF b(2,8,9)] unfolding d_def by blast
  have free: "fs_node fs1 (place ?t (Suc ?n)) = None"
    using free_place_node [OF body, of "Suc ?n"] n m(3) by (auto simp: place_def)
  have tdir: "fs_node fs1 q = Some Dir" if q: "prefix q ?t" for q
  proof -
    obtain w where "?t = q @ w" using q by (rule prefixE)
    then have "fs_node fs q = Some Dir"
      using b(3) fs_wf_node_parent [OF b(2), of q w] by (cases "w = []") (auto simp: fs_is_directory_def)
    then show ?thesis by (simp add: m(3))
  qed
  obtain fs2 h2 where s: "mk_st00 N fs1 (place ?t (Suc ?n)) ingester_donut_capacity = Inr (fs2, h2)"
    "donut_inv N fs2 ?t (Suc ?n) h2" "st00_open fs2 h2" "forward_lookup_vector h2 = []" "fs_wf fs2"
    "\<And>q. \<not> prefix q (place ?t (Suc ?n) @ [ST00]) \<Longrightarrow> \<not> prefix (place ?t (Suc ?n) @ [ST00]) q \<Longrightarrow>
        fs_node fs2 q = fs_node fs1 q"
    "\<And>q. prefix q (place ?t (Suc ?n) @ [ST00]) \<Longrightarrow> fs_node fs2 q = Some Dir"
    using spawn_ok [OF b(1) m(2) n(2) _ free] tdir by (metis node.distinct(1) option.inject)
  have far: "fs_node fs2 q = fs_node fs1 q" if q: "prefix (place ?t k @ [x]) q" and k: "k \<le> ?n" for k q x
  proof (rule s(6))
    show "\<not> prefix (place ?t (Suc ?n) @ [ST00]) q"
      using place_apart [OF q, of "Suc ?n" "[ST00]"] k n by auto
    show "\<not> prefix q (place ?t (Suc ?n) @ [ST00])"
      using place_apart [of ?t k "[x]" "place ?t (Suc ?n) @ [ST00]" "Suc ?n" "[ST00]"] q k n
        prefix_order.trans by fastforce
  qed
  have near: "fs_node fs2 (place ?t k) = fs_node fs1 (place ?t k)" if k: "k \<le> ?n" for k
  proof (rule s(6))
    show "\<not> prefix (place ?t (Suc ?n) @ [ST00]) (place ?t k)" by (simp add: place_def)
    show "\<not> prefix (place ?t k) (place ?t (Suc ?n) @ [ST00])"
      using place_apart [of ?t k "[]" "place ?t (Suc ?n) @ [ST00]" "Suc ?n" "[ST00]"] k n by auto
  qed
  define r' where "r' = ?r\<lparr>items := items ?r @ [d]\<rparr>"
  define f' where "f' = f\<lparr>tier_room := r', hatchling := h2\<rparr>"
  have new: "filled_inv N fs2 ?t ?n d"
  proof -
    have "\<forall>q. prefix (place ?t ?n @ [ST00]) q \<longrightarrow> fs_node fs2 q = fs_node fs q"
      using far [of ?n ST00] m(3) by auto
    from donut_inv_frame [OF b(8) s(5) this] have "donut_inv N fs2 ?t ?n ?h" .
    moreover have "fs_node fs2 (place ?t ?n @ [ST01]) = Some Dir"
      using far [of ?n ST01 "place ?t ?n @ [ST01]"] m(3) by simp
    ultimately show ?thesis using full by (simp add: filled_inv_def d_def)
  qed
  have old: "filled_inv N fs2 ?t k (items ?r ! k)" if k: "k < ?n" for k
  proof (rule filled_inv_frame [OF b(7) [OF k] s(5)], intro allI impI)
    fix q assume q: "prefix (place ?t k) q"
    have "q \<noteq> place ?t ?n @ [ST01]"
      using place_apart [of ?t k "[]" q ?n "[ST01]"] q k n by auto
    moreover have "fs_node fs2 q = fs_node fs1 q"
    proof (cases "q = place ?t k")
      case True
      then show ?thesis using near [of k] k by simp
    next
      case False
      then obtain x xs where "q = place ?t k @ x # xs" using q by (metis append_Nil2 neq_Nil_conv prefixE)
      then show ?thesis using far [of k x q] k by simp
    qed
    ultimately show "fs_node fs2 q = fs_node fs q" by (simp add: m(3))
  qed
  have len: "length (items r') = Suc ?n" by (simp add: r'_def)
  have body': "tier_body N (fs2, f')"
  proof (rule tier_bodyI [where t = ?t and r = r' and h = h2], unfold len)
    show "filled_inv N fs2 ?t k (items r' ! k)" if "k < Suc ?n" for k
      using that new old by (auto simp: r'_def nth_append less_Suc_eq)
    show "fs_node fs2 (place ?t (Suc ?n) @ [ST01]) = None"
      using s(6) [of "place ?t (Suc ?n) @ [ST01]"] fs_wf_missing_below [OF m(2) free, of "[ST01]"] by simp
    show "\<exists>k \<le> Suc ?n. name = object_folder_name (donut_offset k)"
      if name: "fs_node fs2 (?t @ [name]) \<noteq> None" "prefix object_folder_prefix name" for name
    proof (cases "?t @ [name] = place ?t (Suc ?n)")
      case True
      then show ?thesis by (intro exI [of _ "Suc ?n"]) (simp add: place_def)
    next
      case False
      have "fs_node fs2 (?t @ [name]) = fs_node fs1 (?t @ [name])"
        using False by (intro s(6)) (auto simp: place_def)
      then have "fs_node fs (?t @ [name]) \<noteq> None" using name(1) m(3) by (simp add: place_def)
      from b(10) [OF this name(2)] show ?thesis using le_SucI by blast
    qed
    show "fs_is_directory fs2 ?t"
      using s(7) [of ?t] by (simp add: fs_is_directory_def place_def)
  qed (use b s space in \<open>simp_all add: f'_def r'_def\<close>)
  then have "tier_inv N (fs2, f')"
    using s(3,4) by (simp add: tier_inv_def f'_def tier_numbers)
  moreover have "promote_hatchling_and_spawn_next N (fs, f) = Inr (fs2, f')"
    using b(4,8) m(1) s(1) space n
    by (simp add: promote_hatchling_and_spawn_next_def donut_inv_def place_offset donut_offset_Suc
        lookupable_feed_def Feed_def producer_may_run_def f'_def r'_def flip: place_def)
  moreover have "tier_contents (fs2, f') = tier_contents (fs, f)"
    using s(4) by (simp add: tier_contents_def f'_def r'_def room_entries_def st01_entries_def d_def)
  ultimately show ?thesis
    using s(4) len by (intro that [of fs2 f']) (simp_all add: f'_def)
qed

lemma length_tier_contents:
  assumes "tier_body N (fs, f)"
  shows "length (tier_contents (fs, f)) =
    length (items (tier_room f)) * ingester_donut_capacity + length (forward_lookup_vector (hatchling f))"
proof -
  have "\<forall>s \<in> set (items (tier_room f)). length (st01_entries s) = ingester_donut_capacity"
    using tier_bodyD(7) [OF assms] by (auto simp: in_set_conv_nth filled_inv_def st01_entries_def)
  then have "length (concat (map st01_entries (items (tier_room f)))) = length (items (tier_room f)) * ingester_donut_capacity"
    by (induction "items (tier_room f)") (auto simp: length_concat comp_def sum_list_triv map_eq_conv cong: map_cong)
  then show ?thesis by (simp add: tier_contents_def room_entries_def)
qed

text \<open>With a full room the promotion waits in \<open>Feed\<close>, and nothing ever discards the room.\<close>

lemma promote_blocks:
  assumes "tier_body N (fs, f)" "length (items (tier_room f)) = tier_fanout"
  shows "promote_hatchling_and_spawn_next N (fs, f) = Inl Blocked"
proof -
  note b = tier_bodyD [OF assms(1)]
  obtain fs1 d where "mk_st01 fs (hatchling f) = Inr (fs1, d)"
    using mk_st01_ok [OF b(2,8,9)] by blast
  then show ?thesis
    using b(8) assms(2)
    by (simp add: promote_hatchling_and_spawn_next_def donut_inv_def place_offset places_le
        lookupable_feed_def Feed_def producer_may_run_def tier_numbers)
qed

text \<open>One round of the draining loop.\<close>

lemma drain_round:
  assumes inv: "tier_inv N (fs, f)" and wf: "\<forall>h. Some h \<in> set batch \<longrightarrow> hash_wf N h" and ne: "batch \<noteq> []"
  obtains fs1 h taking where "0 < taking" "taking \<le> length batch"
    "append_hashes N (fs, hatchling f) batch = Inr ((fs1, h), taking)"
    "tier_body N (fs1, f\<lparr>hatchling := h\<rparr>)"
    "tier_contents (fs1, f\<lparr>hatchling := h\<rparr>) = tier_contents (fs, f) @ take taking batch"
    "remaining_capacity h = 0 \<longleftrightarrow> length (forward_lookup_vector h) = ingester_donut_capacity"
    "remaining_capacity h \<noteq> 0 \<longrightarrow> tier_inv N (fs1, f\<lparr>hatchling := h\<rparr>) \<and> taking = length batch"
    "remaining_capacity h = 0 \<longrightarrow> fm_open_files_by_handle (st00_manifest h) = []"
proof -
  let ?fv = "forward_lookup_vector (hatchling f)"
  define taking where "taking = min (length batch) (ingester_donut_capacity - length ?fv)"
  have i: "tier_body N (fs, f)" "st00_open fs (hatchling f)" "length ?fv < ingester_donut_capacity"
    using inv by (simp_all add: tier_inv_def)
  obtain fs1 h where a: "append_hashes N (fs, hatchling f) batch = Inr ((fs1, h), taking)"
    "tier_body N (fs1, f\<lparr>hatchling := h\<rparr>)" "forward_lookup_vector h = ?fv @ take taking batch"
    "length (forward_lookup_vector h) < ingester_donut_capacity \<Longrightarrow> st00_open fs1 h"
    "length (forward_lookup_vector h) = ingester_donut_capacity \<Longrightarrow> fm_open_files_by_handle (st00_manifest h) = []"
    "remaining_capacity h = ingester_donut_capacity - length (forward_lookup_vector h)"
    using tier_append [OF i(1,2) wf, folded taking_def] by blast
  have len: "length (forward_lookup_vector h) = length ?fv + taking"
    using a(3) by (simp add: taking_def)
  have le: "length (forward_lookup_vector h) \<le> ingester_donut_capacity"
    unfolding len using i(3) by (simp add: taking_def)
  have t: "0 < taking" "taking \<le> length batch" using ne i(3) by (simp_all add: taking_def)
  have all_: "taking = length batch" if "length (forward_lookup_vector h) < ingester_donut_capacity"
    using that unfolding len by (simp add: taking_def)
  show ?thesis
  proof (rule that [OF t a(1,2)])
    show "tier_contents (fs1, f\<lparr>hatchling := h\<rparr>) = tier_contents (fs, f) @ take taking batch"
      by (simp add: tier_contents_def a(3))
    show "remaining_capacity h = 0 \<longleftrightarrow> length (forward_lookup_vector h) = ingester_donut_capacity"
      using a(6) le by linarith
    show "remaining_capacity h \<noteq> 0 \<longrightarrow> tier_inv N (fs1, f\<lparr>hatchling := h\<rparr>) \<and> taking = length batch"
    proof
      assume "remaining_capacity h \<noteq> 0"
      then have lt: "length (forward_lookup_vector h) < ingester_donut_capacity"
        using a(6) le by linarith
      show "tier_inv N (fs1, f\<lparr>hatchling := h\<rparr>) \<and> taking = length batch"
        unfolding tier_inv_def using a(2) a(4) [OF lt] lt all_ [OF lt] by simp
    qed
    show "remaining_capacity h = 0 \<longrightarrow> fm_open_files_by_handle (st00_manifest h) = []"
    proof
      assume "remaining_capacity h = 0"
      then have "length (forward_lookup_vector h) = ingester_donut_capacity" using a(6) le by linarith
      then show "fm_open_files_by_handle (st00_manifest h) = []" by (rule a(5))
    qed
  qed
qed

definition tier_accepts :: "nat \<Rightarrow> fs \<times> tier_folder \<Rightarrow> hash option list \<Rightarrow> bool" where
  "tier_accepts N s batch \<longleftrightarrow> (\<forall>h. Some h \<in> set batch \<longrightarrow> hash_wf N h)
     \<and> length (tier_contents s) + length batch < tier_capacity"

lemma drain_ok:
  assumes "tier_inv N s" "tier_accepts N s batch"
  shows "\<exists>s'. drain N s batch = Inr (s', []) \<and> tier_inv N s' \<and> tier_path (snd s') = tier_path (snd s)
    \<and> tier_contents s' = tier_contents s @ batch"
  using assms
proof (induction "length batch" arbitrary: s batch rule: less_induct)
  case less
  obtain fs f where s: "s = (fs, f)" by force
  show ?case
  proof (cases "batch = []")
    case True
    then show ?thesis using less.prems(1) by (simp add: drain.simps)
  next
    case False
    have wf: "\<forall>h. Some h \<in> set batch \<longrightarrow> hash_wf N h" using less.prems(2) by (simp add: tier_accepts_def)
    obtain fs1 h taking where r: "0 < taking" "taking \<le> length batch"
      "append_hashes N (fs, hatchling f) batch = Inr ((fs1, h), taking)"
      "tier_body N (fs1, f\<lparr>hatchling := h\<rparr>)"
      "tier_contents (fs1, f\<lparr>hatchling := h\<rparr>) = tier_contents (fs, f) @ take taking batch"
      "remaining_capacity h = 0 \<longleftrightarrow> length (forward_lookup_vector h) = ingester_donut_capacity"
      "remaining_capacity h \<noteq> 0 \<longrightarrow> tier_inv N (fs1, f\<lparr>hatchling := h\<rparr>) \<and> taking = length batch"
      "remaining_capacity h = 0 \<longrightarrow> fm_open_files_by_handle (st00_manifest h) = []"
      by (rule drain_round [OF less.prems(1) [unfolded s] wf False])
    show ?thesis
    proof (cases "remaining_capacity h = 0")
      case True
      let ?f1 = "f\<lparr>hatchling := h\<rparr>"
      have full: "length (forward_lookup_vector (hatchling ?f1)) = ingester_donut_capacity"
        "fm_open_files_by_handle (st00_manifest (hatchling ?f1)) = []"
        using True r(6,8) by simp_all
      have "(length (items (tier_room f)) + 1) * ingester_donut_capacity = length (tier_contents (fs1, ?f1))"
        using length_tier_contents [OF r(4)] full by simp
      also have "\<dots> < tier_capacity" using less.prems(2) r(2,5) by (simp add: tier_accepts_def s)
      finally have space: "length (items (tier_room ?f1)) < tier_fanout" by (simp add: tier_capacity_def)
      obtain fs2 f2 where p: "promote_hatchling_and_spawn_next N (fs1, ?f1) = Inr (fs2, f2)" "tier_inv N (fs2, f2)"
        "tier_path f2 = tier_path ?f1" "tier_contents (fs2, f2) = tier_contents (fs1, ?f1)"
        by (rule promote_ok [OF r(4) full space])
      have "tier_accepts N (fs2, f2) (drop taking batch)"
        using less.prems(2) r(2,5) p(4) by (auto simp: tier_accepts_def s dest: in_set_dropD)
      with less.hyps [of "drop taking batch" "(fs2, f2)"] p(2) r(1) False
      obtain s' where "drain N (fs2, f2) (drop taking batch) = Inr (s', [])" "tier_inv N s'"
        "tier_path (snd s') = tier_path f2" "tier_contents s' = tier_contents (fs2, f2) @ drop taking batch"
        by auto
      then show ?thesis using False r(1,3,5) True p s by (subst drain.simps) simp
    next
      case part: False
      then show ?thesis
        using False r(1,3,5,7) s by (subst drain.simps) (simp add: drain.simps [of N _ "[]"])
    qed
  qed
qed

text \<open>
  The loop waits there: the room is full, a further full donut waits for it, the hatchling is
  empty, and the rest of the batch is still in the buffer.
\<close>

definition waiting_at :: "fs \<times> tier_folder \<Rightarrow> st01 \<Rightarrow> hash option list \<Rightarrow> hash option list \<Rightarrow> bool" where
  "waiting_at t d rest acc \<longleftrightarrow> tier_contents t @ st01_entries d @ rest = acc
   \<and> length (tier_contents t) = tier_fanout * ingester_donut_capacity
   \<and> length (st01_entries d) = ingester_donut_capacity"

lemma move_out_waits:
  assumes "tier_body N (fs, f)" "length (items (tier_room f)) = tier_fanout"
    and "length (forward_lookup_vector (hatchling f)) = ingester_donut_capacity"
  shows "\<exists>t d. move_out_hatchling (fs, f) = Inr (t, d) \<and> waiting_at t d rest (tier_contents (fs, f) @ rest)"
proof -
  note b = tier_bodyD [OF assms(1)]
  obtain fs1 where m: "mk_st01 fs (hatchling f) = Inr (fs1, \<lparr>prior_ST00 = hatchling f,
      st01_path = place (tier_path f) (length (items (tier_room f))) @ [ST01]\<rparr>)"
    using mk_st01_ok [OF b(2,8,9)] by blast
  have "length (room_entries st01_entries (tier_room f)) = tier_fanout * ingester_donut_capacity"
    using length_tier_contents [OF assms(1)] assms(2) by (simp add: tier_contents_def)
  then show ?thesis using m assms(3)
    by (simp add: move_out_hatchling_def waiting_at_def tier_contents_def st01_entries_def)
qed

lemma drain_blocks:
  assumes "tier_inv N s" "\<forall>h. Some h \<in> set batch \<longrightarrow> hash_wf N h"
    and "length (tier_contents s) + length batch \<ge> tier_capacity"
  shows "drain N s batch = Inl Blocked
    \<and> (\<exists>t d rest. drain_waiting N s batch = Some (t, d, rest) \<and> waiting_at t d rest (tier_contents s @ batch))"
  using assms
proof (induction "length batch" arbitrary: s batch rule: less_induct)
  case less
  obtain fs f where s: "s = (fs, f)" by force
  have body: "tier_body N (fs, f)" and part: "length (forward_lookup_vector (hatchling f)) < ingester_donut_capacity"
    using less.prems(1) by (simp_all add: tier_inv_def s)
  have "length (tier_contents (fs, f)) < tier_capacity"
    using length_tier_contents [OF body] tier_bodyD(6) [OF body] part by (simp add: tier_numbers)
  then have ne: "batch \<noteq> []" using less.prems(3) s by auto
  obtain fs1 h taking where r: "0 < taking" "taking \<le> length batch"
    "append_hashes N (fs, hatchling f) batch = Inr ((fs1, h), taking)"
    "tier_body N (fs1, f\<lparr>hatchling := h\<rparr>)"
    "tier_contents (fs1, f\<lparr>hatchling := h\<rparr>) = tier_contents (fs, f) @ take taking batch"
    "remaining_capacity h = 0 \<longleftrightarrow> length (forward_lookup_vector h) = ingester_donut_capacity"
    "remaining_capacity h \<noteq> 0 \<longrightarrow> tier_inv N (fs1, f\<lparr>hatchling := h\<rparr>) \<and> taking = length batch"
    "remaining_capacity h = 0 \<longrightarrow> fm_open_files_by_handle (st00_manifest h) = []"
    by (rule drain_round [OF less.prems(1) [unfolded s] less.prems(2) ne])
  let ?f1 = "f\<lparr>hatchling := h\<rparr>"
  have full: "remaining_capacity h = 0"
  proof (rule ccontr)
    assume "remaining_capacity h \<noteq> 0"
    then have i: "tier_inv N (fs1, ?f1)" "taking = length batch" using r(7) by blast+
    then have "length (tier_contents (fs1, ?f1)) < tier_capacity"
      using length_tier_contents [OF r(4)] tier_bodyD(6) [OF r(4)] by (simp add: tier_inv_def tier_numbers)
    then show False using r(5) i(2) less.prems(3) s by simp
  qed
  show ?case
  proof (cases "length (items (tier_room f)) < tier_fanout")
    case True
    have h: "length (forward_lookup_vector (hatchling ?f1)) = ingester_donut_capacity"
      "fm_open_files_by_handle (st00_manifest (hatchling ?f1)) = []"
      using full r(6,8) by simp_all
    have space: "length (items (tier_room ?f1)) < tier_fanout" using True by simp
    obtain fs2 f2 where p: "promote_hatchling_and_spawn_next N (fs1, ?f1) = Inr (fs2, f2)" "tier_inv N (fs2, f2)"
      "tier_path f2 = tier_path ?f1" "tier_contents (fs2, f2) = tier_contents (fs1, ?f1)"
      by (rule promote_ok [OF r(4) h space])
    have "drain N (fs2, f2) (drop taking batch) = Inl Blocked
      \<and> (\<exists>t d rest. drain_waiting N (fs2, f2) (drop taking batch) = Some (t, d, rest)
          \<and> waiting_at t d rest (tier_contents (fs2, f2) @ drop taking batch))"
    proof (rule less.hyps [OF _ p(2)])
      show "length (drop taking batch) < length batch" using r(1) ne by simp
      show "\<forall>h. Some h \<in> set (drop taking batch) \<longrightarrow> hash_wf N h"
        using less.prems(2) by (auto dest: in_set_dropD)
      show "tier_capacity \<le> length (tier_contents (fs2, f2)) + length (drop taking batch)"
        using less.prems(3) r(2,5) p(4) s by simp
    qed
    moreover have "tier_contents (fs2, f2) @ drop taking batch = tier_contents s @ batch"
      using p(4) r(5) s by simp
    ultimately show ?thesis using ne r(1,3) full p(1) s
      by (subst drain.simps, subst drain_waiting.simps) simp
  next
    case False
    then have n: "length (items (tier_room ?f1)) = tier_fanout" using tier_bodyD(6) [OF body] by simp
    have "length (forward_lookup_vector (hatchling ?f1)) = ingester_donut_capacity" using full r(6) by simp
    from move_out_waits [OF r(4) n this, of "drop taking batch"] promote_blocks [OF r(4) n]
    show ?thesis using ne r(1,3,5) full s
      by (subst drain.simps, subst drain_waiting.simps) auto
  qed
qed

lemma worker_lambda_ok:
  assumes "tier_inv N s" "tier_accepts N s batch"
  shows "\<exists>s'. worker_lambda N s batch flushing = Inr ((s', []), remaining_capacity (hatchling (snd s')))
    \<and> tier_inv N s' \<and> tier_path (snd s') = tier_path (snd s) \<and> tier_contents s' = tier_contents s @ batch"
proof (cases "batch = []")
  case True
  then show ?thesis using assms
    by (intro exI [of _ s]) (simp add: worker_lambda_def flush_manifest_to_disk_def)
next
  case False
  obtain s' where "drain N s batch = Inr (s', [])" "tier_inv N s'" "tier_path (snd s') = tier_path (snd s)"
    "tier_contents s' = tier_contents s @ batch"
    using drain_ok [OF assms] by blast
  then show ?thesis using False
    by (intro exI [of _ s']) (simp add: worker_lambda_def flush_manifest_to_disk_def)
qed

lemma tier_remaining:
  assumes "tier_inv N s"
  shows "remaining_capacity (hatchling (snd s)) = ingester_donut_capacity - length (forward_lookup_vector (hatchling (snd s)))"
proof -
  have "donut_inv N (fst s) (tier_path (snd s)) (length (items (tier_room (snd s)))) (hatchling (snd s))"
    using assms tier_bodyD(8) [of N "fst s" "snd s"] by (simp add: tier_inv_def)
  then have "st00_mem N (hatchling (snd s))" "capacity (hatchling (snd s)) = ingester_donut_capacity"
    unfolding donut_inv_def by blast+
  then show ?thesis using st00_memD(7) by metis
qed

text \<open>The worker is a consumer of the kind the buffer needs.\<close>

interpretation worker: batch_consumer "worker_lambda N" "tier_inv N" tier_contents "\<lambda>_. GlobalPi 0"
  "\<lambda>s. remaining_capacity (hatchling (snd s))" "tier_accepts N"
  for N
proof
  fix s batch flushing
  assume inv: "tier_inv N s"
  then show "0 < remaining_capacity (hatchling (snd s))"
    by (simp add: tier_remaining [OF inv] tier_inv_def)
  have "tier_body N (fst s, snd s)" "length (forward_lookup_vector (hatchling (snd s))) < ingester_donut_capacity"
    using inv by (simp_all add: tier_inv_def)
  then show "unat (gpi_int (GlobalPi 0)) + length (tier_contents s) < 2 ^ 64 - 1"
    using length_tier_contents [of N "fst s" "snd s"] tier_bodyD(6) [of N "fst s" "snd s"]
    by (simp add: tier_numbers)
  show "\<exists>s'. worker_lambda N s batch flushing = Inr ((s', []), remaining_capacity (hatchling (snd s')))
      \<and> tier_inv N s' \<and> GlobalPi 0 = GlobalPi 0 \<and> tier_contents s' = tier_contents s @ batch"
    if "tier_accepts N s batch"
    using worker_lambda_ok [OF inv that] by blast
qed

end
