(* ===== verification/Tier_Restart.thy ===== *)
theory Tier_Restart
  imports Ingester_Tier
begin

text \<open>
  The life of the tier folder of \<^verbatim>\<open>ingester_tier_folder.hpp\<close> across restarts: what its
  constructor makes of an empty place and of what a destroyed tier left on disk.
\<close>

section \<open>The first start\<close>

definition fresh_base :: "nat \<Rightarrow> fs \<Rightarrow> path \<Rightarrow> bool" where
  "fresh_base N fs base \<longleftrightarrow> fs_wf fs \<and> 8 * N + 7 < 2 ^ 64 \<and> fs_node fs (base @ [Folder]) = None
     \<and> list_all (\<lambda>n. case fs_node fs (take n base) of Some (File _) \<Rightarrow> False | _ \<Rightarrow> True) [0..<Suc (length base)]"

lemma list_all_uptD: "list_all P [0..<Suc n] \<Longrightarrow> k \<le> n \<Longrightarrow> P k"
  by (simp only: list_all_iff set_upt) simp

lemma fresh_base_nofile:
  assumes "fresh_base N fs base" "prefix q (base @ [Folder])"
  shows "fs_node fs q \<noteq> Some (File c)"
proof (cases "q = base @ [Folder]")
  case True
  then show ?thesis using assms(1) by (simp add: fresh_base_def)
next
  case False
  then have "prefix q base" using assms(2) by (simp add: prefix_snoc)
  then have "q = take (length q) base" "length q \<le> length base" by (auto simp: prefix_def)
  moreover have "case fs_node fs (take (length q) base) of Some (File _) \<Rightarrow> False | _ \<Rightarrow> True"
    using assms(1) calculation(2) list_all_uptD unfolding fresh_base_def by blast
  ultimately show ?thesis by (auto split: option.splits node.splits)
qed

lemma place_0: "place tier 0 = tier @ [object_folder_name 0]"
  by (simp add: place_def donut_offset_def)

lemma mk_tier_folder_fresh:
  assumes fresh: "fresh_base N fs base"
  obtains s where "mk_tier_folder N fs base = Inr s" "tier_inv N s" "tier_contents s = []"
    "tier_path (snd s) = base @ [Folder]"
proof -
  let ?t = "base @ [Folder]"
  have f: "fs_wf fs" "8 * N + 7 < 2 ^ 64" "fs_node fs ?t = None" using fresh by (simp_all add: fresh_base_def)
  obtain fs1 where fs1: "fs_create_directories fs ?t = Inr fs1" "fs_wf fs1"
    "\<And>q. fs_node fs1 q = (if prefix q ?t then Some Dir else fs_node fs q)"
    using fs_create_directories_spec [OF f(1) fresh_base_nofile [OF fresh]] by blast
  have none: "fs_node fs1 (?t @ [name]) = None" for name
  proof -
    have "\<not> prefix (?t @ [name]) ?t" by (auto dest: prefix_length_le)
    then show ?thesis using fs_wf_missing_below [OF f(1,3), of "[name]"] by (simp add: fs1(3) del: append_assoc)
  qed
  have dir: "fs_is_directory fs1 ?t" by (simp add: fs_is_directory_def fs1(3))
  have off: "object_folder_offsets fs1 ?t = []"
    using object_folder_offsets_set [OF fs1(2) dir] none by (simp add: fs_is_directory_def del: append_assoc)
  have nofile: "fs_node fs1 q \<noteq> Some (File c)" if "prefix q ?t" for q c
    using that by (simp add: fs1(3))
  have free: "fs_node fs1 (place ?t 0) = None" using none by (simp add: place_def del: append_assoc)
  obtain fs2 h where h: "mk_st00 N fs1 (place ?t 0) ingester_donut_capacity = Inr (fs2, h)"
    "donut_inv N fs2 ?t 0 h" "st00_open fs2 h" "forward_lookup_vector h = []" "fs_wf fs2"
    "\<And>q. \<not> prefix q (place ?t 0 @ [ST00]) \<Longrightarrow> \<not> prefix (place ?t 0 @ [ST00]) q \<Longrightarrow> fs_node fs2 q = fs_node fs1 q"
    "\<And>q. prefix q (place ?t 0 @ [ST00]) \<Longrightarrow> fs_node fs2 q = Some Dir"
    using spawn_ok [OF f(2) fs1(2) _ nofile free] by auto
  define t where "t = \<lparr>tier_path = ?t, sorted_offsets_found_at_startup = [], hatchling = h, tier_room = empty_room\<rparr>"
  have "mk_tier_folder N fs base = Inr (fs2, t)"
    using fs1(1) off h(1) by (simp add: mk_tier_folder_def find_sorted_offsets_def create_or_hydrate_hatchling_def
        hydrate_buffer_room_def place_0 t_def)
  moreover have "tier_body N (fs2, t)"
  proof (rule tier_bodyI [where t = ?t and r = empty_room and h = h])
    show "fs_is_directory fs2 ?t" using h(7) [of ?t] by (simp add: fs_is_directory_def place_def)
    show "fs_node fs2 (place ?t (length (items empty_room)) @ [ST01]) = None"
      using h(6) [of "place ?t 0 @ [ST01]"] fs_wf_missing_below [OF fs1(2) free, of "[ST01]"]
      by (simp add: empty_room_def del: append_assoc)
    show "\<exists>k \<le> length (items empty_room). name = object_folder_name (donut_offset k)"
      if name: "fs_node fs2 (?t @ [name]) \<noteq> None" for name
    proof (rule ccontr)
      assume "\<not> ?thesis"
      then have "?t @ [name] \<noteq> place ?t 0" by (auto simp: place_def empty_room_def)
      then have "fs_node fs2 (?t @ [name]) = fs_node fs1 (?t @ [name])"
        by (intro h(6)) (auto simp: place_def)
      then show False using name none by simp
    qed
  qed (use f h in \<open>simp_all add: t_def empty_room_def\<close>)
  ultimately show ?thesis
    using h(3,4) by (intro that [of "(fs2, t)"])
      (simp_all add: tier_inv_def tier_contents_def room_entries_def t_def empty_room_def tier_numbers)
qed

section \<open>Destruction and restart\<close>

lemma destroy_closed: "fm_open_files_by_handle m = [] \<Longrightarrow> destroy_manifest (fs, m) = fs"
  by (simp add: destroy_manifest_def flush_def)

lemma destroy_tier_folder_eq:
  assumes "tier_body N (fs, f)"
  shows "destroy_tier_folder (fs, f) = st00_shutdown (fs, hatchling f)"
proof -
  let ?d = "\<lambda>donut fs. destroy_manifest (fs, st00_manifest (prior_ST00 donut))"
  have "fold ?d ds fs = fs" if "set ds \<subseteq> set (items (tier_room f))" for ds
    using that
  proof (induction ds)
    case (Cons d ds)
    then have "fm_open_files_by_handle (st00_manifest (prior_ST00 d)) = []"
      using tier_bodyD(7) [OF assms] by (auto simp: in_set_conv_nth filled_inv_def)
    then show ?case using Cons by (simp add: destroy_closed)
  qed simp
  from this [of "items (tier_room f)"] show ?thesis
    by (simp add: destroy_tier_folder_def st00_shutdown_def)
qed

lemma donut_shutdown:
  assumes "donut_inv N fs tier k st"
  shows "fs_wf (st00_shutdown (fs, st))"
    and "\<not> prefix (place tier k @ [ST00]) q \<Longrightarrow> fs_node (st00_shutdown (fs, st)) q = fs_node fs q"
    and "fs_is_directory (st00_shutdown (fs, st)) q = fs_is_directory fs q"
proof -
  obtain ob where ob: "st00_files_with N fs st ob" and p: "st00_path st = place tier k @ [ST00]"
    using assms unfolding donut_inv_def by blast
  have inv: "fm_inv (fs, st00_manifest st)" and base: "fm_base_path (st00_manifest st) = place tier k @ [ST00]"
    using ob p by (simp_all add: st00_files_with_def)
  note fl = flush_spec [OF inv]
  show "fs_wf (st00_shutdown (fs, st))"
    using fl(2) by (simp add: st00_shutdown_def destroy_manifest_def)
  show "fs_is_directory (st00_shutdown (fs, st)) q = fs_is_directory fs q"
    using fl(3) by (simp add: st00_shutdown_def destroy_manifest_def)
  show "fs_node (st00_shutdown (fs, st)) q = fs_node fs q" if "\<not> prefix (place tier k @ [ST00]) q"
  proof -
    have "\<not> fm_known (st00_manifest st) q"
      using fm_known_below [of "st00_manifest st" q] that unfolding base by blast
    then show ?thesis using fl(4) [of q] by (simp add: st00_shutdown_def destroy_manifest_def)
  qed
qed

lemma donut_restart:
  assumes inv: "donut_inv N fs tier k st" and k: "k \<le> 6" and N: "8 * N + 7 < 2 ^ 64"
    and distinct: "distinct (hashes_of (forward_lookup_vector st))"
  obtains st3 where
    "mk_st00 N (st00_shutdown (fs, st)) (place tier k) ingester_donut_capacity = Inr (st00_shutdown (fs, st), st3)"
    "donut_inv N (st00_shutdown (fs, st)) tier k st3" "forward_lookup_vector st3 = forward_lookup_vector st"
    "fm_open_files_by_handle (st00_manifest st3) = []" "\<not> fm_finished_sealed (st00_manifest st3)"
proof -
  have i: "st00_mem N st" "capacity st = ingester_donut_capacity" "object_path st = place tier k"
    "st00_path st = place tier k @ [ST00]" "first_global_pi st = GlobalPi (donut_offset k)"
    using inv unfolding donut_inv_def by blast+
  have files: "st00_files N fs st" using inv distinct unfolding donut_inv_def st00_files_def by blast
  let ?fs = "st00_shutdown (fs, st)"
  note sh = shutdown_files [OF files [unfolded st00_files_def]]
  have m: "0 < capacity st" "capacity st \<le> 65535" "unat (donut_offset k) + capacity st < 2 ^ 64 - 1"
    "length (forward_lookup_vector st) \<le> capacity st"
    "\<forall>h. Some h \<in> set (forward_lookup_vector st) \<longrightarrow> hash_wf N h"
    "calculate_bytes_per_local_pi (of_nat (capacity st)) = Inr (dc_bytes_per_local_pi (donut_entries_calculator st))"
    using i(1,5) by (simp_all add: st00_mem_def ingester_donut_capacity_def)
  have n: "fs_node ?fs (place tier k @ [ST00] @ [HASHES_ORDER_FILENAME]) = Some (File (order_file N (forward_lookup_vector st)))"
    "fs_node ?fs (place tier k @ [ST00] @ [''HashEntries.bin'']) = Some (File
      (suffix_records N (dc_bytes_per_local_pi (donut_entries_calculator st)) 0 (forward_lookup_vector st)))"
    using sh(2) sh(3) [OF suffix_file_path_eq] i(4) by simp_all
  obtain st3 where st3: "mk_st00 N ?fs (place tier k) (capacity st) = Inr (?fs, st3)" "st00_mem N st3"
    "st00_files N ?fs st3" "forward_lookup_vector st3 = forward_lookup_vector st" "capacity st3 = capacity st"
    "first_global_pi st3 = GlobalPi (donut_offset k)" "object_path st3 = place tier k"
    "st00_path st3 = place tier k @ [ST00]" "fm_open_files_by_handle (st00_manifest st3) = []"
    "\<not> fm_finished_sealed (st00_manifest st3)"
    using mk_st00_hydrated [OF sh(1) m(1,2) N place_offset [OF k] m(3-6) n(1) suffix_file_path_eq n(2)] by blast
  have "donut_inv N ?fs tier k st3"
    using st3 i(2) unfolding donut_inv_def st00_files_def by auto
  then show ?thesis using that st3 i(2) by simp
qed

text \<open>A filled donut is found again as such.\<close>

lemma filled_restart:
  assumes inv: "filled_inv N fs tier k s" and k: "k \<le> 6" and N: "8 * N + 7 < 2 ^ 64"
    and distinct: "distinct (hashes_of (st01_entries s))"
  obtains s' where
    "ingester_hydrate_evolver_from_disk N fs (place tier k) = Inr (fs, Evolver_ST01 s')"
    "filled_inv N fs tier k s'" "st01_entries s' = st01_entries s"
proof -
  let ?st = "prior_ST00 s"
  have i: "donut_inv N fs tier k ?st" "length (forward_lookup_vector ?st) = ingester_donut_capacity"
    "fm_open_files_by_handle (st00_manifest ?st) = []" "fs_node fs (place tier k @ [ST01]) = Some Dir"
    using inv by (simp_all add: filled_inv_def)
  have sh: "st00_shutdown (fs, ?st) = fs" using i(3) by (simp add: st00_shutdown_def destroy_closed)
  obtain st3 where st3: "mk_st00 N fs (place tier k) ingester_donut_capacity = Inr (fs, st3)"
    "donut_inv N fs tier k st3" "forward_lookup_vector st3 = forward_lookup_vector ?st"
    "fm_open_files_by_handle (st00_manifest st3) = []" "\<not> fm_finished_sealed (st00_manifest st3)"
    by (rule donut_restart [OF i(1) k N distinct [unfolded st01_entries_def], unfolded sh])
  have "object_path st3 = place tier k" using st3(2) unfolding donut_inv_def by blast
  then have "ingester_hydrate_evolver_from_disk N fs (place tier k) =
      Inr (fs, Evolver_ST01 \<lparr>prior_ST00 = st3, st01_path = place tier k @ [ST01]\<rparr>)"
    using st3(1) i(4) by (simp add: ingester_hydrate_evolver_from_disk_def mk_st01_def fs_exists_def)
  moreover have "filled_inv N fs tier k \<lparr>prior_ST00 = st3, st01_path = place tier k @ [ST01]\<rparr>"
    using st3 i(2,4) by (simp add: filled_inv_def)
  ultimately show ?thesis using that st3(3) by (simp add: st01_entries_def)
qed

lemma hydrate_room_loop:
  assumes old: "\<And>k. k < length ds \<Longrightarrow> filled_inv N fs tier k (ds ! k)"
    and len: "length ds \<le> tier_fanout" and N: "8 * N + 7 < 2 ^ 64"
    and distinct: "\<And>k. k < length ds \<Longrightarrow> distinct (hashes_of (st01_entries (ds ! k)))"
    and m: "m \<le> length ds"
  shows "\<exists>r. rfold (hydrate_room_entry N tier) (fs, empty_room) (map donut_offset [0..<m]) = Inr (fs, r)
    \<and> \<not> is_discarding r \<and> active_readers r = 0 \<and> length (items r) = m
    \<and> (\<forall>k < m. filled_inv N fs tier k (items r ! k)) \<and> map st01_entries (items r) = map st01_entries (take m ds)"
  using m
proof (induction m)
  case 0
  then show ?case by (simp add: empty_room_def)
next
  case (Suc m)
  then obtain r where r: "rfold (hydrate_room_entry N tier) (fs, empty_room) (map donut_offset [0..<m]) = Inr (fs, r)"
    "\<not> is_discarding r" "active_readers r = 0" "length (items r) = m"
    "\<forall>k < m. filled_inv N fs tier k (items r ! k)" "map st01_entries (items r) = map st01_entries (take m ds)"
    by auto
  have lt: "m < length ds" using Suc.prems by simp
  obtain s' where s': "ingester_hydrate_evolver_from_disk N fs (place tier m) = Inr (fs, Evolver_ST01 s')"
    "filled_inv N fs tier m s'" "st01_entries s' = st01_entries (ds ! m)"
    using filled_restart [OF old [OF lt] _ N distinct [OF lt]] lt len by (auto simp: tier_numbers)
  have "hydrate_room_entry N tier (fs, r) (donut_offset m) = Inr (fs, r\<lparr>items := items r @ [s']\<rparr>)"
    using s'(1) r(4) lt len by (simp add: hydrate_room_entry_def lookupable_initialize_add_def InitializeAdd_def flip: place_def)
  then show ?case
    using r s' lt
    by (auto simp: rfold_append take_Suc_conv_app_nth less_Suc_eq nth_append)
qed

lemma create_existing:
  assumes "fs_wf fs" "fs_is_directory fs p"
  shows "fs_create_directories fs p = Inr fs"
proof -
  have dir: "fs_node fs (take n p) = Some Dir" for n
    using assms(2) fs_wf_node_parent [OF assms(1), of "take n p" "drop n p"]
    by (cases "drop n p = []") (auto simp: fs_is_directory_def)
  have "rfold fs_mkdir fs (map (\<lambda>n. take n p) ns) = Inr fs" for ns
    by (induction ns) (simp_all add: fs_mkdir_def dir)
  then show ?thesis by (simp add: fs_create_directories_def)
qed

text \<open>The folders of a tier are found in their order.\<close>

lemma tier_offsets:
  assumes wf: "fs_wf fs" and dir: "fs_is_directory fs tier" and n: "n \<le> 5"
    and places: "\<And>k. k \<le> n \<Longrightarrow> fs_is_directory fs (place tier k)"
    and names: "\<And>name. fs_node fs (tier @ [name]) \<noteq> None \<Longrightarrow> prefix object_folder_prefix name \<Longrightarrow>
        \<exists>k \<le> n. name = object_folder_name (donut_offset k)"
  shows "object_folder_offsets fs tier = map donut_offset [0..<Suc n]"
proof -
  have named: "\<exists>w. name = object_folder_name w"
    if "fs_is_directory fs (tier @ [name])" "prefix object_folder_prefix name" for name
    using names [of name] that by (auto simp: fs_is_directory_def)
  note off = object_folder_offsets_set [OF wf dir named]
  have mem: "fs_is_directory fs (tier @ [object_folder_name w]) \<and> unat w < 2 ^ 31 \<longleftrightarrow> w \<in> donut_offset ` {0..n}" for w
  proof
    assume w: "fs_is_directory fs (tier @ [object_folder_name w]) \<and> unat w < 2 ^ 31"
    then have "fs_node fs (tier @ [object_folder_name w]) \<noteq> None" by (simp add: fs_is_directory_def)
    moreover have "prefix object_folder_prefix (object_folder_name w)" by (simp add: object_folder_name_def)
    ultimately have "\<exists>k \<le> n. object_folder_name w = object_folder_name (donut_offset k)" by (rule names)
    then show "w \<in> donut_offset ` {0..n}" unfolding object_folder_name_inject by auto
  next
    assume "w \<in> donut_offset ` {0..n}"
    then obtain k where "k \<le> n" "w = donut_offset k" by auto
    then show "fs_is_directory fs (tier @ [object_folder_name w]) \<and> unat w < 2 ^ 31"
      using places [of k] n by (simp add: place_def unat_donut_offset)
  qed
  have set_eq: "set (object_folder_offsets fs tier) = set (map donut_offset [0..<Suc n])"
    using off mem by (auto simp: atLeastLessThanSuc_atLeastAtMost simp del: upt_Suc)
  have "sorted_wrt (<) (map donut_offset [0..<Suc n])"
    unfolding sorted_wrt_map
    by (rule sorted_wrt_mono_rel [OF _ sorted_wrt_upt])
      (use n in \<open>auto simp: word_less_nat_alt unat_donut_offset simp del: upt_Suc\<close>)
  then have "sorted (map donut_offset [0..<Suc n])" "distinct (map donut_offset [0..<Suc n])"
    by (simp_all add: strict_sorted_iff del: upt_Suc)
  then show ?thesis using off set_eq by (intro sorted_distinct_set_unique) auto
qed

lemma tier_restart:
  assumes body: "tier_body N (fs, f)" and path: "tier_path f = base @ [Folder]"
    and distinct: "distinct (hashes_of (tier_contents (fs, f)))"
  obtains f' where "mk_tier_folder N (destroy_tier_folder (fs, f)) base = Inr (destroy_tier_folder (fs, f), f')"
    "tier_body N (destroy_tier_folder (fs, f), f')" "tier_path f' = tier_path f"
    "map st01_entries (items (tier_room f')) = map st01_entries (items (tier_room f))"
    "forward_lookup_vector (hatchling f') = forward_lookup_vector (hatchling f)"
    "fm_open_files_by_handle (st00_manifest (hatchling f')) = []"
    "\<not> fm_finished_sealed (st00_manifest (hatchling f'))"
proof -
  let ?t = "tier_path f" and ?ds = "items (tier_room f)"
  let ?n = "length ?ds" and ?fs = "st00_shutdown (fs, hatchling f)"
  note b = tier_bodyD [OF body]
  have n: "?n \<le> 4" using b(6) by (simp add: tier_numbers)
  note sh = donut_shutdown [OF b(8)]
  have dsplit: "distinct (hashes_of (concat (map st01_entries ?ds)))" "distinct (hashes_of (forward_lookup_vector (hatchling f)))"
    using distinct by (simp_all add: tier_contents_def room_entries_def hashes_of_def)
  have dk: "distinct (hashes_of (st01_entries (?ds ! k)))" if "k < ?n" for k
  proof -
    have "?ds = take k ?ds @ ?ds ! k # drop (Suc k) ?ds" using that by (rule id_take_nth_drop)
    then have "concat (map st01_entries ?ds) = concat (map st01_entries (take k ?ds)) @ st01_entries (?ds ! k)
        @ concat (map st01_entries (drop (Suc k) ?ds))"
      by (metis concat.simps(2) concat_append list.simps(9) map_append)
    then show ?thesis using dsplit(1) by (simp add: hashes_of_def)
  qed
  obtain h3 where h3: "mk_st00 N ?fs (place ?t ?n) ingester_donut_capacity = Inr (?fs, h3)"
    "donut_inv N ?fs ?t ?n h3" "forward_lookup_vector h3 = forward_lookup_vector (hatchling f)"
    "fm_open_files_by_handle (st00_manifest h3) = []" "\<not> fm_finished_sealed (st00_manifest h3)"
    using donut_restart [OF b(8) _ b(1) dsplit(2)] n by auto
  have filled: "filled_inv N ?fs ?t k (?ds ! k)" if k: "k < ?n" for k
  proof (rule filled_inv_frame [OF b(7) [OF k] sh(1)], intro allI impI)
    fix q assume q: "prefix (place ?t k) q"
    have "\<not> prefix (place ?t ?n @ [ST00]) q"
      using place_apart [of ?t k "[]" q ?n "[ST00]"] q k n by auto
    then show "fs_node ?fs q = fs_node fs q" by (rule sh(2))
  qed
  obtain r where r: "rfold (hydrate_room_entry N ?t) (?fs, empty_room) (map donut_offset [0..<?n]) = Inr (?fs, r)"
    "\<not> is_discarding r" "active_readers r = 0" "length (items r) = ?n"
    "\<forall>k < ?n. filled_inv N ?fs ?t k (items r ! k)" "map st01_entries (items r) = map st01_entries ?ds"
    using hydrate_room_loop [OF filled b(6,1) dk order_refl] by auto
  have dir: "fs_is_directory ?fs ?t" using b(3) sh(3) by simp
  have tnodes: "fs_node ?fs (?t @ [name]) = fs_node fs (?t @ [name])" for name
    by (rule sh(2)) (simp add: place_def)
  have places: "fs_is_directory ?fs (place ?t k)" if "k \<le> ?n" for k
  proof (cases "k = ?n")
    case True
    then show ?thesis using donut_place_dirs [OF h3(2) sh(1), of "place ?t k"] by (simp add: fs_is_directory_def)
  next
    case False
    then have "donut_inv N ?fs ?t k (prior_ST00 (?ds ! k))" using filled [of k] that by (simp add: filled_inv_def)
    then show ?thesis using donut_place_dirs [OF _ sh(1), of N ?t k _ "place ?t k"] by (simp add: fs_is_directory_def)
  qed
  have names: "\<exists>k \<le> ?n. name = object_folder_name (donut_offset k)"
    if "fs_node ?fs (?t @ [name]) \<noteq> None" "prefix object_folder_prefix name" for name
    using b(10) that unfolding tnodes by blast
  have off: "object_folder_offsets ?fs ?t = map donut_offset [0..<Suc ?n]"
    using tier_offsets [OF sh(1) dir _ places names] n by simp
  define f' where "f' = \<lparr>tier_path = ?t, sorted_offsets_found_at_startup = map donut_offset [0..<Suc ?n],
      hatchling = h3, tier_room = r\<rparr>"
  have hyd: "hydrate_buffer_room N ?fs ?t (map donut_offset [0..<Suc ?n]) empty_room = Inr (?fs, r)"
  proof (cases "?n = 0")
    case True
    then show ?thesis using r(1) by (simp add: hydrate_buffer_room_def tier_numbers)
  next
    case False
    have "take ?n (map donut_offset [0..<Suc ?n]) = map donut_offset [0..<?n]"
      by (simp add: take_map del: upt_Suc)
    then show ?thesis using r(1) False n by (simp add: hydrate_buffer_room_def tier_numbers)
  qed
  have last: "last (map donut_offset [0..<Suc ?n]) = donut_offset ?n" "map donut_offset [0..<Suc ?n] \<noteq> []"
    by simp_all
  have "mk_tier_folder N ?fs base = Inr (?fs, f')"
    using create_existing [OF sh(1) dir] off hyd h3(1) last
    by (simp add: mk_tier_folder_def find_sorted_offsets_def create_or_hydrate_hatchling_def f'_def
        path [symmetric] del: upt_Suc flip: place_def)
  moreover have "tier_body N (?fs, f')"
  proof (rule tier_bodyI [where t = ?t and r = r and h = h3], unfold r(4))
    show "fs_node ?fs (place ?t ?n @ [ST01]) = None" using b(9) sh(2) [of "place ?t ?n @ [ST01]"] by simp
  qed (use b(1,6) r sh(1) dir h3(2) names in \<open>simp_all add: f'_def\<close>)
  ultimately show ?thesis
    using that [of f'] r(6) h3(3-5) by (simp add: destroy_tier_folder_eq [OF body] f'_def)
qed

end
