(* ===== verification/Ingester.thy ===== *)
theory Ingester
  imports Tier_Restart
begin

text \<open>
  \<^verbatim>\<open>apps/wedding_cake/include/ingester.hpp\<close>, \<^verbatim>\<open>ingestor_worker.hpp\<close> and \<^verbatim>\<open>store_b.hpp\<close>: the
  ingester as its clients see it.  The clients' calls, the iterations of the worker thread and
  the two steps of the destructor interleave; each runs under the mutex of the buffer, so it is
  one step of \<open>ingester_step\<close>.
\<close>

section \<open>State and construction\<close>

text \<open>
  The worker thread is at the test of its loop, about to enter \<open>with_at_least_n_hashes\<close>, waiting
  for ever inside it with the mutex held, dead by an exception, or done.  While it waits in
  \<open>BufferRoom::Feed\<close> it holds the promoted donut in a local variable, \<open>ig_in_flight\<close>.
\<close>

datatype worker_pc = At_Head | In_Loop | Stuck | Terminated | Exited

record ingester =
  ig_tier :: "fs \<times> tier_folder"
  ig_buffer :: ingester_buffer
  ig_stop_requested :: bool
  ig_worker :: worker_pc
  ig_in_flight :: "st01 option"

definition get_downstream_remaining_capacity :: "tier_folder \<Rightarrow> nat" where
  [simp]: "get_downstream_remaining_capacity f = remaining_capacity (hatchling f)"

definition get_downstream_next_offset :: "tier_folder \<Rightarrow> global_pi" where
  [simp]: "get_downstream_next_offset f = st00_next_offset (hatchling f)"

definition mk_ingester :: "nat \<Rightarrow> fs \<Rightarrow> path \<Rightarrow> ingester res" where
  "mk_ingester N fs base_path =
     rbind (mk_tier_folder N fs base_path) (\<lambda>t.
     rbind (mk_ingester_buffer (get_downstream_remaining_capacity (snd t)) (get_downstream_next_offset (snd t))) (\<lambda>b.
     Inr \<lparr>ig_tier = t, ig_buffer = b, ig_stop_requested = False, ig_worker = At_Head, ig_in_flight = None\<rparr>))"

definition ingester_first_offset :: "(st01 buffer_room \<Rightarrow> bool) \<Rightarrow> ingester \<Rightarrow> global_pi res" where
  "ingester_first_offset buffer_empty s = tier_first_offset buffer_empty (snd (ig_tier s))"

definition ingester_next_offset :: "ingester \<Rightarrow> global_pi" where
  "ingester_next_offset s = ram_next_offset (ig_buffer s)"

definition ensure_base_dir_created :: "fs \<Rightarrow> path \<Rightarrow> fs res" where
  "ensure_base_dir_created fs base_path = fs_create_directories fs base_path"

definition mk_store_b :: "nat \<Rightarrow> fs \<Rightarrow> path \<Rightarrow> ingester res" where
  "mk_store_b N fs base_path =
     rbind (ensure_base_dir_created fs base_path) (\<lambda>fs1. mk_ingester N fs1 base_path)"

definition store_b_first_offset :: "(st01 buffer_room \<Rightarrow> bool) \<Rightarrow> ingester \<Rightarrow> global_pi res" where
  "store_b_first_offset buffer_empty s = ingester_first_offset buffer_empty s"

definition store_b_next_offset :: "ingester \<Rightarrow> global_pi" where
  "store_b_next_offset s = ingester_next_offset s"

text \<open>The lookups of the store are placeholders that stop the program.\<close>

definition store_b_forward_lookup :: "ingester \<Rightarrow> global_pi \<Rightarrow> hash option res" where
  "store_b_forward_lookup s g = Inl (Assert_Failed ''Sorry! Not implemented until we have a Foreperson'')"

definition store_b_reverse_lookup :: "ingester \<Rightarrow> hash \<Rightarrow> global_pi res" where
  "store_b_reverse_lookup s h = Inl (Assert_Failed ''Sorry! Not implemented until we have a Foreperson'')"

section \<open>The steps\<close>

text \<open>A worker that waits or died inside the lambda never gives the mutex back.\<close>

definition mutex_free :: "ingester \<Rightarrow> bool" where
  "mutex_free s \<longleftrightarrow> ig_worker s \<noteq> Stuck \<and> ig_worker s \<noteq> Terminated"

definition ingester_feed :: "hash option list \<Rightarrow> ingester \<Rightarrow> ingester res" where
  "ingester_feed hashes s =
     rbind (feed_block_of_hashes hashes (ig_buffer s)) (\<lambda>b. Inr (s\<lparr>ig_buffer := b\<rparr>))"

definition ingester_flush :: "ingester \<Rightarrow> ingester" where
  "ingester_flush s = s\<lparr>ig_buffer := flush_request (ig_buffer s)\<rparr>"

definition store_b_feed :: "u64 \<Rightarrow> hash option list \<Rightarrow> ingester \<Rightarrow> ingester res" where
  "store_b_feed block_height hashes s = ingester_feed hashes s"

definition store_b_flush :: "ingester \<Rightarrow> ingester" where
  "store_b_flush s = ingester_flush s"

definition request_stop :: "ingester \<Rightarrow> ingester" where
  "request_stop s = s\<lparr>ig_stop_requested := True\<rparr>"

definition stop_buffer :: "ingester \<Rightarrow> ingester" where
  "stop_buffer s = s\<lparr>ig_buffer := stop (ig_buffer s)\<rparr>"

definition destroy_members :: "ingester \<Rightarrow> fs" where
  "destroy_members s = destroy_tier_folder (ig_tier s)"

text \<open>
  One call of \<open>with_at_least_n_hashes\<close> by the worker.  If the lambda waits in \<open>Feed\<close>, what it did
  until then stays: the files and donuts it filled, the hashes it erased from the buffer, and the
  hatchling it moved out; if the worker just waits for hashes, nothing changes.  An exception leaves
  the thread's function and ends the program, so the rest of its state does not matter.
\<close>

definition worker_iteration :: "nat \<Rightarrow> ingester \<Rightarrow> ingester" where
  "worker_iteration N s =
     (case with_at_least_n_hashes (worker_lambda N) (ig_tier s, ig_buffer s) of
        Inr (t, b) \<Rightarrow> s\<lparr>ig_tier := t, ig_buffer := b, ig_worker := At_Head\<rparr>
      | Inl Blocked \<Rightarrow>
          (case if has_items (ig_buffer s) then drain_waiting N (ig_tier s) (ram_buffer (ig_buffer s)) else None of
             Some (t, promoted, rest) \<Rightarrow>
               s\<lparr>ig_tier := t, ig_buffer := (ig_buffer s)\<lparr>ram_buffer := rest\<rparr>,
                 ig_in_flight := Some promoted, ig_worker := Stuck\<rparr>
           | None \<Rightarrow> s)
      | Inl _ \<Rightarrow> s\<lparr>ig_worker := Terminated\<rparr>)"

text \<open>The label is what the step adds to the stream of accepted hashes.\<close>

inductive ingester_step :: "nat \<Rightarrow> ingester \<Rightarrow> hash option list \<Rightarrow> ingester \<Rightarrow> bool" for N where
  client_feed: "mutex_free s \<Longrightarrow> \<forall>h. Some h \<in> set hashes \<longrightarrow> hash_wf N h \<Longrightarrow>
    ingester_feed hashes s = Inr s' \<Longrightarrow>
    ingester_step N s (if stopping (ig_buffer s) then [] else hashes) s'"
| client_flush: "mutex_free s \<Longrightarrow> ingester_step N s [] (ingester_flush s)"
| worker_enter: "ig_worker s = At_Head \<Longrightarrow> \<not> ig_stop_requested s \<Longrightarrow>
    ingester_step N s [] (s\<lparr>ig_worker := In_Loop\<rparr>)"
| worker_leave: "ig_worker s = At_Head \<Longrightarrow> ig_stop_requested s \<Longrightarrow>
    ingester_step N s [] (s\<lparr>ig_worker := Exited\<rparr>)"
| worker_run: "ig_worker s = In_Loop \<Longrightarrow> has_items (ig_buffer s) \<Longrightarrow>
    ingester_step N s [] (worker_iteration N s)"
| destroy_request: "ingester_step N s [] (request_stop s)"
| destroy_stop: "ig_stop_requested s \<Longrightarrow> mutex_free s \<Longrightarrow> ingester_step N s [] (stop_buffer s)"

inductive ingester_run :: "nat \<Rightarrow> ingester \<Rightarrow> hash option list \<Rightarrow> ingester \<Rightarrow> bool" for N where
  run_nil: "ingester_run N s [] s"
| run_step: "ingester_run N s acc s1 \<Longrightarrow> ingester_step N s1 new s2 \<Longrightarrow> ingester_run N s (acc @ new) s2"

section \<open>The stream is kept\<close>

definition stream_inv :: "nat \<Rightarrow> path \<Rightarrow> hash option list \<Rightarrow> ingester \<Rightarrow> bool" where
  "stream_inv N base acc s \<longleftrightarrow>
     ig_worker s \<noteq> Terminated \<and> (\<forall>h. Some h \<in> set acc \<longrightarrow> hash_wf N h)
   \<and> (if ig_worker s = Stuck
      then \<exists>d. ig_in_flight s = Some d \<and> waiting_at (ig_tier s) d (ram_buffer (ig_buffer s)) acc
      else ig_in_flight s = None \<and> worker.linked N (ig_tier s) (ig_buffer s)
         \<and> tier_path (snd (ig_tier s)) = base @ [Folder]
         \<and> tier_contents (ig_tier s) @ ram_buffer (ig_buffer s) = acc)"

lemma waiting_at_split:
  assumes "waiting_at t d rest acc"
  shows "5 * 65535 \<le> length acc" "rest = drop (5 * 65535) acc"
    "tier_contents t @ st01_entries d = take (5 * 65535) acc"
proof -
  have acc: "acc = (tier_contents t @ st01_entries d) @ rest"
    and len: "length (tier_contents t @ st01_entries d) = 5 * 65535"
    using assms by (simp_all add: waiting_at_def tier_numbers)
  show "5 * 65535 \<le> length acc" "rest = drop (5 * 65535) acc"
    "tier_contents t @ st01_entries d = take (5 * 65535) acc"
    unfolding acc using len by simp_all
qed

lemma stuck_length: "stream_inv N base acc s \<Longrightarrow> ig_worker s = Stuck \<Longrightarrow> 5 * 65535 \<le> length acc"
  by (auto simp: stream_inv_def dest: waiting_at_split(1))

lemma linked_inv: "worker.linked N t b \<Longrightarrow> tier_inv N t"
  by (simp add: worker.linked_def)

lemma mk_ingester_start:
  assumes "fresh_base N fs base"
  obtains s where "mk_ingester N fs base = Inr s" "stream_inv N base [] s"
    "ig_worker s = At_Head" "\<not> ig_stop_requested s" "\<not> stopping (ig_buffer s)" "\<not> please_flush (ig_buffer s)"
    "tier_contents (ig_tier s) = []" "ram_buffer (ig_buffer s) = []" "ig_in_flight s = None"
proof -
  obtain t where t: "mk_tier_folder N fs base = Inr t" "tier_inv N t" "tier_contents t = []"
    "tier_path (snd t) = base @ [Folder]"
    by (rule mk_tier_folder_fresh [OF assms])
  obtain ft f where tf: "t = (ft, f)" by force
  have body: "tier_body N (ft, f)" using t(2) by (simp add: tier_inv_def tf)
  have zero: "items (tier_room f) = []" "forward_lookup_vector (hatchling f) = []"
    using length_tier_contents [OF body] t(3) by (simp_all add: tf tier_numbers)
  have d: "st00_mem N (hatchling f)" "first_global_pi (hatchling f) = GlobalPi (donut_offset 0)"
    using tier_bodyD(8) [OF body] zero unfolding donut_inv_def by auto
  have next': "st00_next_offset (hatchling f) = gpi_at (GlobalPi 0) (length (tier_contents t))"
    using st00_next_offset_eq [OF d(1)] d(2) zero t(3) by (simp add: st00_first_offset_def donut_offset_def)
  have "unat (gpi_int (gpi_at (GlobalPi 0) (length (tier_contents t)))) < 2 ^ 64 - 1" by (simp add: t(3))
  from mk_ingester_buffer_ok [OF worker.free_positive [OF t(2)] this] obtain b where
    b: "mk_ingester_buffer (remaining_capacity (hatchling (snd t))) (gpi_at (GlobalPi 0) (length (tier_contents t))) = Inr b"
    by blast
  note l = worker.linked_start [OF t(2) b]
  let ?s = "\<lparr>ig_tier = t, ig_buffer = b, ig_stop_requested = False, ig_worker = At_Head, ig_in_flight = None\<rparr>"
  have "mk_ingester N fs base = Inr ?s"
    using t(1) b next' by (simp add: mk_ingester_def tf)
  moreover have "stream_inv N base [] ?s" using l t(3,4) by (simp add: stream_inv_def)
  ultimately show ?thesis using that [of ?s] l t(3) by simp
qed

lemma tier_contents_less:
  assumes "tier_inv N t"
  shows "length (tier_contents t) < tier_capacity"
proof -
  have "tier_body N (fst t, snd t)" "length (forward_lookup_vector (hatchling (snd t))) < ingester_donut_capacity"
    using assms by (simp_all add: tier_inv_def)
  then show ?thesis
    using length_tier_contents [of N "fst t" "snd t"] tier_bodyD(6) [of N "fst t" "snd t"]
    by (simp add: tier_numbers)
qed

text \<open>What an iteration of the worker does to a buffer with work.\<close>

lemma worker_iteration_ok:
  assumes "worker.linked N (ig_tier s) (ig_buffer s)" "has_items (ig_buffer s)"
    and "\<forall>h. Some h \<in> set (ram_buffer (ig_buffer s)) \<longrightarrow> hash_wf N h"
    and "length (tier_contents (ig_tier s)) + length (ram_buffer (ig_buffer s)) < tier_capacity"
  obtains t b where "worker_iteration N s = s\<lparr>ig_tier := t, ig_buffer := b, ig_worker := At_Head\<rparr>"
    "worker.linked N t b" "tier_contents t = tier_contents (ig_tier s) @ ram_buffer (ig_buffer s)"
    "ram_buffer b = []" "flush_done b" "stopping b = stopping (ig_buffer s)"
    "tier_path (snd t) = tier_path (snd (ig_tier s))"
proof -
  have acc: "tier_accepts N (ig_tier s) (ram_buffer (ig_buffer s))"
    using assms(3,4) by (simp add: tier_accepts_def)
  obtain t b where w: "with_at_least_n_hashes (worker_lambda N) (ig_tier s, ig_buffer s) = Inr (t, b)"
    "worker.linked N t b" "tier_contents t = tier_contents (ig_tier s) @ ram_buffer (ig_buffer s)"
    "ram_buffer b = []" "flush_done b" "stopping b = stopping (ig_buffer s)"
    using worker.linked_drain [OF assms(1,2) acc] by blast
  have "tier_path (snd t) = tier_path (snd (ig_tier s))"
  proof -
    obtain s' where "\<forall>fl. \<exists>s'. worker_lambda N (ig_tier s) (ram_buffer (ig_buffer s)) fl =
        Inr ((s', []), remaining_capacity (hatchling (snd s'))) \<and> tier_path (snd s') = tier_path (snd (ig_tier s))"
      using worker_lambda_ok [OF linked_inv [OF assms(1)] acc] by blast
    then show ?thesis
      using w(1) assms(2) by (auto simp: with_at_least_n_hashes_def rbind_eq_Inr Let_def split: if_splits)
        (metis Inr_inject Pair_inject)+
  qed
  moreover have "worker_iteration N s = s\<lparr>ig_tier := t, ig_buffer := b, ig_worker := At_Head\<rparr>"
    by (simp add: worker_iteration_def w(1))
  ultimately show ?thesis using that w by blast
qed

lemma worker_iteration_blocks:
  assumes "worker.linked N (ig_tier s) (ig_buffer s)" "has_items (ig_buffer s)"
    and "\<forall>h. Some h \<in> set (ram_buffer (ig_buffer s)) \<longrightarrow> hash_wf N h"
    and "length (tier_contents (ig_tier s)) + length (ram_buffer (ig_buffer s)) \<ge> tier_capacity"
  obtains t d rest where "worker_iteration N s = s\<lparr>ig_tier := t, ig_buffer := (ig_buffer s)\<lparr>ram_buffer := rest\<rparr>,
      ig_in_flight := Some d, ig_worker := Stuck\<rparr>"
    "waiting_at t d rest (tier_contents (ig_tier s) @ ram_buffer (ig_buffer s))"
proof -
  have inv: "tier_inv N (ig_tier s)" by (rule linked_inv [OF assms(1)])
  have ne: "ram_buffer (ig_buffer s) \<noteq> []"
    using assms(4) tier_contents_less [OF inv] by auto
  obtain t d rest where d: "drain N (ig_tier s) (ram_buffer (ig_buffer s)) = Inl Blocked"
    "drain_waiting N (ig_tier s) (ram_buffer (ig_buffer s)) = Some (t, d, rest)"
    "waiting_at t d rest (tier_contents (ig_tier s) @ ram_buffer (ig_buffer s))"
    using drain_blocks [OF inv assms(3,4)] by blast
  then have "with_at_least_n_hashes (worker_lambda N) (ig_tier s, ig_buffer s) = Inl Blocked"
    using assms(2) ne by (simp add: with_at_least_n_hashes_def worker_lambda_def Let_def)
  then show ?thesis using that d(2,3) assms(2) by (simp add: worker_iteration_def)
qed

lemma flag_simps [simp]:
  "ram_buffer (flush_request b) = ram_buffer b" "stopping (flush_request b) = stopping b"
  "ram_buffer (stop b) = ram_buffer b" "stopping (stop b)" "\<not> please_flush (stop b)"
  by (simp_all add: flush_request_def stop_def)

lemma stream_inv_step:
  assumes inv: "stream_inv N base acc s" and step: "ingester_step N s new s'"
    and fits: "length (acc @ new) < 2 ^ 64 - 1"
  shows "stream_inv N base (acc @ new) s'"
  using step
proof cases
  case (client_feed hashes)
  then have ns: "ig_worker s \<noteq> Stuck" by (simp add: mutex_free_def)
  note i = inv [unfolded stream_inv_def if_not_P [OF ns]]
  obtain b' where b': "feed_block_of_hashes hashes (ig_buffer s) = Inr b'" "s' = s\<lparr>ig_buffer := b'\<rparr>"
    using client_feed(4) by (auto simp: ingester_feed_def rbind_eq_Inr)
  show ?thesis
  proof (cases "stopping (ig_buffer s)")
    case True
    then have "b' = ig_buffer s" using b'(1) by (auto simp: feed_block_of_hashes_def split: if_splits)
    then show ?thesis using inv True client_feed(1) b'(2) by simp
  next
    case False
    then have new: "new = hashes" using client_feed(1) by simp
    have "unat (gpi_int (GlobalPi 0)) + length (tier_contents (ig_tier s) @ ram_buffer (ig_buffer s) @ hashes) < 2 ^ 64 - 1"
      using fits i new by auto
    note l = worker.linked_feed [OF _ b'(1) False this]
    show ?thesis using i l ns new client_feed(3) b'(2) by (auto simp: stream_inv_def)
  qed
next
  case client_flush
  then show ?thesis
    using inv worker.linked_flags(1) by (simp add: stream_inv_def ingester_flush_def mutex_free_def)
next
  case worker_run
  then have ns: "ig_worker s \<noteq> Stuck" by simp
  note i = inv [unfolded stream_inv_def if_not_P [OF ns]]
  have l: "worker.linked N (ig_tier s) (ig_buffer s)" using i by blast
  have wf: "\<forall>h. Some h \<in> set (ram_buffer (ig_buffer s)) \<longrightarrow> hash_wf N h" using i by auto
  show ?thesis
  proof (cases "length (tier_contents (ig_tier s)) + length (ram_buffer (ig_buffer s)) < tier_capacity")
    case True
    obtain t b where "worker_iteration N s = s\<lparr>ig_tier := t, ig_buffer := b, ig_worker := At_Head\<rparr>"
      "worker.linked N t b" "tier_contents t = tier_contents (ig_tier s) @ ram_buffer (ig_buffer s)"
      "ram_buffer b = []" "tier_path (snd t) = tier_path (snd (ig_tier s))"
      by (rule worker_iteration_ok [OF l worker_run(4) wf True])
    then show ?thesis using i worker_run by (simp add: stream_inv_def)
  next
    case False
    then have full: "length (tier_contents (ig_tier s)) + length (ram_buffer (ig_buffer s)) \<ge> tier_capacity" by simp
    obtain t d rest where "worker_iteration N s = s\<lparr>ig_tier := t, ig_buffer := (ig_buffer s)\<lparr>ram_buffer := rest\<rparr>,
        ig_in_flight := Some d, ig_worker := Stuck\<rparr>"
      "waiting_at t d rest (tier_contents (ig_tier s) @ ram_buffer (ig_buffer s))"
      by (rule worker_iteration_blocks [OF l worker_run(4) wf full])
    then show ?thesis using i worker_run by (simp add: stream_inv_def)
  qed
next
  case destroy_stop
  then show ?thesis
    using inv worker.linked_flags(2) by (simp add: stream_inv_def stop_buffer_def mutex_free_def)
qed (use inv in \<open>auto simp: stream_inv_def request_stop_def\<close>)

lemma stream_inv_run:
  assumes "ingester_run N s acc s'" "stream_inv N base [] s" "length acc < 2 ^ 64 - 1"
  shows "stream_inv N base acc s'"
  using assms
proof (induction rule: ingester_run.induct)
  case (run_step s acc s1 new s2)
  then show ?case by (intro stream_inv_step [of N base acc s1]) simp_all
qed simp

section \<open>Runs\<close>

lemma run_append: "ingester_run N s1 new s2 \<Longrightarrow> ingester_run N s acc s1 \<Longrightarrow> ingester_run N s (acc @ new) s2"
proof (induction rule: ingester_run.induct)
  case (run_step s1 new s2 new' s3)
  then show ?case using ingester_run.run_step [of N s "acc @ new" s2 new' s3] by simp
qed simp

lemma step_run: "ingester_step N s new s' \<Longrightarrow> ingester_run N s new s'"
  using ingester_run.run_step [OF ingester_run.run_nil] by fastforce

text \<open>A run that feeds one block and brings the worker to it, with or without a flush.\<close>

lemma fed_run:
  assumes fresh: "fresh_base N fs base" and block: "block \<noteq> []" "\<forall>h. Some h \<in> set block \<longrightarrow> hash_wf N h"
    and flushing: "flushing \<or> ingester_donut_capacity \<le> length block"
  obtains s0 s where "mk_ingester N fs base = Inr s0" "ingester_run N s0 block s" "ig_worker s = In_Loop"
    "ram_buffer (ig_buffer s) = block" "has_items (ig_buffer s)" "please_flush (ig_buffer s) = flushing"
    "\<not> ig_stop_requested s" "\<not> stopping (ig_buffer s)"
proof -
  obtain s0 where s0: "mk_ingester N fs base = Inr s0" "stream_inv N base [] s0" "ig_worker s0 = At_Head"
    "\<not> ig_stop_requested s0" "\<not> stopping (ig_buffer s0)" "\<not> please_flush (ig_buffer s0)"
    "tier_contents (ig_tier s0) = []" "ram_buffer (ig_buffer s0) = []"
    by (rule mk_ingester_start [OF fresh])
  have l: "worker.linked N (ig_tier s0) (ig_buffer s0)" using s0(2,3) by (simp add: stream_inv_def)
  have cap: "0 < downstream_remaining_capacity (ig_buffer s0)" "downstream_remaining_capacity (ig_buffer s0) \<le> ingester_donut_capacity"
    using l tier_remaining [OF linked_inv [OF l]] worker.free_positive [OF linked_inv [OF l]]
    by (simp_all add: worker.linked_def)
  define b where "b = ig_buffer s0\<lparr>ram_reverse_lookup_map := assign_reverse 0 block (ram_reverse_lookup_map (ig_buffer s0)),
      ram_buffer := block\<rparr>"
  have "ingester_feed block s0 = Inr (s0\<lparr>ig_buffer := b\<rparr>)"
    using s0(5,8) block(1) cap by (simp add: ingester_feed_def feed_block_of_hashes_def can_feed_def b_def)
  from client_feed [OF _ block(2) this] have r1: "ingester_run N s0 block (s0\<lparr>ig_buffer := b\<rparr>)"
    using s0(3,5) by (simp add: mutex_free_def step_run)
  define s1 where "s1 = (if flushing then ingester_flush (s0\<lparr>ig_buffer := b\<rparr>) else s0\<lparr>ig_buffer := b\<rparr>)"
  have r2: "ingester_run N s0 block s1"
    using r1 ingester_run.run_step [OF r1 client_flush] s0(3) by (simp add: s1_def mutex_free_def)
  have s1: "ig_worker s1 = At_Head" "\<not> ig_stop_requested s1"
    using s0(3,4) by (simp_all add: s1_def ingester_flush_def)
  from ingester_run.run_step [OF r2 worker_enter [OF s1]]
  have r3: "ingester_run N s0 block (s1\<lparr>ig_worker := In_Loop\<rparr>)" by simp
  show ?thesis
    using flushing s0 block(1) s1 cap
    by (intro that [OF s0(1) r3])
      (auto simp: s1_def ingester_flush_def flush_request_def b_def has_items_def)
qed

lemma flushed_run:
  assumes fresh: "fresh_base N fs base" and block: "block \<noteq> []" "\<forall>h. Some h \<in> set block \<longrightarrow> hash_wf N h"
    "length block < tier_capacity"
  obtains s0 s where "mk_ingester N fs base = Inr s0" "ingester_run N s0 block s" "ig_worker s = At_Head"
    "ram_buffer (ig_buffer s) = []" "tier_contents (ig_tier s) = block"
    "\<not> ig_stop_requested s" "\<not> stopping (ig_buffer s)"
proof -
  obtain s0 s where s: "mk_ingester N fs base = Inr s0" "ingester_run N s0 block s" "ig_worker s = In_Loop"
    "ram_buffer (ig_buffer s) = block" "has_items (ig_buffer s)" "please_flush (ig_buffer s) = True"
    "\<not> ig_stop_requested s" "\<not> stopping (ig_buffer s)"
    by (rule fed_run [OF fresh block(1,2), where flushing = True]) simp
  obtain s0' where s0': "mk_ingester N fs base = Inr s0'" "stream_inv N base [] s0'"
    by (rule mk_ingester_start [OF fresh])
  have "stream_inv N base block s"
    using stream_inv_run [OF s(2)] s0' s(1) block(3) by (simp add: tier_numbers)
  then have i: "worker.linked N (ig_tier s) (ig_buffer s)" "tier_contents (ig_tier s) @ ram_buffer (ig_buffer s) = block"
    using s(3) by (simp_all add: stream_inv_def)
  then have c: "tier_contents (ig_tier s) = []" using s(4) by simp
  obtain t b where w: "worker_iteration N s = s\<lparr>ig_tier := t, ig_buffer := b, ig_worker := At_Head\<rparr>"
    "worker.linked N t b" "tier_contents t = tier_contents (ig_tier s) @ ram_buffer (ig_buffer s)"
    "ram_buffer b = []" "flush_done b" "stopping b = stopping (ig_buffer s)"
    by (rule worker_iteration_ok [OF i(1) s(5)]) (use block(2,3) s(4) c in simp_all)
  have "ingester_run N s0 block (worker_iteration N s)"
    using ingester_run.run_step [OF s(2) worker_run [OF s(3,5)]] by simp
  then show ?thesis using that [OF s(1)] w s c by simp
qed

lemma fresh_base_example: "fresh_base 1 [] [''b'']"
  by (simp add: fresh_base_def fs_node_def Folder_def)

section \<open>Properties\<close>

text \<open>C1: The ingester keeps the stream.  In every state that clients, the worker and the destructor
  can reach from the first start, unless the worker waits for ever, what is in the donuts followed
  by what is in memory is exactly the sequence of all accepted hashes (gaps included), the next
  offset is their number, and the worker has not died; it can only wait for ever when at least
  \<open>5 * 65535\<close> hashes were accepted.\<close>

theorem ingester_keeps_stream:
  assumes "fresh_base N fs base" "mk_ingester N fs base = Inr s0" "ingester_run N s0 acc s"
    and "length acc < 2 ^ 64 - 1"
  shows "ig_worker s \<noteq> Terminated
    \<and> (ig_worker s = Stuck \<longrightarrow> length acc \<ge> 5 * 65535)
    \<and> (ig_worker s \<noteq> Stuck \<longrightarrow>
        tier_contents (ig_tier s) @ ram_buffer (ig_buffer s) = acc
      \<and> ingester_next_offset s = gpi_at (GlobalPi 0) (length acc))"
proof -
  obtain s0' where "mk_ingester N fs base = Inr s0'" "stream_inv N base [] s0'"
    by (rule mk_ingester_start [OF assms(1)])
  then have inv: "stream_inv N base acc s" using stream_inv_run [OF assms(3) _ assms(4)] assms(2) by simp
  show ?thesis
  proof (cases "ig_worker s = Stuck")
    case True
    then show ?thesis using inv stuck_length [OF inv] by (simp add: stream_inv_def)
  next
    case False
    note i = inv [unfolded stream_inv_def if_not_P [OF False]]
    have "worker.linked N (ig_tier s) (ig_buffer s)" using i by blast
    from worker.linked_next_offset [OF this]
    have "ingester_next_offset s = gpi_at (GlobalPi 0) (length acc)"
      using i by (simp add: ingester_next_offset_def)
    then show ?thesis using i False by simp
  qed
qed

theorem ingester_keeps_stream_witness:
  "\<exists>s0 s. mk_ingester 1 [] [''b''] = Inr s0 \<and> ingester_run 1 s0 [Some [7], None] s
     \<and> tier_contents (ig_tier s) @ ram_buffer (ig_buffer s) = [Some [7], None]
     \<and> ingester_next_offset s = GlobalPi 2"
proof -
  have b: "[Some [7], None] \<noteq> ([] :: hash option list)" "\<forall>h. Some h \<in> set [Some [7], None] \<longrightarrow> hash_wf 1 h"
    "length ([Some [7], None] :: hash option list) < tier_capacity"
    by (simp_all add: hash_wf_def tier_numbers)
  obtain s0 s where s: "mk_ingester 1 [] [''b''] = Inr s0" "ingester_run 1 s0 [Some [7], None] s" "ig_worker s = At_Head"
    by (rule flushed_run [OF fresh_base_example b])
  have "tier_contents (ig_tier s) @ ram_buffer (ig_buffer s) = [Some [7], None]
      \<and> ingester_next_offset s = gpi_at (GlobalPi 0) (length [Some [7 :: u8], None])"
    using ingester_keeps_stream [OF fresh_base_example s(1,2)] s(3) by simp
  then show ?thesis using s by (intro exI [of _ s0] exI [of _ s]) (simp add: gpi_at_def)
qed

lemma run_inv:
  assumes "fresh_base N fs base" "mk_ingester N fs base = Inr s0" "ingester_run N s0 acc s" "length acc < 2 ^ 64 - 1"
  shows "stream_inv N base acc s"
proof -
  obtain s0' where "mk_ingester N fs base = Inr s0'" "stream_inv N base [] s0'"
    by (rule mk_ingester_start [OF assms(1)])
  then show ?thesis using stream_inv_run [OF assms(3) _ assms(4)] assms(2) by simp
qed

lemma linked_of_inv:
  assumes "stream_inv N base acc s" "ig_worker s \<noteq> Stuck"
  shows "worker.linked N (ig_tier s) (ig_buffer s)" "tier_path (snd (ig_tier s)) = base @ [Folder]"
    "tier_contents (ig_tier s) @ ram_buffer (ig_buffer s) = acc" "\<forall>h. Some h \<in> set acc \<longrightarrow> hash_wf N h"
    "ig_in_flight s = None"
  using assms by (simp_all add: stream_inv_def)

text \<open>C8: The worker makes progress after a first start.  When it is inside \<open>with_at_least_n_hashes\<close> and the buffer has
  work for it (enough hashes, or a flush was requested), and fewer than \<open>5 * 65535\<close> hashes were
  accepted, its iteration ends at the head of its loop with an empty buffer and every accepted
  hash in the donuts, in order; a waiting \<open>flush\<close> may then return.\<close>

theorem worker_drains:
  assumes "fresh_base N fs base" "mk_ingester N fs base = Inr s0" "ingester_run N s0 acc s"
    and "length acc < 5 * 65535" "ig_worker s = In_Loop" "has_items (ig_buffer s)"
  shows "ingester_step N s [] (worker_iteration N s)
    \<and> ig_worker (worker_iteration N s) = At_Head
    \<and> tier_contents (ig_tier (worker_iteration N s)) = acc
    \<and> ram_buffer (ig_buffer (worker_iteration N s)) = []
    \<and> flush_done (ig_buffer (worker_iteration N s))"
proof -
  have inv: "stream_inv N base acc s" using run_inv [OF assms(1-3)] assms(4) by simp
  have ns: "ig_worker s \<noteq> Stuck" using assms(5) by simp
  note i = linked_of_inv [OF inv ns]
  have wf: "\<forall>h. Some h \<in> set (ram_buffer (ig_buffer s)) \<longrightarrow> hash_wf N h" using i(3,4) by auto
  have len: "length (tier_contents (ig_tier s)) + length (ram_buffer (ig_buffer s)) < tier_capacity"
    using assms(4) unfolding i(3) [symmetric] by (simp add: tier_numbers)
  obtain t b where w: "worker_iteration N s = s\<lparr>ig_tier := t, ig_buffer := b, ig_worker := At_Head\<rparr>"
    "worker.linked N t b" "tier_contents t = tier_contents (ig_tier s) @ ram_buffer (ig_buffer s)"
    "ram_buffer b = []" "flush_done b"
    by (rule worker_iteration_ok [OF i(1) assms(6) wf len])
  have "ingester_step N s [] (worker_iteration N s)" by (rule worker_run [OF assms(5,6)])
  moreover have "ig_worker (worker_iteration N s) = At_Head" "tier_contents (ig_tier (worker_iteration N s)) = acc"
    "ram_buffer (ig_buffer (worker_iteration N s)) = []" "flush_done (ig_buffer (worker_iteration N s))"
    unfolding w(1) using w(3-5) i(3) by simp_all
  ultimately show ?thesis by blast
qed

theorem worker_drains_witness:
  "\<exists>s0 s. mk_ingester 1 [] [''b''] = Inr s0 \<and> ingester_run 1 s0 [Some [7], None] s
     \<and> tier_contents (ig_tier (worker_iteration 1 s)) = [Some [7], None]
     \<and> flush_done (ig_buffer (worker_iteration 1 s))"
proof -
  have b: "[Some [7], None] \<noteq> ([] :: hash option list)" "\<forall>h. Some h \<in> set [Some [7], None] \<longrightarrow> hash_wf 1 h"
    by (simp_all add: hash_wf_def)
  obtain s0 s where s: "mk_ingester 1 [] [''b''] = Inr s0" "ingester_run 1 s0 [Some [7], None] s"
    "ig_worker s = In_Loop" "has_items (ig_buffer s)"
    by (rule fed_run [OF fresh_base_example b, where flushing = True]) simp
  show ?thesis using worker_drains [OF fresh_base_example s(1,2) _ s(3,4)] s(1,2) by auto
qed

lemma stuck_step:
  assumes "ingester_step N s new s'" "ig_worker s = Stuck"
  shows "new = [] \<and> ig_worker s' = Stuck \<and> ig_buffer s' = ig_buffer s \<and> ig_tier s' = ig_tier s
    \<and> ig_in_flight s' = ig_in_flight s"
  using assms by cases (auto simp: mutex_free_def request_stop_def)

lemma stuck_run:
  assumes "ingester_run N s new s'" "ig_worker s = Stuck"
  shows "new = [] \<and> ig_worker s' = Stuck \<and> ig_buffer s' = ig_buffer s \<and> ig_tier s' = ig_tier s
    \<and> ig_in_flight s' = ig_in_flight s"
  using assms
proof (induction rule: ingester_run.induct)
  case (run_step s acc s1 new s2)
  then show ?case using stuck_step [OF run_step.hyps(2)] by auto
qed simp

text \<open>C9: The ingester fills up for good.  Once \<open>5 * 65535\<close> hashes were accepted, the next
  iteration of the worker that has work waits in \<open>BufferRoom::Feed\<close> with the mutex of the buffer
  held, and nothing in the program discards the room: from then on no hash is accepted, no flush
  returns and the destructor cannot stop the buffer, in any continuation.  The first \<open>5 * 65535\<close>
  hashes are in the room and in the donut that waits for it, which no lookup reaches; the rest
  stays in the buffer.\<close>

theorem ingester_fills_up:
  assumes "fresh_base N fs base" "mk_ingester N fs base = Inr s0" "ingester_run N s0 acc s"
    and "length acc < 2 ^ 64 - 1" "5 * 65535 \<le> length acc" "ig_worker s = In_Loop" "has_items (ig_buffer s)"
    and "ingester_run N (worker_iteration N s) new s'"
  shows "ingester_step N s [] (worker_iteration N s)
    \<and> new = [] \<and> ig_worker s' = Stuck \<and> \<not> mutex_free s' \<and> ig_buffer s' = ig_buffer (worker_iteration N s)
    \<and> ram_buffer (ig_buffer s') = drop (5 * 65535) acc
    \<and> (\<exists>d. ig_in_flight s' = Some d \<and> tier_contents (ig_tier s') @ st01_entries d = take (5 * 65535) acc)"
proof -
  have inv: "stream_inv N base acc s" by (rule run_inv [OF assms(1-4)])
  have ns: "ig_worker s \<noteq> Stuck" using assms(6) by simp
  note i = linked_of_inv [OF inv ns]
  have wf: "\<forall>h. Some h \<in> set (ram_buffer (ig_buffer s)) \<longrightarrow> hash_wf N h" using i(3,4) by auto
  have len: "length (tier_contents (ig_tier s)) + length (ram_buffer (ig_buffer s)) \<ge> tier_capacity"
    using assms(5) unfolding i(3) [symmetric] by (simp add: tier_numbers)
  obtain t d rest where w: "worker_iteration N s = s\<lparr>ig_tier := t, ig_buffer := (ig_buffer s)\<lparr>ram_buffer := rest\<rparr>,
      ig_in_flight := Some d, ig_worker := Stuck\<rparr>"
    "waiting_at t d rest acc"
    by (rule worker_iteration_blocks [OF i(1) assms(7) wf len]) (simp add: i(3))
  have "ingester_step N s [] (worker_iteration N s)" by (rule worker_run [OF assms(6,7)])
  with stuck_run [OF assms(8)] waiting_at_split [OF w(2)] show ?thesis by (simp add: w(1) mutex_free_def)
qed

theorem ingester_fills_up_witness:
  "\<exists>s0 s. mk_ingester 1 [] [''b''] = Inr s0
     \<and> ingester_run 1 s0 (replicate 327675 None) s
     \<and> ig_worker (worker_iteration 1 s) = Stuck"
proof -
  let ?b = "replicate 327675 None :: hash option list"
  have b: "?b \<noteq> []" "\<forall>h. Some h \<in> set ?b \<longrightarrow> hash_wf 1 h" by simp_all
  obtain s0 s where s: "mk_ingester 1 [] [''b''] = Inr s0" "ingester_run 1 s0 ?b s"
    "ig_worker s = In_Loop" "has_items (ig_buffer s)"
    by (rule fed_run [OF fresh_base_example b, where flushing = False]) (simp add: tier_numbers)
  have "ig_worker (worker_iteration 1 s) = Stuck"
    using ingester_fills_up [OF fresh_base_example s(1,2) _ _ s(3,4) run_nil] by simp
  then show ?thesis using s(1,2) by blast
qed

lemma ingester_restart:
  assumes inv: "stream_inv N base acc s" and ns: "ig_worker s \<noteq> Stuck"
    and distinct: "distinct (hashes_of (tier_contents (ig_tier s)))"
  obtains s2 where "mk_ingester N (destroy_members s) base = Inr s2" "tier_body N (ig_tier s2)"
    "tier_contents (ig_tier s2) = tier_contents (ig_tier s)"
    "fm_open_files_by_handle (st00_manifest (hatchling (snd (ig_tier s2)))) = []"
    "\<not> fm_finished_sealed (st00_manifest (hatchling (snd (ig_tier s2))))"
    "length (forward_lookup_vector (hatchling (snd (ig_tier s2)))) < ingester_donut_capacity"
    "ram_ok (ig_buffer s2)" "ram_buffer (ig_buffer s2) = []"
    "ingester_next_offset s2 = gpi_at (GlobalPi 0) (length (tier_contents (ig_tier s)))"
    "map st01_entries (items (tier_room (snd (ig_tier s2)))) = map st01_entries (items (tier_room (snd (ig_tier s))))"
    "forward_lookup_vector (hatchling (snd (ig_tier s2))) = forward_lookup_vector (hatchling (snd (ig_tier s)))"
proof -
  note i = linked_of_inv [OF inv ns]
  have tinv: "tier_inv N (ig_tier s)" by (rule linked_inv [OF i(1)])
  obtain fs f where t: "ig_tier s = (fs, f)" by force
  have body: "tier_body N (fs, f)" and part: "length (forward_lookup_vector (hatchling f)) < ingester_donut_capacity"
    using tinv by (simp_all add: tier_inv_def t)
  let ?fs = "destroy_tier_folder (fs, f)"
  have path: "tier_path f = base @ [Folder]" using i(2) by (simp add: t)
  obtain f' where f': "mk_tier_folder N ?fs base = Inr (?fs, f')" "tier_body N (?fs, f')" "tier_path f' = tier_path f"
    "map st01_entries (items (tier_room f')) = map st01_entries (items (tier_room f))"
    "forward_lookup_vector (hatchling f') = forward_lookup_vector (hatchling f)"
    "fm_open_files_by_handle (st00_manifest (hatchling f')) = []" "\<not> fm_finished_sealed (st00_manifest (hatchling f'))"
    by (rule tier_restart [OF body path distinct [unfolded t]])
  have n: "length (items (tier_room f')) = length (items (tier_room f))" by (rule map_eq_imp_length_eq [OF f'(4)])
  have c: "tier_contents (?fs, f') = tier_contents (fs, f)"
    using f'(4,5) by (simp add: tier_contents_def room_entries_def)
  have d: "st00_mem N (hatchling f')" "capacity (hatchling f') = ingester_donut_capacity"
    "first_global_pi (hatchling f') = GlobalPi (donut_offset (length (items (tier_room f))))"
    using tier_bodyD(8) [OF f'(2)] n unfolding donut_inv_def by auto
  have rem: "0 < remaining_capacity (hatchling f')" using st00_memD(7) [OF d(1)] d(2) part f'(5) by simp
  have len: "length (tier_contents (fs, f)) < tier_capacity" using tier_contents_less [OF tinv] by (simp add: t)
  have next': "st00_next_offset (hatchling f') = gpi_at (GlobalPi 0) (length (tier_contents (fs, f)))"
    using st00_next_offset_eq [OF d(1)] d(3) f'(5) length_tier_contents [OF body]
    by (simp add: st00_first_offset_def donut_offset_def gpi_at_def)
  have "unat (gpi_int (gpi_at (GlobalPi 0) (length (tier_contents (fs, f))))) < 2 ^ 64 - 1"
    using len by (subst unat_gpi_at) (simp_all add: tier_numbers)
  from mk_ingester_buffer_ok [OF rem this] obtain b where
    b: "mk_ingester_buffer (remaining_capacity (hatchling f')) (gpi_at (GlobalPi 0) (length (tier_contents (fs, f)))) = Inr b"
    "ram_ok b" "ram_buffer b = []" "ram_first_global_pi b = gpi_at (GlobalPi 0) (length (tier_contents (fs, f)))"
    by blast
  let ?s2 = "\<lparr>ig_tier = (?fs, f'), ig_buffer = b, ig_stop_requested = False, ig_worker = At_Head, ig_in_flight = None\<rparr>"
  have "mk_ingester N (destroy_members s) base = Inr ?s2"
    using f'(1) b(1) next' by (simp add: mk_ingester_def destroy_members_def t)
  moreover have "ingester_next_offset ?s2 = gpi_at (GlobalPi 0) (length (tier_contents (fs, f)))"
    using ram_next_offset_eq [OF b(2)] b(3,4) by (simp add: ingester_next_offset_def ram_first_offset_def)
  ultimately show ?thesis
    using f' c part b by (intro that [of ?s2]) (simp_all add: t)
qed

text \<open>C7: A flushed ingester survives its restart.  If the hashes accepted so far were distinct and
  all of them reached the donuts (the buffer is empty), then destroying the ingester and
  constructing it again over what is on disk gives the same presentations in the same donuts, an
  empty buffer and the same next offset.\<close>

theorem ingester_survives_restart:
  assumes "fresh_base N fs base" "mk_ingester N fs base = Inr s0" "ingester_run N s0 acc s"
    and "length acc < 5 * 65535" "ram_buffer (ig_buffer s) = []" "distinct (hashes_of acc)"
  shows "\<exists>s2. mk_ingester N (destroy_members s) base = Inr s2
    \<and> tier_contents (ig_tier s2) = acc
    \<and> map st01_entries (items (tier_room (snd (ig_tier s2)))) = map st01_entries (items (tier_room (snd (ig_tier s))))
    \<and> ram_buffer (ig_buffer s2) = []
    \<and> ingester_next_offset s2 = gpi_at (GlobalPi 0) (length acc)"
proof -
  have inv: "stream_inv N base acc s" using run_inv [OF assms(1-3)] assms(4) by simp
  have ns: "ig_worker s \<noteq> Stuck" using stuck_length [OF inv] assms(4) by auto
  have c: "tier_contents (ig_tier s) = acc" using linked_of_inv(3) [OF inv ns] assms(5) by simp
  show ?thesis by (rule ingester_restart [OF inv ns], use assms(6) c in simp) (use c in auto)
qed

theorem ingester_survives_restart_witness:
  "\<exists>s0 s s2. mk_ingester 1 [] [''b''] = Inr s0 \<and> ingester_run 1 s0 [Some [7], None, Some [8]] s
     \<and> mk_ingester 1 (destroy_members s) [''b''] = Inr s2
     \<and> tier_contents (ig_tier s2) = [Some [7], None, Some [8]]"
proof -
  let ?b = "[Some [7], None, Some [8]] :: hash option list"
  have b: "?b \<noteq> []" "\<forall>h. Some h \<in> set ?b \<longrightarrow> hash_wf 1 h" "length ?b < tier_capacity"
    by (auto simp: hash_wf_def tier_numbers)
  obtain s0 s where s: "mk_ingester 1 [] [''b''] = Inr s0" "ingester_run 1 s0 ?b s" "ram_buffer (ig_buffer s) = []"
    by (rule flushed_run [OF fresh_base_example b])
  show ?thesis
    using ingester_survives_restart [OF fresh_base_example s(1,2) _ s(3)] s(1,2) by (auto simp: hashes_of_def)
qed

text \<open>C10: An ingester that was restarted takes no hashes.  After such a restart, whenever the worker
  gets a non-empty batch it dies of an exception of the manifest, because the rebuilt hatchling
  was not opened for appending.\<close>

theorem restarted_ingester_dies:
  assumes "fresh_base N fs base" "mk_ingester N fs base = Inr s0" "ingester_run N s0 acc s"
    and "length acc < 5 * 65535" "ram_buffer (ig_buffer s) = []" "distinct (hashes_of acc)"
    and "mk_ingester N (destroy_members s) base = Inr s2"
    and "batch \<noteq> []" "\<forall>h. Some h \<in> set batch \<longrightarrow> hash_wf N h"
  shows "worker_lambda N (ig_tier s2) batch flushing = Inl (Runtime_Error ''append_to_file(): File is not open'')"
proof -
  have inv: "stream_inv N base acc s" using run_inv [OF assms(1-3)] assms(4) by simp
  have ns: "ig_worker s \<noteq> Stuck" using stuck_length [OF inv] assms(4) by auto
  have c: "tier_contents (ig_tier s) = acc" using linked_of_inv(3) [OF inv ns] assms(5) by simp
  obtain s2' where s2': "mk_ingester N (destroy_members s) base = Inr s2'" "tier_body N (ig_tier s2')"
    "fm_open_files_by_handle (st00_manifest (hatchling (snd (ig_tier s2')))) = []"
    "\<not> fm_finished_sealed (st00_manifest (hatchling (snd (ig_tier s2'))))"
    "length (forward_lookup_vector (hatchling (snd (ig_tier s2')))) < ingester_donut_capacity"
    by (rule ingester_restart [OF inv ns]) (use assms(6) c in simp_all)
  then have e: "s2' = s2" using assms(7) by simp
  obtain ft f where t: "ig_tier s2 = (ft, f)" by force
  obtain oh rest where b: "batch = oh # rest" using assms(8) by (cases batch) auto
  have d: "st00_mem N (hatchling f)" "capacity (hatchling f) = ingester_donut_capacity"
    using tier_bodyD(8) [of N ft f] s2'(2) e t unfolding donut_inv_def by auto
  have refused: "append_to_file (ft, st00_manifest (hatchling f)) h bs =
      Inl (Runtime_Error ''append_to_file(): File is not open'')" for h bs
    using s2'(3,4) e t by (simp add: append_to_file_def)
  have "append_hashes N (ft, hatchling f) batch = Inl (Runtime_Error ''append_to_file(): File is not open'')"
    unfolding b using s2'(5) e t d(2) assms(9) b
    by (intro append_hashes_refused [OF d(1) _ _ refused]) auto
  then have "drain N (ig_tier s2) batch = Inl (Runtime_Error ''append_to_file(): File is not open'')"
    using assms(8) by (subst drain.simps) (simp add: t)
  then show ?thesis using assms(8) by (simp add: worker_lambda_def)
qed

theorem restarted_ingester_dies_witness:
  "\<exists>s0 s s2. mk_ingester 1 [] [''b''] = Inr s0 \<and> ingester_run 1 s0 [Some [7]] s
     \<and> mk_ingester 1 (destroy_members s) [''b''] = Inr s2
     \<and> worker_lambda 1 (ig_tier s2) [Some [8]] True = Inl (Runtime_Error ''append_to_file(): File is not open'')"
proof -
  let ?b = "[Some [7]] :: hash option list"
  have b: "?b \<noteq> []" "\<forall>h. Some h \<in> set ?b \<longrightarrow> hash_wf 1 h" "length ?b < tier_capacity"
    by (auto simp: hash_wf_def tier_numbers)
  obtain s0 s where s: "mk_ingester 1 [] [''b''] = Inr s0" "ingester_run 1 s0 ?b s" "ig_worker s = At_Head"
    "ram_buffer (ig_buffer s) = []" "tier_contents (ig_tier s) = ?b"
    by (rule flushed_run [OF fresh_base_example b])
  have inv: "stream_inv 1 [''b''] ?b s" using run_inv [OF fresh_base_example s(1,2)] by simp
  obtain s2 where s2: "mk_ingester 1 (destroy_members s) [''b''] = Inr s2"
    by (rule ingester_restart [OF inv]) (use s(3,5) in \<open>simp_all add: hashes_of_def\<close>)
  have "worker_lambda 1 (ig_tier s2) [Some [8]] True = Inl (Runtime_Error ''append_to_file(): File is not open'')"
    by (rule restarted_ingester_dies [OF fresh_base_example s(1,2) _ s(4) _ s2])
      (simp_all add: hashes_of_def hash_wf_def)
  then show ?thesis using s(1,2) s2 by blast
qed

text \<open>The run in which a client feeds a block and destroys the ingester.\<close>

lemma abandoned_run:
  assumes fresh: "fresh_base N fs base" and block: "block \<noteq> []" "\<forall>h. Some h \<in> set block \<longrightarrow> hash_wf N h"
    "length block < 2 ^ 64 - 1"
  obtains s0 s where "mk_ingester N fs base = Inr s0" "ingester_run N s0 block s" "ig_worker s = Exited"
    "tier_contents (ig_tier s) = []" "ram_buffer (ig_buffer s) = block"
proof -
  obtain s0 where s0: "mk_ingester N fs base = Inr s0" "stream_inv N base [] s0" "ig_worker s0 = At_Head"
    "\<not> ig_stop_requested s0" "\<not> stopping (ig_buffer s0)" "\<not> please_flush (ig_buffer s0)"
    "tier_contents (ig_tier s0) = []" "ram_buffer (ig_buffer s0) = []"
    by (rule mk_ingester_start [OF fresh])
  have l: "worker.linked N (ig_tier s0) (ig_buffer s0)" using s0(2,3) by (simp add: stream_inv_def)
  have cap: "0 < downstream_remaining_capacity (ig_buffer s0)"
    using l worker.free_positive [OF linked_inv [OF l]] by (simp add: worker.linked_def)
  define b where "b = ig_buffer s0\<lparr>ram_reverse_lookup_map := assign_reverse 0 block (ram_reverse_lookup_map (ig_buffer s0)),
      ram_buffer := block\<rparr>"
  have "ingester_feed block s0 = Inr (s0\<lparr>ig_buffer := b\<rparr>)"
    using s0(5,8) block(1) cap by (simp add: ingester_feed_def feed_block_of_hashes_def can_feed_def b_def)
  from client_feed [OF _ block(2) this] have r1: "ingester_run N s0 block (s0\<lparr>ig_buffer := b\<rparr>)"
    using s0(3,5) by (simp add: mutex_free_def step_run)
  let ?s1 = "s0\<lparr>ig_buffer := b\<rparr>"
  have r2: "ingester_run N s0 block (request_stop ?s1)"
    using ingester_run.run_step [OF r1 destroy_request] by simp
  have r3: "ingester_run N s0 block (request_stop ?s1\<lparr>ig_worker := Exited\<rparr>)"
    using ingester_run.run_step [OF r2 worker_leave] s0(3) by (simp add: request_stop_def)
  have r4: "ingester_run N s0 block (stop_buffer (request_stop ?s1\<lparr>ig_worker := Exited\<rparr>))"
    using ingester_run.run_step [OF r3 destroy_stop] by (simp add: request_stop_def mutex_free_def)
  show ?thesis
    by (rule that [OF s0(1) r4]) (use s0(7) in \<open>simp_all add: stop_buffer_def request_stop_def b_def\<close>)
qed

text \<open>C11: The destructor does not drain the buffer.  Any block that a client feeds into a new
  ingester and does not flush can be lost: there is a schedule in which the destructor's stop
  request reaches the worker at the head of its loop, the worker exits, and the ingester
  constructed over what is left on disk is empty, although the block was accepted.\<close>

theorem unflushed_hashes_can_be_lost:
  assumes "fresh_base N fs base" "block \<noteq> []" "\<forall>h. Some h \<in> set block \<longrightarrow> hash_wf N h"
    and "length block < 2 ^ 64 - 1"
  shows "\<exists>s0 s s2. mk_ingester N fs base = Inr s0 \<and> ingester_run N s0 block s \<and> ig_worker s = Exited
    \<and> mk_ingester N (destroy_members s) base = Inr s2
    \<and> tier_contents (ig_tier s2) = [] \<and> ingester_next_offset s2 = GlobalPi 0"
proof -
  obtain s0 s where s: "mk_ingester N fs base = Inr s0" "ingester_run N s0 block s" "ig_worker s = Exited"
    "tier_contents (ig_tier s) = []" "ram_buffer (ig_buffer s) = block"
    by (rule abandoned_run [OF assms])
  have inv: "stream_inv N base block s" by (rule run_inv [OF assms(1) s(1,2) assms(4)])
  obtain s2 where "mk_ingester N (destroy_members s) base = Inr s2" "tier_contents (ig_tier s2) = []"
    "ingester_next_offset s2 = GlobalPi 0"
    by (rule ingester_restart [OF inv]) (use s(3,4) in \<open>simp_all add: hashes_of_def\<close>)
  then show ?thesis using s by blast
qed

theorem unflushed_hashes_can_be_lost_witness:
  "\<exists>s0 s s2. mk_ingester 1 [] [''b''] = Inr s0 \<and> ingester_run 1 s0 [Some [7]] s \<and> ig_worker s = Exited
    \<and> mk_ingester 1 (destroy_members s) [''b''] = Inr s2 \<and> tier_contents (ig_tier s2) = []"
proof -
  have "[Some [7]] \<noteq> ([] :: hash option list)" "\<forall>h. Some h \<in> set [Some [7]] \<longrightarrow> hash_wf 1 h"
    "length ([Some [7]] :: hash option list) < 2 ^ 64 - 1" by (simp_all add: hash_wf_def)
  from unflushed_hashes_can_be_lost [OF fresh_base_example this] show ?thesis by blast
qed

text \<open>The answer for a repeated hash depends on where it is.  After a hash was fed twice, the
  buffer in memory answers with its second presentation; once the worker has moved the same two
  presentations to the hatchling, the hatchling answers with the first.\<close>

theorem repeated_hash_answer_changes:
  "\<exists>s0 s. mk_ingester 1 [] [''b''] = Inr s0 \<and> ingester_run 1 s0 [Some [7], Some [7]] s
    \<and> ram_reverse_lookup (ig_buffer s) [7] = GlobalPi 1
    \<and> ingester_run 1 s0 [Some [7], Some [7]] (worker_iteration 1 s)
    \<and> st00_reverse_lookup (hatchling (snd (ig_tier (worker_iteration 1 s)))) [7] = GlobalPi 0"
proof -
  let ?b = "[Some [7], Some [7]] :: hash option list"
  have b: "?b \<noteq> []" "\<forall>h. Some h \<in> set ?b \<longrightarrow> hash_wf 1 h" by (simp_all add: hash_wf_def)
  obtain s0 s where s: "mk_ingester 1 [] [''b''] = Inr s0" "ingester_run 1 s0 ?b s" "ig_worker s = In_Loop"
    "ram_buffer (ig_buffer s) = ?b" "has_items (ig_buffer s)"
    by (rule fed_run [OF fresh_base_example b, where flushing = True]) simp
  have inv: "stream_inv 1 [''b''] ?b s" using run_inv [OF fresh_base_example s(1,2)] by simp
  have ns: "ig_worker s \<noteq> Stuck" using s(3) by simp
  note i = linked_of_inv [OF inv ns]
  have c: "tier_contents (ig_tier s) = []" using i(3) s(4) by simp
  have "ram_reverse_lookup (ig_buffer s) [7] = gpi_at (ram_first_offset (ig_buffer s)) 1"
    using i(1) s(4) by (intro ram_reverse_last) (simp_all add: worker.linked_def)
  also have "ram_first_offset (ig_buffer s) = GlobalPi 0"
    using i(1) c by (simp add: worker.linked_def ram_first_offset_def)
  finally have ram: "ram_reverse_lookup (ig_buffer s) [7] = GlobalPi 1" by (simp add: gpi_at_def)
  obtain t b where w: "worker_iteration 1 s = s\<lparr>ig_tier := t, ig_buffer := b, ig_worker := At_Head\<rparr>"
    "worker.linked 1 t b" "tier_contents t = tier_contents (ig_tier s) @ ram_buffer (ig_buffer s)"
    by (rule worker_iteration_ok [OF i(1) s(5)]) (use b(2) s(4) c in \<open>simp_all add: tier_numbers\<close>)
  obtain ft f where t: "t = (ft, f)" by force
  have body: "tier_body 1 (ft, f)" using linked_inv [OF w(2)] by (simp add: tier_inv_def t)
  have tc: "tier_contents (ft, f) = ?b" using w(3) c s(4) t by simp
  have "length (items (tier_room f)) = 0"
    using length_tier_contents [OF body] tc by (cases "items (tier_room f)") (simp_all add: tier_numbers)
  then have fv: "forward_lookup_vector (hatchling f) = ?b" "items (tier_room f) = []"
    using tc by (simp_all add: tier_contents_def room_entries_def)
  have mem: "st00_mem 1 (hatchling f)" "first_global_pi (hatchling f) = GlobalPi 0"
    using tier_bodyD(8) [OF body] fv(2) unfolding donut_inv_def by (auto simp: donut_offset_def)
  have "st00_reverse_lookup (hatchling f) [7] = gpi_at (st00_first_offset (hatchling f)) 0"
    by (rule donut.reverse_earliest [OF mem(1)]) (simp_all add: fv)
  then have "st00_reverse_lookup (hatchling f) [7] = GlobalPi 0"
    using mem(2) by (simp add: st00_first_offset_def)
  moreover have "ingester_run 1 s0 ?b (worker_iteration 1 s)"
    using ingester_run.run_step [OF s(2) worker_run [OF s(3,5)]] by simp
  ultimately show ?thesis using s(1,2) ram w(1) t by (intro exI [of _ s0] exI [of _ s]) simp
qed

end
