(* ===== verification/Ingester_Lookups.thy ===== *)
theory Ingester_Lookups
  imports Ingester
begin

text \<open>
  The lookups of the ingester as a whole.  Its three containers (the buffer room of filled donuts,
  the hatchling, the buffer in memory) each answer for a range of global presentation indexes; the
  lemmas show that in every reachable state these ranges divide the accepted stream among them,
  so a search that asks the container that covers an index finds what was accepted there.
\<close>

section \<open>A container placed in the stream\<close>

context lookupable
begin

lemma placed_contains:
  assumes "ok c" "first_offset c = gpi_at (GlobalPi 0) n" "n + length (entries c) < 2 ^ 64 - 1" "i < 2 ^ 64 - 1"
  shows "contains_pi (first_offset c) (next_offset c) (gpi_at (GlobalPi 0) i) \<longleftrightarrow>
    n \<le> i \<and> i < n + length (entries c)"
proof -
  have "contains_pi (first_offset c) (next_offset c) (gpi_at (GlobalPi 0) i) \<longleftrightarrow>
      (\<exists>j < length (entries c). gpi_at (GlobalPi 0) i = gpi_at (GlobalPi 0) (n + j))"
    unfolding contains_iff [OF assms(1)] unfolding assms(2) gpi_at_plus ..
  also have "\<dots> \<longleftrightarrow> (\<exists>j < length (entries c). i = n + j)"
    using assms(3,4) by (auto simp: gpi_at_inject)
  also have "\<dots> \<longleftrightarrow> n \<le> i \<and> i < n + length (entries c)"
    by (auto simp: le_iff_add)
  finally show ?thesis .
qed

lemma placed_forward:
  assumes "ok c" "first_offset c = gpi_at (GlobalPi 0) n" "n \<le> i" "i < n + length (entries c)"
  shows "forward_lookup c (gpi_at (GlobalPi 0) i) = Inr (entries c ! (i - n))"
  using forward_at [OF assms(1), of "i - n"] assms(2-4) by (simp add: gpi_at_plus)

lemma placed_reverse:
  assumes "ok c" "first_offset c = gpi_at (GlobalPi 0) n"
  shows "reverse_lookup c h \<noteq> GLOBAL_PI_NO_MATCH \<longleftrightarrow> Some h \<in> set (entries c)"
    and "reverse_lookup c h \<noteq> GLOBAL_PI_NO_MATCH \<Longrightarrow>
      \<exists>j < length (entries c). entries c ! j = Some h \<and> reverse_lookup c h = gpi_at (GlobalPi 0) (n + j)"
  using reverse_no_match_iff [OF assms(1), of h] reverse_present [OF assms(1), of h] assms(2)
  by (auto simp: gpi_at_plus)

end

section \<open>The room of the tier\<close>

lemma contiguous_nth:
  "(\<And>k. k < length ds \<Longrightarrow> okd (ds ! k) \<and> first (ds ! k) = G k \<and> next_of (ds ! k) = G (Suc k)) \<Longrightarrow>
    contiguous okd first next_of (G 0) ds"
proof (induction ds arbitrary: G)
  case (Cons d ds)
  have "contiguous okd first next_of ((\<lambda>k. G (Suc k)) 0) ds"
  proof (rule Cons.IH)
    fix k assume "k < length ds"
    with Cons.prems [of "Suc k"] show "okd (ds ! k) \<and> first (ds ! k) = G (Suc k) \<and> next_of (ds ! k) = G (Suc (Suc k))"
      by simp
  qed
  with Cons.prems [of 0] show ?case by simp
qed simp

lemma donut_offset_at: "GlobalPi (donut_offset k) = gpi_at (GlobalPi 0) (k * ingester_donut_capacity)"
  by (simp add: gpi_at_def donut_offset_def)

lemma tier_room_ok:
  assumes "tier_body N (fs, f)" "items (tier_room f) \<noteq> []"
  shows "st01_room_ok N (tier_room f)" "st01_first_offset (hd (items (tier_room f))) = gpi_at (GlobalPi 0) 0"
proof -
  let ?ds = "items (tier_room f)"
  let ?G = "\<lambda>k. gpi_at (GlobalPi 0) (k * ingester_donut_capacity)"
  note T = tier_bodyD [OF assms(1)]
  have d: "st01_mem N (?ds ! k) \<and> st01_first_offset (?ds ! k) = ?G k \<and> st01_next_offset (?ds ! k) = ?G (Suc k)"
    if k: "k < length ?ds" for k
  proof -
    have D: "donut_inv N fs (tier_path f) k (prior_ST00 (?ds ! k))"
      "length (st01_entries (?ds ! k)) = ingester_donut_capacity"
      using T(7) [OF k] by (simp_all add: filled_inv_def st01_entries_def)
    then have mem: "st01_mem N (?ds ! k)" and first: "st01_first_offset (?ds ! k) = ?G k"
      by (simp_all add: donut_inv_def st01_mem_def st01_first_offset_def st00_first_offset_def donut_offset_at)
    from filled.next_offset [OF mem] D(2) first mem show ?thesis by (simp add: gpi_at_plus add.commute)
  qed
  have hd: "st01_first_offset (hd ?ds) = ?G 0" using d [of 0] assms(2) by (simp add: hd_conv_nth)
  then show "st01_first_offset (hd ?ds) = gpi_at (GlobalPi 0) 0" by simp
  have cont: "contiguous (st01_mem N) st01_first_offset st01_next_offset (?G 0) ?ds"
    by (rule contiguous_nth [of ?ds _ _ ?G]) (rule d)
  have "length (tier_contents (fs, f)) = length (concat (map st01_entries ?ds)) + length (forward_lookup_vector (hatchling f))"
    by (simp add: tier_contents_def room_entries_def)
  then have "length (concat (map st01_entries ?ds)) = length ?ds * ingester_donut_capacity"
    using length_tier_contents [OF assms(1)] by simp
  moreover have "length ?ds \<le> 4" using T(6) by (simp add: tier_numbers)
  ultimately show "st01_room_ok N (tier_room f)"
    using cont hd assms(2) T(4) by (simp add: st01_room_ok_def room_ok_def tier_numbers)
qed

lemma empty_room_reverse: "items r = [] \<Longrightarrow> st01_room_reverse_lookup r h = GLOBAL_PI_NO_MATCH"
  by (simp add: st01_room_reverse_lookup_def room_reverse_lookup_def with_current_contents_def Let_def)

section \<open>The ingester\<close>

text \<open>Where the three containers stand in the accepted stream.\<close>

lemma ingester_placed:
  assumes "stream_inv N base acc s" "ig_worker s \<noteq> Stuck"
  defines "d \<equiv> hatchling (snd (ig_tier s))" and "R \<equiv> room_entries st01_entries (tier_room (snd (ig_tier s)))"
  shows "acc = R @ forward_lookup_vector d @ ram_buffer (ig_buffer s)"
    and "st00_mem N d" "st00_first_offset d = gpi_at (GlobalPi 0) (length R)"
    and "ram_ok (ig_buffer s)" "ram_first_offset (ig_buffer s) = gpi_at (GlobalPi 0) (length R + length (forward_lookup_vector d))"
    and "items (tier_room (snd (ig_tier s))) \<noteq> [] \<Longrightarrow> st01_room_ok N (tier_room (snd (ig_tier s))) \<and>
      st01_first_offset (hd (items (tier_room (snd (ig_tier s))))) = gpi_at (GlobalPi 0) 0"
proof -
  note L = linked_of_inv [OF assms(1,2)]
  have inv: "tier_inv N (ig_tier s)" by (rule linked_inv [OF L(1)])
  obtain fs f where t: "ig_tier s = (fs, f)" by force
  have body: "tier_body N (fs, f)" using inv by (simp add: tier_inv_def t)
  have D: "donut_inv N fs (tier_path f) (length (items (tier_room f))) d" using tier_bodyD(8) [OF body] by (simp add: d_def t)
  have len: "length R = length (items (tier_room f)) * ingester_donut_capacity"
    using length_tier_contents [OF body] by (simp add: tier_contents_def R_def t)
  show "acc = R @ forward_lookup_vector d @ ram_buffer (ig_buffer s)"
    using L(3) by (simp add: tier_contents_def R_def d_def)
  show "st00_mem N d" "st00_first_offset d = gpi_at (GlobalPi 0) (length R)"
    using D by (simp_all add: donut_inv_def st00_first_offset_def donut_offset_at len)
  show "ram_ok (ig_buffer s)" "ram_first_offset (ig_buffer s) = gpi_at (GlobalPi 0) (length R + length (forward_lookup_vector d))"
    using L(1) by (simp_all add: worker.linked_def ram_first_offset_def tier_contents_def R_def d_def)
  show "st01_room_ok N (tier_room (snd (ig_tier s))) \<and>
      st01_first_offset (hd (items (tier_room (snd (ig_tier s))))) = gpi_at (GlobalPi 0) 0"
    if "items (tier_room (snd (ig_tier s))) \<noteq> []"
    using tier_room_ok [OF body] that by (simp add: t)
qed

lemma ingester_forward:
  assumes "stream_inv N base acc s" "ig_worker s \<noteq> Stuck" "length acc < 2 ^ 64 - 1" "i < length acc"
  defines "b \<equiv> ig_buffer s" and "d \<equiv> hatchling (snd (ig_tier s))" and "r \<equiv> tier_room (snd (ig_tier s))"
  shows "(if contains_pi (ram_first_offset b) (ram_next_offset b) (gpi_at (GlobalPi 0) i)
        then ram_forward_lookup b (gpi_at (GlobalPi 0) i)
      else if contains_pi (st00_first_offset d) (st00_next_offset d) (gpi_at (GlobalPi 0) i)
        then st00_forward_lookup d (gpi_at (GlobalPi 0) i)
      else st01_room_forward_lookup r (gpi_at (GlobalPi 0) i)) = Inr (acc ! i)"
proof -
  note P = ingester_placed [OF assms(1,2), folded b_def d_def r_def]
  let ?R = "room_entries st01_entries r" and ?H = "forward_lookup_vector d" and ?B = "ram_buffer b"
  have small: "length ?R + length ?H + length ?B < 2 ^ 64 - 1" using assms(3) P(1) by simp
  have empty: "?R = []" if "items r = []" using that by (simp add: room_entries_def)
  have room: "st01_room_ok N r" "value_of (st01_room_first_offset r) = gpi_at (GlobalPi 0) 0" if "items r \<noteq> []"
    using P(6) that st01_room_offsets [of N r] by auto
  note i = assms(4)
  have i64: "i < 2 ^ 64 - 1" using i assms(3) by simp
  have inB: "contains_pi (ram_first_offset b) (ram_next_offset b) (gpi_at (GlobalPi 0) i) \<longleftrightarrow> length ?R + length ?H \<le> i"
    using ram.placed_contains [OF P(4,5) _ i64] small i P(1) by simp
  have inH: "contains_pi (st00_first_offset d) (st00_next_offset d) (gpi_at (GlobalPi 0) i) \<longleftrightarrow>
      length ?R \<le> i \<and> i < length ?R + length ?H"
    using donut.placed_contains [OF P(2,3) _ i64] small by simp
  consider "length ?R + length ?H \<le> i" | "length ?R \<le> i" "i < length ?R + length ?H" | "i < length ?R" by linarith
  then show ?thesis
  proof cases
    case 1
    then have "acc ! i = ?B ! (i - (length ?R + length ?H))"
      by (simp only: P(1) append_assoc [symmetric]) (simp only: nth_append length_append not_less [symmetric] if_False)
    then show ?thesis using inB 1 ram.placed_forward [OF P(4,5) 1] i P(1) by simp
  next
    case 2
    then have "i - length ?R < length ?H" by linarith
    then have "acc ! i = ?H ! (i - length ?R)" using 2(1) P(1) by (simp add: nth_append)
    then show ?thesis using inB inH 2 donut.placed_forward [OF P(2,3) 2] by simp
  next
    case 3
    then have "items r \<noteq> []" using empty by auto
    from donut_room.placed_forward [OF room [OF this], of i] 3 show ?thesis using inB inH P(1) by (simp add: nth_append)
  qed
qed

lemma ingester_reverse:
  assumes "stream_inv N base acc s" "ig_worker s \<noteq> Stuck" "length acc < 2 ^ 64 - 1"
  defines "b \<equiv> ig_buffer s" and "d \<equiv> hatchling (snd (ig_tier s))" and "r \<equiv> tier_room (snd (ig_tier s))"
  shows "Some h \<in> set acc \<longleftrightarrow>
      (\<exists>g \<in> {ram_reverse_lookup b h, st00_reverse_lookup d h, st01_room_reverse_lookup r h}. g \<noteq> GLOBAL_PI_NO_MATCH)"
    and "\<lbrakk>g \<in> {ram_reverse_lookup b h, st00_reverse_lookup d h, st01_room_reverse_lookup r h};
      g \<noteq> GLOBAL_PI_NO_MATCH\<rbrakk> \<Longrightarrow> \<exists>i < length acc. g = gpi_at (GlobalPi 0) i \<and> acc ! i = Some h"
proof -
  note P = ingester_placed [OF assms(1,2), folded b_def d_def r_def]
  let ?R = "room_entries st01_entries r" and ?H = "forward_lookup_vector d" and ?B = "ram_buffer b"
  have empty: "?R = []" if "items r = []" using that by (simp add: room_entries_def)
  have room: "st01_room_ok N r" "value_of (st01_room_first_offset r) = gpi_at (GlobalPi 0) 0" if "items r \<noteq> []"
    using P(6) that st01_room_offsets [of N r] by auto
  have rB: "ram_reverse_lookup b h \<noteq> GLOBAL_PI_NO_MATCH \<longleftrightarrow> Some h \<in> set ?B"
      "ram_reverse_lookup b h \<noteq> GLOBAL_PI_NO_MATCH \<Longrightarrow>
        \<exists>j < length ?B. ?B ! j = Some h \<and> ram_reverse_lookup b h = gpi_at (GlobalPi 0) (length ?R + length ?H + j)" for h
    by (rule ram.placed_reverse [OF P(4,5)])+ assumption
  have rH: "st00_reverse_lookup d h \<noteq> GLOBAL_PI_NO_MATCH \<longleftrightarrow> Some h \<in> set ?H"
      "st00_reverse_lookup d h \<noteq> GLOBAL_PI_NO_MATCH \<Longrightarrow>
        \<exists>j < length ?H. ?H ! j = Some h \<and> st00_reverse_lookup d h = gpi_at (GlobalPi 0) (length ?R + j)" for h
    by (rule donut.placed_reverse [OF P(2,3)])+ assumption
  have rR: "st01_room_reverse_lookup r h \<noteq> GLOBAL_PI_NO_MATCH \<longleftrightarrow> Some h \<in> set ?R"
      "st01_room_reverse_lookup r h \<noteq> GLOBAL_PI_NO_MATCH \<Longrightarrow>
        \<exists>j < length ?R. ?R ! j = Some h \<and> st01_room_reverse_lookup r h = gpi_at (GlobalPi 0) (0 + j)" for h
    using empty_room_reverse [of r h] empty donut_room.placed_reverse [OF room, of h]
    by (cases "items r = []"; auto)+
  show "Some h \<in> set acc \<longleftrightarrow>
      (\<exists>g \<in> {ram_reverse_lookup b h, st00_reverse_lookup d h, st01_room_reverse_lookup r h}. g \<noteq> GLOBAL_PI_NO_MATCH)"
    using rB(1) [of h] rH(1) [of h] rR(1) [of h] P(1) by auto
  show "\<exists>i < length acc. g = gpi_at (GlobalPi 0) i \<and> acc ! i = Some h"
    if g: "g \<in> {ram_reverse_lookup b h, st00_reverse_lookup d h, st01_room_reverse_lookup r h}"
      "g \<noteq> GLOBAL_PI_NO_MATCH"
  proof -
    consider "g = ram_reverse_lookup b h" | "g = st00_reverse_lookup d h" | "g = st01_room_reverse_lookup r h" using g(1) by blast
    then show ?thesis
    proof cases
      case 1
      with rB(2) [of h] g(2) obtain j where "j < length ?B" "?B ! j = Some h" "g = gpi_at (GlobalPi 0) (length ?R + length ?H + j)" by auto
      then show ?thesis using P(1) by (intro exI [of _ "length ?R + length ?H + j"]) (simp add: nth_append)
    next
      case 2
      with rH(2) [of h] g(2) obtain j where "j < length ?H" "?H ! j = Some h" "g = gpi_at (GlobalPi 0) (length ?R + j)" by auto
      then show ?thesis using P(1) by (intro exI [of _ "length ?R + j"]) (simp add: nth_append)
    next
      case 3
      with rR(2) [of h] g(2) obtain j where "j < length ?R" "?R ! j = Some h" "g = gpi_at (GlobalPi 0) j" by auto
      then show ?thesis using P(1) by (intro exI [of _ j]) (simp add: nth_append)
    qed
  qed
qed

text \<open>C5: Every accepted hash can be found.  In every state that the ingester reaches from its first
  start, unless its worker waits for ever, asking the container whose range holds a global index
  (the buffer in memory, else the hatchling, else the buffer room) returns exactly what was
  accepted at that index; a hash was accepted exactly when one of the three reverse lookups
  answers, and every answer is an index at which it was accepted.\<close>

theorem accepted_hashes_are_found:
  assumes "fresh_base N fs base" "mk_ingester N fs base = Inr s0" "ingester_run N s0 acc s"
    and "length acc < 2 ^ 64 - 1" "ig_worker s \<noteq> Stuck"
  defines "b \<equiv> ig_buffer s" and "d \<equiv> hatchling (snd (ig_tier s))" and "r \<equiv> tier_room (snd (ig_tier s))"
  shows "(\<forall>i < length acc. let g = gpi_at (GlobalPi 0) i in
        (if contains_pi (ram_first_offset b) (ram_next_offset b) g then ram_forward_lookup b g
         else if contains_pi (st00_first_offset d) (st00_next_offset d) g then st00_forward_lookup d g
         else st01_room_forward_lookup r g) = Inr (acc ! i))
    \<and> (\<forall>h. Some h \<in> set acc \<longleftrightarrow>
        (\<exists>g \<in> {ram_reverse_lookup b h, st00_reverse_lookup d h, st01_room_reverse_lookup r h}. g \<noteq> GLOBAL_PI_NO_MATCH))
    \<and> (\<forall>h. \<forall>g \<in> {ram_reverse_lookup b h, st00_reverse_lookup d h, st01_room_reverse_lookup r h}.
        g \<noteq> GLOBAL_PI_NO_MATCH \<longrightarrow> (\<exists>i < length acc. g = gpi_at (GlobalPi 0) i \<and> acc ! i = Some h))"
proof -
  note inv = run_inv [OF assms(1-4)]
  show ?thesis
    using ingester_forward [OF inv assms(5,4)] ingester_reverse [OF inv assms(5,4)]
    unfolding b_def d_def r_def Let_def by blast
qed

theorem accepted_hashes_are_found_witness:
  "\<exists>s0 s. mk_ingester 1 [] [''b''] = Inr s0 \<and> ingester_run 1 s0 [Some [7], None] s
     \<and> (if contains_pi (ram_first_offset (ig_buffer s)) (ram_next_offset (ig_buffer s)) (GlobalPi 1)
          then ram_forward_lookup (ig_buffer s) (GlobalPi 1)
        else if contains_pi (st00_first_offset (hatchling (snd (ig_tier s)))) (st00_next_offset (hatchling (snd (ig_tier s)))) (GlobalPi 1)
          then st00_forward_lookup (hatchling (snd (ig_tier s))) (GlobalPi 1)
        else st01_room_forward_lookup (tier_room (snd (ig_tier s))) (GlobalPi 1)) = Inr None"
proof -
  have b: "[Some [7], None] \<noteq> ([] :: hash option list)" "\<forall>h. Some h \<in> set [Some [7], None] \<longrightarrow> hash_wf 1 h"
    "length ([Some [7], None] :: hash option list) < tier_capacity"
    by (simp_all add: hash_wf_def tier_numbers)
  obtain s0 s where s: "mk_ingester 1 [] [''b''] = Inr s0" "ingester_run 1 s0 [Some [7], None] s" "ig_worker s = At_Head"
    by (rule flushed_run [OF fresh_base_example b])
  have "length [Some [7 :: u8], None] < 2 ^ 64 - 1" "ig_worker s \<noteq> Stuck" using s(3) by simp_all
  from accepted_hashes_are_found [OF fresh_base_example s(1,2) this, THEN conjunct1, THEN spec, of 1]
  have "(if contains_pi (ram_first_offset (ig_buffer s)) (ram_next_offset (ig_buffer s)) (GlobalPi 1)
          then ram_forward_lookup (ig_buffer s) (GlobalPi 1)
        else if contains_pi (st00_first_offset (hatchling (snd (ig_tier s)))) (st00_next_offset (hatchling (snd (ig_tier s)))) (GlobalPi 1)
          then st00_forward_lookup (hatchling (snd (ig_tier s))) (GlobalPi 1)
        else st01_room_forward_lookup (tier_room (snd (ig_tier s))) (GlobalPi 1)) = Inr None"
    by (simp add: gpi_at_def Let_def)
  with s(1,2) show ?thesis by blast
qed

end
