(* ===== verification/Ingester_Log.thy ===== *)
theory Ingester_Log
  imports Ingester_Lookups
begin

text \<open>
  What the ingester promises, as an abstract machine: an append-only log of presentations of which
  a prefix is persisted.  The clients, the worker and the destructor of the detailed model
  (\<^verbatim>\<open>apps/wedding_cake/include/ingester.hpp\<close>, \<^verbatim>\<open>ingester_buffer.hpp\<close>, \<^verbatim>\<open>ingestor_worker.hpp\<close>) refine it
  step by step, so what holds of every run of the log holds of the ingester; that a \<open>flush\<close> which
  returned has made everything before it durable is proved on the log.  A worker that waits for ever
  in the middle of its work is a state of the log of its own.  The last section adds the
  range that the store covers.
\<close>

section \<open>The log\<close>

record log_store =
  accepted :: "hash option list"
  persisted :: nat
  flush_pending :: bool
  closing :: bool
  hung :: bool

text \<open>
  A log accepts presentations until it is closed.  It persists everything it has accepted at once,
  as long as it has room; this also answers a pending flush, and closing gives up on it.  A log that
  has to persist more than it has room for fills up and hangs: nothing happens to it any more.
\<close>

inductive log_step :: "log_store \<Rightarrow> hash option list \<Rightarrow> log_store \<Rightarrow> bool" where
  log_accept: "\<not> closing l \<Longrightarrow> \<not> hung l \<Longrightarrow> log_step l hs (l\<lparr>accepted := accepted l @ hs\<rparr>)"
| log_flush: "persisted l < length (accepted l) \<Longrightarrow> \<not> closing l \<Longrightarrow> \<not> hung l \<Longrightarrow>
    log_step l [] (l\<lparr>flush_pending := True\<rparr>)"
| log_persist: "\<not> hung l \<Longrightarrow> length (accepted l) < tier_capacity \<Longrightarrow>
    log_step l [] (l\<lparr>persisted := length (accepted l), flush_pending := False\<rparr>)"
| log_hang: "\<not> hung l \<Longrightarrow> persisted l < tier_capacity \<Longrightarrow> tier_capacity \<le> length (accepted l) \<Longrightarrow>
    log_step l [] (l\<lparr>persisted := tier_capacity, hung := True\<rparr>)"
| log_close: "\<not> hung l \<Longrightarrow> log_step l [] (l\<lparr>closing := True, flush_pending := False\<rparr>)"
| log_idle: "log_step l [] l"

inductive_cases log_stepE: "log_step l new l'"

inductive log_run :: "log_store \<Rightarrow> hash option list \<Rightarrow> log_store \<Rightarrow> bool" where
  log_nil: "log_run l [] l"
| log_snoc: "log_run l acc l1 \<Longrightarrow> log_step l1 new l2 \<Longrightarrow> log_run l (acc @ new) l2"

definition empty_log :: log_store where
  "empty_log = \<lparr>accepted = [], persisted = 0, flush_pending = False, closing = False, hung = False\<rparr>"

lemma log_run_accepted: "log_run l acc l' \<Longrightarrow> accepted l' = accepted l @ acc"
  by (induction rule: log_run.induct) (auto elim!: log_stepE)

lemma log_step_persisted:
  "log_step l new l' \<Longrightarrow> persisted l \<le> length (accepted l) \<Longrightarrow>
    persisted l \<le> persisted l' \<and> persisted l' \<le> length (accepted l') \<and> (closing l \<longrightarrow> closing l')"
  by (auto elim!: log_stepE)

lemma log_run_persisted:
  "log_run l acc l' \<Longrightarrow> persisted l \<le> length (accepted l) \<Longrightarrow>
    persisted l \<le> persisted l' \<and> persisted l' \<le> length (accepted l') \<and> (closing l \<longrightarrow> closing l')"
proof (induction rule: log_run.induct)
  case (log_snoc l acc l1 new l2)
  then show ?case using log_step_persisted [of l1 new l2] by auto
qed simp

text \<open>A flush that is over, on a log that was not closed, has persisted what was accepted before it.\<close>

lemma log_flush_over:
  assumes "log_run l acc l'" "persisted l \<le> length (accepted l)"
    and "flush_pending l \<or> persisted l = length (accepted l)"
  shows "closing l' \<or> flush_pending l' \<or> length (accepted l) \<le> persisted l'"
  using assms
proof (induction rule: log_run.induct)
  case (log_snoc l acc l1 new l2)
  have acc: "accepted l1 = accepted l @ acc" by (rule log_run_accepted [OF log_snoc.hyps(1)])
  have p: "persisted l1 \<le> length (accepted l1)" using log_run_persisted [OF log_snoc.hyps(1) log_snoc.prems(1)] by simp
  show ?case using log_snoc.hyps(2) log_snoc.IH [OF log_snoc.prems] acc p by (auto elim!: log_stepE)
qed auto

section \<open>The ingester refines the log\<close>

text \<open>
  What was moved out of the buffer: the donuts of the tier, and the donut that waits to be fed into
  the room.
\<close>

definition consumed :: "ingester \<Rightarrow> hash option list" where
  "consumed s = tier_contents (ig_tier s) @ (case ig_in_flight s of None \<Rightarrow> [] | Some d \<Rightarrow> st01_entries d)"

definition log_of :: "ingester \<Rightarrow> log_store" where
  "log_of s = \<lparr>accepted = consumed s @ ram_buffer (ig_buffer s),
     persisted = length (consumed s),
     flush_pending = (please_flush (ig_buffer s) \<and> \<not> stopping (ig_buffer s)),
     closing = stopping (ig_buffer s), hung = (ig_worker s = Stuck)\<rparr>"

lemma consumed_simps [simp]:
  "consumed (s\<lparr>ig_buffer := b\<rparr>) = consumed s" "consumed (s\<lparr>ig_worker := w\<rparr>) = consumed s"
  "consumed (s\<lparr>ig_stop_requested := f\<rparr>) = consumed s"
  "ig_in_flight s = None \<Longrightarrow> consumed s = tier_contents (ig_tier s)"
  by (simp_all add: consumed_def)

lemma log_of_persisted [simp]: "persisted (log_of s) \<le> length (accepted (log_of s))"
  by (simp add: log_of_def)

lemma log_of_flush:
  "stopping (ig_buffer s) \<or> flush_pending (log_of (ingester_flush s))
    \<or> persisted (log_of (ingester_flush s)) = length (accepted (log_of (ingester_flush s)))"
  by (simp add: log_of_def ingester_flush_def flush_request_def)

lemma log_of_flush_same:
  "accepted (log_of (ingester_flush s)) = accepted (log_of s)"
  "persisted (log_of (ingester_flush s)) = persisted (log_of s)"
  by (simp_all add: log_of_def ingester_flush_def)

lemma log_step_flush:
  assumes "mutex_free s"
  shows "log_step (log_of s) [] (log_of (ingester_flush s))"
proof (cases "stopping (ig_buffer s) \<or> ram_buffer (ig_buffer s) = []")
  case True
  then have "log_of (ingester_flush s) = log_of s"
    by (auto simp: log_of_def ingester_flush_def flush_request_def)
  then show ?thesis using log_idle by simp
next
  case False
  then have "log_of (ingester_flush s) = log_of s\<lparr>flush_pending := True\<rparr>"
    by (simp add: log_of_def ingester_flush_def flush_request_def)
  moreover have "persisted (log_of s) < length (accepted (log_of s))" "\<not> closing (log_of s)" "\<not> hung (log_of s)"
    using False assms by (simp_all add: log_of_def mutex_free_def)
  ultimately show ?thesis using log_flush by metis
qed

lemma log_step_feed:
  assumes "ingester_feed hashes s = Inr s'" "mutex_free s"
  shows "log_step (log_of s) (if stopping (ig_buffer s) then [] else hashes) (log_of s')"
proof -
  obtain b where b: "feed_block_of_hashes hashes (ig_buffer s) = Inr b" "s' = s\<lparr>ig_buffer := b\<rparr>"
    using assms(1) by (auto simp: ingester_feed_def rbind_eq_Inr)
  show ?thesis
  proof (cases "stopping (ig_buffer s)")
    case True
    then have "b = ig_buffer s" using b(1) by (auto simp: feed_block_of_hashes_def split: if_splits)
    then show ?thesis using b(2) True log_idle by simp
  next
    case False
    then have l: "log_of s' = log_of s\<lparr>accepted := accepted (log_of s) @ hashes\<rparr>"
      using b by (auto simp: feed_block_of_hashes_def log_of_def split: if_splits)
    have "\<not> closing (log_of s)" "\<not> hung (log_of s)"
      using False assms(2) by (simp_all add: log_of_def mutex_free_def)
    from log_accept [OF this] show ?thesis unfolding l using False by simp
  qed
qed

lemma log_step_worker:
  assumes "stream_inv N base acc s" "ig_worker s = In_Loop" "has_items (ig_buffer s)"
  shows "log_step (log_of s) [] (log_of (worker_iteration N s))"
proof -
  have ns: "ig_worker s \<noteq> Stuck" using assms(2) by simp
  note i = linked_of_inv [OF assms(1) ns]
  have wf: "\<forall>h. Some h \<in> set (ram_buffer (ig_buffer s)) \<longrightarrow> hash_wf N h" using i(3,4) by auto
  show ?thesis
  proof (cases "length (tier_contents (ig_tier s)) + length (ram_buffer (ig_buffer s)) < tier_capacity")
    case True
    obtain t b where w: "worker_iteration N s = s\<lparr>ig_tier := t, ig_buffer := b, ig_worker := At_Head\<rparr>"
      "tier_contents t = tier_contents (ig_tier s) @ ram_buffer (ig_buffer s)"
      "ram_buffer b = []" "flush_done b" "stopping b = stopping (ig_buffer s)"
      by (rule worker_iteration_ok [OF i(1) assms(3) wf True])
    then have "log_of (worker_iteration N s) = log_of s\<lparr>persisted := length (accepted (log_of s)), flush_pending := False\<rparr>"
      using i(5) ns by (auto simp: log_of_def flush_done_def consumed_def)
    moreover have "length (accepted (log_of s)) < tier_capacity" "\<not> hung (log_of s)"
      using True ns i(5) by (simp_all add: log_of_def)
    ultimately show ?thesis using log_persist by metis
  next
    case False
    then have full: "tier_capacity \<le> length (tier_contents (ig_tier s)) + length (ram_buffer (ig_buffer s))" by simp
    obtain t d rest where w: "worker_iteration N s = s\<lparr>ig_tier := t, ig_buffer := (ig_buffer s)\<lparr>ram_buffer := rest\<rparr>,
        ig_in_flight := Some d, ig_worker := Stuck\<rparr>"
      "waiting_at t d rest (tier_contents (ig_tier s) @ ram_buffer (ig_buffer s))"
      by (rule worker_iteration_blocks [OF i(1) assms(3) wf full])
    then have "log_of (worker_iteration N s) = log_of s\<lparr>persisted := tier_capacity, hung := True\<rparr>"
      using i(5) by (simp add: log_of_def consumed_def waiting_at_def tier_numbers)
    moreover have "\<not> hung (log_of s)" "persisted (log_of s) < tier_capacity" "tier_capacity \<le> length (accepted (log_of s))"
      using ns i(5) full tier_contents_less [OF linked_inv [OF i(1)]] by (simp_all add: log_of_def)
    ultimately show ?thesis using log_hang by metis
  qed
qed

lemma log_step_stop:
  assumes "mutex_free s"
  shows "log_step (log_of s) [] (log_of (stop_buffer s))"
proof -
  have "log_of (stop_buffer s) = log_of s\<lparr>closing := True, flush_pending := False\<rparr>"
    by (simp add: log_of_def stop_buffer_def)
  moreover have "\<not> hung (log_of s)" using assms by (simp add: log_of_def mutex_free_def)
  ultimately show ?thesis using log_close by simp
qed

text \<open>The simulation.\<close>

lemma ingester_step_log:
  assumes "stream_inv N base acc s" "ingester_step N s new s'"
  shows "log_step (log_of s) new (log_of s')"
  using assms(2)
proof cases
  case (client_feed hashes)
  then show ?thesis using log_step_feed by simp
next
  case client_flush
  then show ?thesis using log_step_flush by simp
next
  case worker_enter
  then show ?thesis using log_idle by (simp add: log_of_def)
next
  case worker_leave
  then show ?thesis using log_idle by (simp add: log_of_def)
next
  case worker_run
  then show ?thesis using log_step_worker [OF assms(1)] by simp
next
  case destroy_request
  then show ?thesis using log_idle by (simp add: log_of_def request_stop_def)
next
  case destroy_stop
  then show ?thesis using log_step_stop by simp
qed

lemma ingester_run_log:
  assumes "ingester_run N s new s'" "stream_inv N base acc s" "length (acc @ new) < 2 ^ 64 - 1"
  shows "log_run (log_of s) new (log_of s') \<and> stream_inv N base (acc @ new) s'"
  using assms
proof (induction rule: ingester_run.induct)
  case (run_nil s)
  then show ?case using log_nil by simp
next
  case (run_step s new s1 new' s2)
  have i: "log_run (log_of s) new (log_of s1)" "stream_inv N base (acc @ new) s1"
    using run_step.IH run_step.prems by simp_all
  have "stream_inv N base ((acc @ new) @ new') s2"
    by (rule stream_inv_step [OF i(2) run_step.hyps(2)]) (use run_step.prems in simp)
  then show ?case using log_snoc [OF i(1) ingester_step_log [OF i(2) run_step.hyps(2)]] by simp
qed

lemma log_of_start:
  assumes "fresh_base N fs base" "mk_ingester N fs base = Inr s0"
  shows "stream_inv N base [] s0" "log_of s0 = empty_log"
proof -
  obtain s where s: "mk_ingester N fs base = Inr s" "stream_inv N base [] s" "\<not> stopping (ig_buffer s)"
    "\<not> please_flush (ig_buffer s)" "tier_contents (ig_tier s) = []" "ram_buffer (ig_buffer s) = []"
    "ig_in_flight s = None" "ig_worker s = At_Head"
    by (rule mk_ingester_start [OF assms(1)])
  then show "stream_inv N base [] s0" "log_of s0 = empty_log"
    using assms(2) by (simp_all add: log_of_def empty_log_def)
qed

section \<open>The range of the store\<close>

lemma store_first_offset:
  assumes "stream_inv N base acc s" "ig_worker s \<noteq> Stuck" "\<forall>r. buffer_empty r = (items r = [])"
  shows "store_b_first_offset buffer_empty s = Inr (GlobalPi 0)"
proof -
  note P = ingester_placed [OF assms(1,2)]
  let ?r = "tier_room (snd (ig_tier s))"
  show ?thesis
  proof (cases "items ?r = []")
    case True
    then have "room_entries st01_entries ?r = []" by (simp add: room_entries_def)
    then show ?thesis using P(3) True assms(3)
      by (simp add: store_b_first_offset_def ingester_first_offset_def tier_first_offset_def lookupable_empty_def)
  next
    case False
    then have "st01_room_first_offset ?r = Inr (GlobalPi 0)"
      using P(6) st01_room_offsets [of N ?r] by simp
    then show ?thesis using False assms(3)
      by (simp add: store_b_first_offset_def ingester_first_offset_def tier_first_offset_def lookupable_empty_def)
  qed
qed

section \<open>Properties\<close>

text \<open>C2: The ingester is an append-only log.  Every run of clients, worker and destructor from the
  first start is a run of the abstract log that accepts exactly the same presentations: what was
  moved into donuts followed by what is in memory is the log, the former is its persisted prefix,
  which is extended only to the whole log, a flush is pending exactly as long as the log says, and
  nothing is accepted after the buffer was stopped.  A run in which the worker comes to wait for
  ever is one in which the log hangs: it has at least \<open>5 * 65535\<close> presentations to hold, exactly
  so many are in donuts (the last of them in the donut that waits in front of the room), and from
  then on nothing is accepted, persisted, flushed or closed.\<close>

theorem ingester_refines_log:
  assumes "fresh_base N fs base" "mk_ingester N fs base = Inr s0" "ingester_run N s0 acc s"
    and "length acc < 2 ^ 64 - 1"
  shows "log_run empty_log acc (log_of s)"
  using ingester_run_log [OF assms(3), of base "[]"] log_of_start [OF assms(1,2)] assms(4) by simp

theorem ingester_refines_log_witness:
  "\<exists>s0 s. mk_ingester 1 [] [''b''] = Inr s0 \<and> ingester_run 1 s0 [Some [7], None] s
     \<and> log_run empty_log [Some [7], None] (log_of s) \<and> persisted (log_of s) = 2"
proof -
  have b: "[Some [7], None] \<noteq> ([] :: hash option list)" "\<forall>h. Some h \<in> set [Some [7], None] \<longrightarrow> hash_wf 1 h"
    "length ([Some [7], None] :: hash option list) < tier_capacity"
    by (simp_all add: hash_wf_def tier_numbers)
  obtain s0 s where s: "mk_ingester 1 [] [''b''] = Inr s0" "ingester_run 1 s0 [Some [7], None] s"
    "ig_worker s = At_Head" "tier_contents (ig_tier s) = [Some [7], None]"
    by (rule flushed_run [OF fresh_base_example b])
  have run: "log_run empty_log [Some [7], None] (log_of s)"
    by (rule ingester_refines_log [OF fresh_base_example s(1,2)]) simp
  have inv: "stream_inv 1 [''b''] [Some [7], None] s" by (rule run_inv [OF fresh_base_example s(1,2)]) simp
  have ns: "ig_worker s \<noteq> Stuck" using s(3) by simp
  have "persisted (log_of s) = 2" using linked_of_inv(5) [OF inv ns] s(4) by (simp add: log_of_def)
  with run s(1,2) show ?thesis by blast
qed

text \<open>C3: A flush that returned has moved everything before it into the donuts.  Let a client call
  \<open>flush\<close> when \<open>acc\<close> was accepted, and let anything happen until its wait is over, with the mutex
  free and the buffer not stopped.  Then the donuts start with \<open>acc\<close>; and, provided the hashes in the
  donuts are distinct, destroying the ingester in an orderly way and constructing it again over
  what is on disk gives \<open>acc\<close> back, whatever was fed in the meantime.\<close>

theorem flush_is_durable:
  assumes "fresh_base N fs base" "mk_ingester N fs base = Inr s0" "ingester_run N s0 acc s"
    and "mutex_free s" "ingester_run N (ingester_flush s) new s'" "length (acc @ new) < 2 ^ 64 - 1"
    and "mutex_free s'" "flush_done (ig_buffer s')" "\<not> stopping (ig_buffer s')"
  shows "take (length acc) (tier_contents (ig_tier s')) = acc
    \<and> (distinct (hashes_of (tier_contents (ig_tier s'))) \<longrightarrow>
        (\<exists>s2. mk_ingester N (destroy_members s') base = Inr s2 \<and> take (length acc) (tier_contents (ig_tier s2)) = acc))"
proof -
  note start = log_of_start [OF assms(1,2)]
  have R: "log_run empty_log acc (log_of s)" "stream_inv N base acc s"
    using ingester_run_log [OF assms(3), of base "[]"] start assms(6) by simp_all
  have inv: "stream_inv N base acc (ingester_flush s)"
    using stream_inv_step [OF R(2) client_flush [OF assms(4)]] assms(6) by simp
  have run: "log_run (log_of (ingester_flush s)) new (log_of s')" "stream_inv N base (acc @ new) s'"
    using ingester_run_log [OF assms(5) inv assms(6)] by simp_all
  have a: "accepted (log_of (ingester_flush s)) = acc" "accepted (log_of s') = acc @ new"
    using log_run_accepted [OF R(1)] log_run_accepted [OF run(1)] by (simp_all add: log_of_flush_same empty_log_def)
  have "\<not> stopping (ig_buffer s)"
    using log_run_persisted [OF run(1) log_of_persisted] assms(9) by (auto simp: log_of_def ingester_flush_def)
  then have "length acc \<le> persisted (log_of s')"
    using log_flush_over [OF run(1) log_of_persisted] log_of_flush [of s] assms(8,9) a(1)
    by (auto simp: log_of_def flush_done_def)
  moreover have ns: "ig_worker s' \<noteq> Stuck" using assms(7) by (simp add: mutex_free_def)
  note linked_of_inv(5) [OF run(2) ns]
  ultimately have prefix: "take (length acc) (tier_contents (ig_tier s')) = acc"
    using a(2) by (simp add: log_of_def append_eq_append_conv2) (auto simp: take_append)
  have "\<exists>s2. mk_ingester N (destroy_members s') base = Inr s2 \<and> take (length acc) (tier_contents (ig_tier s2)) = acc"
    if d: "distinct (hashes_of (tier_contents (ig_tier s')))"
    by (rule ingester_restart [OF run(2) ns d]) (use prefix in auto)
  with prefix show ?thesis by blast
qed

theorem flush_is_durable_witness:
  "\<exists>s0 s s' s2. mk_ingester 1 [] [''b''] = Inr s0 \<and> ingester_run 1 s0 [Some [7], None] s
     \<and> ram_buffer (ig_buffer s) = [Some [7], None]
     \<and> ingester_run 1 (ingester_flush s) [] s' \<and> take 2 (tier_contents (ig_tier s')) = [Some [7], None]
     \<and> mk_ingester 1 (destroy_members s') [''b''] = Inr s2 \<and> take 2 (tier_contents (ig_tier s2)) = [Some [7], None]"
proof -
  let ?b = "[Some [7], None] :: hash option list"
  have b: "?b \<noteq> []" "\<forall>h. Some h \<in> set ?b \<longrightarrow> hash_wf 1 h" by (simp_all add: hash_wf_def)
  obtain s0 s where s: "mk_ingester 1 [] [''b''] = Inr s0" "ingester_run 1 s0 ?b s" "ig_worker s = In_Loop"
    "ram_buffer (ig_buffer s) = ?b" "has_items (ig_buffer s)" "please_flush (ig_buffer s) = True" "\<not> stopping (ig_buffer s)"
    by (rule fed_run [OF fresh_base_example b, where flushing = True]) simp
  have free: "mutex_free s" using s(3) by (simp add: mutex_free_def)
  define f where "f = ingester_flush s"
  have f: "ig_worker f = In_Loop" "has_items (ig_buffer f)" "ram_buffer (ig_buffer f) = ?b" "\<not> stopping (ig_buffer f)"
    using s(3,4,7) by (simp_all add: f_def ingester_flush_def flush_request_def has_items_def)
  have inv: "stream_inv 1 [''b''] ?b f"
    using run_inv [OF fresh_base_example s(1,2)] stream_inv_step [OF _ client_flush [OF free]] by (fastforce simp: f_def)
  have ns: "ig_worker f \<noteq> Stuck" using f(1) by simp
  note i = linked_of_inv [OF inv ns]
  have c: "tier_contents (ig_tier f) = []" using i(3) f(3) by simp
  obtain t b' where w: "worker_iteration 1 f = f\<lparr>ig_tier := t, ig_buffer := b', ig_worker := At_Head\<rparr>"
    "tier_contents t = tier_contents (ig_tier f) @ ram_buffer (ig_buffer f)" "flush_done b'"
    "stopping b' = stopping (ig_buffer f)"
    by (rule worker_iteration_ok [OF i(1) f(2)]) (use b(2) c f(3) in \<open>simp_all add: tier_numbers\<close>)
  define s' where "s' = worker_iteration 1 f"
  have s': "tier_contents (ig_tier s') = ?b" "flush_done (ig_buffer s')" "\<not> stopping (ig_buffer s')" "mutex_free s'"
    using w(2-4) c f(3,4) unfolding s'_def w(1) by (simp_all add: mutex_free_def)
  have run: "ingester_run 1 (ingester_flush s) [] s'"
    using step_run [OF worker_run [OF f(1,2)]] by (simp add: f_def s'_def)
  have "distinct (hashes_of (tier_contents (ig_tier s')))" by (simp add: s'(1) hashes_of_def)
  moreover have "length (?b @ []) < 2 ^ 64 - 1" by simp
  ultimately obtain s2 where "mk_ingester 1 (destroy_members s') [''b''] = Inr s2"
    "take (length ?b) (tier_contents (ig_tier s2)) = ?b"
    using flush_is_durable [OF fresh_base_example s(1,2) free run _ s'(4,2,3)] by blast
  moreover have two: "length ?b = 2" by simp
  moreover have "take 2 (tier_contents (ig_tier s')) = ?b" unfolding s'(1) two [symmetric] by simp
  ultimately show ?thesis using s(1,2,4) run unfolding two by blast
qed

text \<open>C6: The store covers what it accepted.  Suppose \<open>empty()\<close> of the buffer room, which the
  repository uses and does not define, means what it means for every container.  Then in every
  reachable state in which the worker does not wait for ever the store starts at index 0, and an
  index lies between its first and its next offset exactly when something was accepted there.\<close>

theorem store_covers_accepted:
  assumes "\<forall>r. buffer_empty r = (items r = [])"
    and "fresh_base N fs base" "mk_ingester N fs base = Inr s0" "ingester_run N s0 acc s"
    and "length acc < 2 ^ 64 - 1" "ig_worker s \<noteq> Stuck"
  shows "\<exists>first. store_b_first_offset buffer_empty s = Inr first \<and> first = GlobalPi 0
    \<and> (\<forall>g. contains_pi first (store_b_next_offset s) g \<longleftrightarrow> (\<exists>i < length acc. g = gpi_at (GlobalPi 0) i))"
proof -
  have inv: "stream_inv N base acc s" by (rule run_inv [OF assms(2-5)])
  note i = linked_of_inv [OF inv assms(6)]
  have "store_b_next_offset s = gpi_at (GlobalPi 0) (length acc)"
    using worker.linked_next_offset [OF i(1)] i(3) by (simp add: store_b_next_offset_def ingester_next_offset_def)
  then have "contains_pi (GlobalPi 0) (store_b_next_offset s) g \<longleftrightarrow> (\<exists>i < length acc. g = gpi_at (GlobalPi 0) i)" for g
    using contains_pi_range [of "GlobalPi 0" "length acc" g] assms(5) by simp
  with store_first_offset [OF inv assms(6,1)] show ?thesis by blast
qed

theorem store_covers_accepted_witness:
  "\<exists>s0 s. mk_ingester 1 [] [''b''] = Inr s0 \<and> ingester_run 1 s0 [Some [7], None] s
     \<and> store_b_first_offset (\<lambda>r. items r = []) s = Inr (GlobalPi 0)
     \<and> contains_pi (GlobalPi 0) (store_b_next_offset s) (GlobalPi 1)"
proof -
  have b: "[Some [7], None] \<noteq> ([] :: hash option list)" "\<forall>h. Some h \<in> set [Some [7], None] \<longrightarrow> hash_wf 1 h"
    "length ([Some [7], None] :: hash option list) < tier_capacity"
    by (simp_all add: hash_wf_def tier_numbers)
  obtain s0 s where s: "mk_ingester 1 [] [''b''] = Inr s0" "ingester_run 1 s0 [Some [7], None] s" "ig_worker s = At_Head"
    by (rule flushed_run [OF fresh_base_example b])
  have "\<forall>r :: st01 buffer_room. (items r = []) = (items r = [])" "length [Some [7 :: u8], None] < 2 ^ 64 - 1" "ig_worker s \<noteq> Stuck"
    using s(3) by simp_all
  from store_covers_accepted [OF this(1) fresh_base_example s(1,2) this(2,3)] obtain first where
    *: "store_b_first_offset (\<lambda>r. items r = []) s = Inr first" "first = GlobalPi 0"
      "contains_pi first (store_b_next_offset s) (GlobalPi 1) \<longleftrightarrow> (\<exists>i < length [Some [7 :: u8], None]. GlobalPi 1 = gpi_at (GlobalPi 0) i)"
    by blast
  have "GlobalPi 1 = gpi_at (GlobalPi 0) 1" by (simp add: gpi_at_def)
  then have "contains_pi (GlobalPi 0) (store_b_next_offset s) (GlobalPi 1)" using *(2,3) by force
  with s(1,2) * show ?thesis by blast
qed

end
