(* ===== verification/Flush_Crash.thy ===== *)
theory Flush_Crash
  imports Ingester_Log "HOL-Library.Code_Target_Nat"
begin

text \<open>
  What a flush does not do.  \<^verbatim>\<open>apps/wedding_cake/include/ingester_buffer.hpp\<close> says that \<open>flush\<close> blocks
  until the worker completes a physical flush, but \<open>flush_manifest_to_disk\<close> in
  \<^verbatim>\<open>ingester_tier_folder.hpp\<close> is an empty ToDo, so the records of a small batch stay in the buffers
  of the two streams.  The counterexample is computed: one hash is fed and flushed, and the program
  is constructed again over the files as they are at that moment.
\<close>

section \<open>The computation\<close>

definition drained :: "ingester \<Rightarrow> ingester" where
  "drained s = worker_iteration 1 ((ingester_flush s)\<lparr>ig_worker := In_Loop\<rparr>)"

definition rebuilt_empty :: "ingester res \<Rightarrow> bool" where
  "rebuilt_empty r = (case r of Inr s2 \<Rightarrow> tier_contents (ig_tier s2) = [] | Inl _ \<Rightarrow> False)"

definition flushed_then_crashed :: bool where
  "flushed_then_crashed = (case rbind (mk_ingester 1 [] [''b'']) (ingester_feed [Some [7]]) of
     Inr s1 \<Rightarrow> rebuilt_empty (mk_ingester 1 (fst (ig_tier (drained s1))) [''b''])
   | Inl _ \<Rightarrow> False)"

lemma flushed_then_crashed: flushed_then_crashed
  by code_simp

lemma crash_example:
  assumes "mk_ingester 1 [] [''b''] = Inr s0" "ingester_feed [Some [7]] s0 = Inr s1"
  obtains s2 where "mk_ingester 1 (fst (ig_tier (drained s1))) [''b''] = Inr s2" "tier_contents (ig_tier s2) = []"
proof -
  have "rebuilt_empty (mk_ingester 1 (fst (ig_tier (drained s1))) [''b''])"
    using flushed_then_crashed unfolding flushed_then_crashed_def assms rbind.simps sum.case .
  then show ?thesis using that
    unfolding rebuilt_empty_def by (cases "mk_ingester 1 (fst (ig_tier (drained s1))) [''b'']") simp_all
qed

section \<open>Properties\<close>

text \<open>C4: A flush that returned is not physical.  A client feeds one hash into a new ingester and calls
  \<open>flush\<close>; the worker moves the hash into the donut, the wait of the flush is over, the mutex is
  free and nothing was stopped.  If the program crashes now, so that the stream buffers are lost,
  an ingester constructed over the files on disk is empty.\<close>

theorem flush_is_not_physical:
  "\<exists>s0 s1 s s2. mk_ingester 1 [] [''b''] = Inr s0 \<and> ingester_run 1 s0 [Some [7]] s1
    \<and> ram_buffer (ig_buffer s1) = [Some [7]]
    \<and> ingester_run 1 (ingester_flush s1) [] s \<and> mutex_free s \<and> flush_done (ig_buffer s) \<and> \<not> stopping (ig_buffer s)
    \<and> tier_contents (ig_tier s) = [Some [7]]
    \<and> mk_ingester 1 (fst (ig_tier s)) [''b''] = Inr s2 \<and> tier_contents (ig_tier s2) = []"
proof -
  let ?b = "[Some [7]] :: hash option list"
  obtain s0 where s0: "mk_ingester 1 [] [''b''] = Inr s0" "stream_inv 1 [''b''] [] s0" "ig_worker s0 = At_Head"
    "\<not> ig_stop_requested s0" "\<not> stopping (ig_buffer s0)" "tier_contents (ig_tier s0) = []" "ram_buffer (ig_buffer s0) = []"
    by (rule mk_ingester_start [OF fresh_base_example])
  have l0: "worker.linked 1 (ig_tier s0) (ig_buffer s0)" using s0(2,3) by (simp add: stream_inv_def)
  have "0 < downstream_remaining_capacity (ig_buffer s0)"
    using l0 worker.free_positive [OF linked_inv [OF l0]] by (simp add: worker.linked_def)
  then obtain s1 where s1: "ingester_feed ?b s0 = Inr s1" "ram_buffer (ig_buffer s1) = ?b" "ig_worker s1 = At_Head"
    "\<not> ig_stop_requested s1" "\<not> stopping (ig_buffer s1)" "ig_tier s1 = ig_tier s0"
    using s0(3-5,7) by (simp add: ingester_feed_def feed_block_of_hashes_def can_feed_def)
  have wf: "\<forall>h. Some h \<in> set ?b \<longrightarrow> hash_wf 1 h" by (simp add: hash_wf_def)
  from client_feed [OF _ wf s1(1)] have fed: "ingester_run 1 s0 ?b s1"
    using s0(3,5) by (simp add: mutex_free_def step_run)
  let ?f = "ingester_flush s1"
  define w where "w = ?f\<lparr>ig_worker := In_Loop\<rparr>"
  have "ig_worker ?f = At_Head" "\<not> ig_stop_requested ?f" using s1(3,4) by (simp_all add: ingester_flush_def)
  from step_run [OF worker_enter [OF this]] have enter: "ingester_run 1 ?f [] w" by (simp add: w_def)
  have W: "ig_worker w = In_Loop" "has_items (ig_buffer w)" "ram_buffer (ig_buffer w) = ?b" "\<not> stopping (ig_buffer w)"
    "ig_tier w = ig_tier s0"
    using s1 by (simp_all add: w_def ingester_flush_def flush_request_def has_items_def)
  have "stream_inv 1 [''b''] ?b s1" using run_inv [OF fresh_base_example s0(1) fed] by simp
  then have "stream_inv 1 [''b''] ?b ?f"
    using stream_inv_step [OF _ client_flush] s1(3) by (fastforce simp: mutex_free_def)
  then have "worker.linked 1 (ig_tier w) (ig_buffer w)"
    using s1(3) by (simp add: stream_inv_def w_def ingester_flush_def)
  then obtain t b' where d: "worker_iteration 1 w = w\<lparr>ig_tier := t, ig_buffer := b', ig_worker := At_Head\<rparr>"
    "tier_contents t = tier_contents (ig_tier w) @ ram_buffer (ig_buffer w)" "flush_done b'"
    "stopping b' = stopping (ig_buffer w)"
    by (rule worker_iteration_ok [OF _ W(2)]) (use wf W(3,5) s0(6) in \<open>simp_all add: tier_numbers\<close>)
  have drained: "drained s1 = worker_iteration 1 w" by (simp add: drained_def w_def)
  have D: "mutex_free (drained s1)" "flush_done (ig_buffer (drained s1))" "\<not> stopping (ig_buffer (drained s1))"
    "tier_contents (ig_tier (drained s1)) = ?b"
    using d(2-4) W(3-5) s0(6) unfolding drained d(1) by (simp_all add: mutex_free_def)
  from ingester_run.run_step [OF enter worker_run [OF W(1,2)]] have "ingester_run 1 ?f [] (drained s1)"
    by (simp add: drained)
  moreover obtain s2 where "mk_ingester 1 (fst (ig_tier (drained s1))) [''b''] = Inr s2" "tier_contents (ig_tier s2) = []"
    by (rule crash_example [OF s0(1) s1(1)])
  ultimately show ?thesis using s0(1) fed s1(2) D by blast
qed

end
