(* ===== verification/Room_Wakeups.thy ===== *)
theory Room_Wakeups
  imports Buffer_Room
begin

text \<open>
  The condition variables of
  \<^verbatim>\<open>libs/evolving_disk_state/include/evolving_disk_state/buffer_room.hpp\<close>.  A thread that holds
  \<open>state_mutex_\<close> and finds the predicate of its wait false falls asleep, and moves again only after
  one of the notifications of the code reached the variable it sleeps on; a step of a thread that
  is awake is a step of \<open>room_step\<close>.  Spurious wake-ups, which the standard allows but no program
  may rely on, are left out.  \<open>Discard\<close> sets its flag and looks at its predicate for the first time
  without releasing the mutex; here other threads may step in between, so all runs of the code and
  some more are covered, and the run of the lost wake-up below looks at once.

  The sleeping threads change nothing about which rooms and program counters are reached, so the
  safety properties of \<^verbatim>\<open>Buffer_Room\<close> are those of the code; whether the room can come to a halt
  depends on them and is proved here.
\<close>

section \<open>Sleeping and notifying\<close>

datatype cond_var = Cv_Producer | Cv_Consumer | Cv_Discard

fun waits_on :: "'a pc \<Rightarrow> cond_var option" where
  "waits_on (Feed_Wait _) = Some Cv_Producer"
| "waits_on Filled_Wait = Some Cv_Consumer"
| "waits_on Discard_Wait = Some Cv_Discard"
| "waits_on _ = None"

fun wait_predicate :: "nat \<Rightarrow> 'a buffer_room \<Rightarrow> 'a pc \<Rightarrow> bool" where
  "wait_predicate C r (Feed_Wait _) = producer_may_run C r"
| "wait_predicate C r Filled_Wait = consumer_may_run C r"
| "wait_predicate C r Discard_Wait = (active_readers r = 0)"
| "wait_predicate C r _ = True"

text \<open>
  The variable that the step of a thread at the given place notifies, in the room after the step:
  \<open>Feed\<close> after its push if the room is full, the destructor of \<open>ReaderScope\<close> if it was the last
  reader and a discard is on, \<open>Discard\<close> when it sets the flag and when it resets it.
\<close>

fun notifies :: "nat \<Rightarrow> 'a buffer_room \<Rightarrow> 'a pc \<Rightarrow> cond_var option" where
  "notifies C r Feed_Check = (if length (items r) = C then Some Cv_Consumer else None)"
| "notifies C r (Deregister _) = (if active_readers r = 0 \<and> is_discarding r then Some Cv_Discard else None)"
| "notifies C r Discard_Start = Some Cv_Consumer"
| "notifies C r Discard_Reset = Some Cv_Producer"
| "notifies C r _ = None"

record 'a wakeups =
  threads_of :: "'a threads"
  asleep :: "nat set"

definition notify_all :: "cond_var option \<Rightarrow> 'a threads \<Rightarrow> nat set \<Rightarrow> nat set" where
  "notify_all cv s Z = (case cv of None \<Rightarrow> Z | Some v \<Rightarrow> {u \<in> Z. waits_on (pc s u) \<noteq> Some v})"

inductive wakeup_step :: "nat \<Rightarrow> bool \<Rightarrow> 'a wakeups \<Rightarrow> 'a wakeups \<Rightarrow> bool" for C multi where
  awake_step: "room_step C multi s s' \<Longrightarrow> pc s' t \<noteq> pc s t \<Longrightarrow> t \<notin> Z \<Longrightarrow>
    wakeup_step C multi \<lparr>threads_of = s, asleep = Z\<rparr>
      \<lparr>threads_of = s', asleep = notify_all (notifies C (room s') (pc s t)) s' Z\<rparr>"
| fall_asleep: "t \<notin> Z \<Longrightarrow> waits_on (pc s t) \<noteq> None \<Longrightarrow> state_free s \<Longrightarrow>
    \<not> wait_predicate C (room s) (pc s t) \<Longrightarrow>
    wakeup_step C multi \<lparr>threads_of = s, asleep = Z\<rparr> \<lparr>threads_of = s, asleep = insert t Z\<rparr>"

inductive wakeup_reachable :: "nat \<Rightarrow> bool \<Rightarrow> 'a wakeups \<Rightarrow> bool" for C multi where
  awake_start: "wakeup_reachable C multi \<lparr>threads_of = room_start, asleep = {}\<rparr>"
| awake_next: "wakeup_reachable C multi w \<Longrightarrow> wakeup_step C multi w w' \<Longrightarrow> wakeup_reachable C multi w'"

inductive_cases wakeup_stepE: "wakeup_step C multi w w'"

lemma notify_all_subset: "notify_all cv s Z \<subseteq> Z"
  by (auto simp: notify_all_def split: option.splits)

lemma notify_all_None [simp]: "notify_all None s Z = Z"
  by (simp add: notify_all_def)

lemma notify_all_empty [simp]: "notify_all cv s {} = {}"
  using notify_all_subset by blast

section \<open>The same rooms are reached\<close>

lemma step_moves: "room_step C multi s s' \<Longrightarrow> \<exists>t. pc s' t \<noteq> pc s t"
  by (erule room_step.cases) (auto intro: exI)

lemma step_goto:
  assumes "room_step C multi s s'" "pc s' t \<noteq> pc s t"
  shows "\<exists>p r. s' = goto t p r s"
  using assms by (cases rule: room_step.cases) (auto split: if_splits)

lemma wakeup_room: "wakeup_reachable C multi w \<Longrightarrow> room_reachable C multi (threads_of w)"
proof (induction rule: wakeup_reachable.induct)
  case awake_start
  show ?case by (simp add: room_reachable.reach_start)
next
  case (awake_next w w')
  from awake_next.hyps(2) awake_next.IH show ?case
    by cases (auto intro: room_reachable.reach_step)
qed

lemma room_wakeup: "room_reachable C multi s \<Longrightarrow> wakeup_reachable C multi \<lparr>threads_of = s, asleep = {}\<rparr>"
proof (induction rule: room_reachable.induct)
  case reach_start
  show ?case by (rule wakeup_reachable.awake_start)
next
  case (reach_step s s')
  obtain t where "pc s' t \<noteq> pc s t" using step_moves [OF reach_step.hyps(2)] by blast
  from awake_step [OF reach_step.hyps(2) this, of "{}"] reach_step.IH show ?case
    by (auto intro: wakeup_reachable.awake_next)
qed

text \<open>With or without the sleeping threads, the same rooms and program counters are reached.\<close>

lemma same_rooms_reached:
  "room_reachable C multi s \<longleftrightarrow> (\<exists>Z. wakeup_reachable C multi \<lparr>threads_of = s, asleep = Z\<rparr>)"
  using wakeup_room [where w = "\<lparr>threads_of = s, asleep = Z\<rparr>" for Z] room_wakeup by fastforce

section \<open>No wake-up is lost with one discard at a time\<close>

text \<open>
  A thread that sleeps has a false predicate, unless it waits for a full room and the thread that
  filled it is about to notify.
\<close>

definition sleep_inv :: "nat \<Rightarrow> 'a threads \<Rightarrow> nat set \<Rightarrow> bool" where
  "sleep_inv C s Z \<longleftrightarrow> (\<forall>u \<in> Z. waits_on (pc s u) \<noteq> None
     \<and> (wait_predicate C (room s) (pc s u) \<longrightarrow> pc s u = Filled_Wait \<and> (\<exists>v. pc s v = Feed_Check)))"

lemma sleep_invD:
  assumes "sleep_inv C s Z" "u \<in> Z"
  shows "waits_on (pc s u) \<noteq> None"
    "wait_predicate C (room s) (pc s u) \<Longrightarrow> pc s u = Filled_Wait"
    "wait_predicate C (room s) (pc s u) \<Longrightarrow> \<exists>v. pc s v = Feed_Check"
  using assms unfolding sleep_inv_def by blast+

lemma sleep_inv_free:
  assumes "sleep_inv C s Z" "u \<in> Z" "state_free s"
  shows "\<not> wait_predicate C (room s) (pc s u)"
  using sleep_invD [OF assms(1,2)] assms(3) unfolding state_free_def by (metis holds_state.simps(3))

lemma sleep_inv_step:
  assumes step: "room_step C False s s'" "pc s' t \<noteq> pc s t" "t \<notin> Z"
    and inv: "discard_inv C s" "sleep_inv C s Z"
  shows "sleep_inv C s' (notify_all (notifies C (room s') (pc s t)) s' Z)"
  unfolding sleep_inv_def
proof (rule ballI)
  fix u assume u: "u \<in> notify_all (notifies C (room s') (pc s t)) s' Z"
  then have "u \<in> Z" using notify_all_subset by blast
  note I = sleep_invD [OF inv(2) this] and D = discard_invD [OF inv(1)]
  have ut: "u \<noteq> t" using \<open>u \<in> Z\<close> step(3) by blast
  obtain p r where g: "s' = goto t p r s" using step_goto [OF step(1,2)] by blast
  have same: "pc s' u = pc s u" using ut by (simp add: g)
  have told: "notifies C (room s') (pc s t) \<noteq> waits_on (pc s u)"
    using u same I(1) by (auto simp: notify_all_def split: option.splits)
  have flag: "pc s u = Discard_Wait \<Longrightarrow> is_discarding (room s)" using D(2) by (metis is_discarder.simps(1))
  have locked: "pc s v = Feed_Check \<Longrightarrow> \<not> state_free s \<and> \<not> is_discarding (room s)" for v
    using D(3) unfolding state_free_def by (metis holds_state.simps(3))
  have pred: "wait_predicate C (room s') (pc s u) \<longrightarrow> pc s u = Filled_Wait \<and> (\<exists>v. pc s' v = Feed_Check)"
    using step(1)
  proof cases
    case (feed_done t')
    with step(2) have "t' = t" by (auto split: if_splits)
    with feed_done told I locked show ?thesis by (cases "pc s u") (auto simp: consumer_may_run_def)
  next
    case (feed_push t' x)
    with step(2) have "t' = t" by (auto split: if_splits)
    moreover have "\<not> is_discarding (room s)" using D(3) feed_push(2) by (metis holds_state.simps(2))
    ultimately show ?thesis using feed_push I flag by (cases "pc s u") (auto simp: producer_may_run_def)
  next
    case (discard_begin t')
    with step(2) have "t' = t" by (auto split: if_splits)
    with discard_begin told I show ?thesis by (cases "pc s u") (auto simp: producer_may_run_def)
  next
    case (discard_clear t')
    then have "is_discarding (room s)" using D(2) by (metis is_discarder.simps(3))
    with discard_clear I ut locked show ?thesis
      by (cases "pc s u") (auto simp: producer_may_run_def consumer_may_run_def)
  next
    case (discard_reset t')
    with step(2) have "t' = t" by (auto split: if_splits)
    moreover have "is_discarding (room s)" using D(2) discard_reset(2) by (metis is_discarder.simps(4))
    ultimately show ?thesis using discard_reset told I locked
      by (cases "pc s u") (auto simp: consumer_may_run_def)
  next
    case (deregister t' w)
    with step(2) have "t' = t" by (auto split: if_splits)
    with deregister told I flag locked show ?thesis
      by (cases "pc s u") (auto simp: producer_may_run_def consumer_may_run_def)
  qed (use I step(2) in \<open>cases "pc s u"; force simp: producer_may_run_def consumer_may_run_def\<close>)+
  show "waits_on (pc s' u) \<noteq> None \<and>
      (wait_predicate C (room s') (pc s' u) \<longrightarrow> pc s' u = Filled_Wait \<and> (\<exists>v. pc s' v = Feed_Check))"
    using pred I(1) same by simp
qed

lemma sleep_inv_reachable:
  "wakeup_reachable C False w \<Longrightarrow> sleep_inv C (threads_of w) (asleep w)"
proof (induction rule: wakeup_reachable.induct)
  case awake_start
  show ?case by (simp add: sleep_inv_def)
next
  case (awake_next w w')
  have inv: "discard_inv C (threads_of w)"
    by (rule discard_inv_reachable [OF wakeup_room [OF awake_next.hyps(1)]])
  from awake_next.hyps(2) show ?case
  proof cases
    case (awake_step s s' t Z)
    then show ?thesis using sleep_inv_step inv awake_next.IH by fastforce
  next
    case (fall_asleep t Z s)
    then show ?thesis using awake_next.IH by (simp add: sleep_inv_def)
  qed
qed

section \<open>Progress\<close>

text \<open>Some thread that is awake and in the middle of an operation has a step.\<close>

definition can_move :: "nat \<Rightarrow> bool \<Rightarrow> 'a wakeups \<Rightarrow> bool" where
  "can_move C multi w \<longleftrightarrow> (\<exists>u w'. u \<notin> asleep w \<and> pc (threads_of w) u \<noteq> Idle \<and> wakeup_step C multi w w'
     \<and> pc (threads_of w') u \<noteq> pc (threads_of w) u)"

lemma can_moveI:
  assumes "room_step C multi s (goto u p r s)" "pc s u \<noteq> Idle" "pc s u \<noteq> p" "u \<notin> Z"
  shows "can_move C multi \<lparr>threads_of = s, asleep = Z\<rparr>"
proof -
  have "pc (goto u p r s) u \<noteq> pc s u" using assms(3) by simp
  from awake_step [OF assms(1) this assms(4)] show ?thesis
    unfolding can_move_def using assms(2-4)
    by (intro exI [where x = u] exI conjI) (assumption | simp)+
qed

lemma not_waiting_awake: "sleep_inv C s Z \<Longrightarrow> waits_on (pc s u) = None \<Longrightarrow> u \<notin> Z"
  unfolding sleep_inv_def by blast

lemma data_user_moves:
  assumes "writes_data (pc s u) \<or> reads_data (pc s u)" "sleep_inv C s Z"
  shows "can_move C multi \<lparr>threads_of = s, asleep = Z\<rparr>"
  using assms(1) not_waiting_awake [OF assms(2), of u]
  by (cases "pc s u") (auto intro: can_moveI room_step.feed_push room_step.discard_clear room_step.read_end)

lemma state_holder_moves:
  assumes "holds_state (pc s u)" "sleep_inv C s Z"
  shows "can_move C multi \<lparr>threads_of = s, asleep = Z\<rparr>"
proof (cases "data_free s")
  case True
  with assms(1) not_waiting_awake [OF assms(2), of u] show ?thesis
    by (cases "pc s u") (auto intro: can_moveI room_step.feed_data room_step.feed_push room_step.feed_done)
next
  case False
  then show ?thesis using data_user_moves [OF _ assms(2)] unfolding data_free_def by blast
qed

lemma reader_moves:
  assumes "is_reader (pc s u)" "state_free s" "sleep_inv C s Z"
  shows "can_move C multi \<lparr>threads_of = s, asleep = Z\<rparr>"
proof (cases "no_writer s")
  case True
  with assms(1,2) not_waiting_awake [OF assms(3), of u] show ?thesis
    by (cases "pc s u")
      (auto intro: can_moveI room_step.read_begin room_step.read_end room_step.deregister)
next
  case False
  then show ?thesis using data_user_moves [OF _ assms(3)] unfolding no_writer_def by blast
qed

lemma discarder_moves:
  assumes inv: "locks_inv C s" "sleep_inv C s Z" and u: "is_discarder (pc s u)" and free: "state_free s"
  shows "can_move C multi \<lparr>threads_of = s, asleep = Z\<rparr>"
proof (cases "data_free s \<and> (\<forall>t. \<not> is_reader (pc s t))")
  case True
  then have quiet: "active_readers (room s) = 0" using no_reader_iff [OF inv(1)] by blast
  then have "u \<notin> Z" using sleep_inv_free [OF inv(2) _ free, of u] u by (cases "pc s u") auto
  with True quiet u free show ?thesis
    by (cases "pc s u")
      (auto intro: can_moveI room_step.discard_waited room_step.discard_data
         room_step.discard_clear room_step.discard_reset)
next
  case False
  then show ?thesis
    using data_user_moves [OF _ inv(2)] reader_moves [OF _ free inv(2)] unfolding data_free_def by blast
qed

text \<open>
  A thread may rest between its operations, while it waits for space to feed into, and while it
  waits for the room to fill.
\<close>

definition waits_outside :: "nat \<Rightarrow> 'a buffer_room \<Rightarrow> 'a pc \<Rightarrow> bool" where
  "waits_outside C r p \<longleftrightarrow>
     (case p of Idle \<Rightarrow> True
      | Feed_Wait _ \<Rightarrow> \<not> producer_may_run C r
      | Filled_Wait \<Rightarrow> \<not> consumer_may_run C r
      | _ \<Rightarrow> False)"

lemma some_thread_moves:
  assumes inv: "locks_inv C s" "sleep_inv C s Z" and t: "\<not> waits_outside C (room s) (pc s t)"
  shows "can_move C multi \<lparr>threads_of = s, asleep = Z\<rparr>"
proof (cases "state_free s \<and> (\<forall>u. \<not> is_discarder (pc s u)) \<and> \<not> is_reader (pc s t)")
  case True
  then have free: "state_free s" and alone: "\<forall>u. \<not> is_discarder (pc s u)" by blast+
  have "\<not> holds_state (pc s t)" "\<not> is_discarder (pc s t)" "\<not> is_reader (pc s t)"
    using True by (simp_all add: state_free_def)
  with t consider x where "pc s t = Feed_Wait x" "producer_may_run C (room s)"
    | "pc s t = Filled_Wait" "consumer_may_run C (room s)" "is_discarding (room s)"
    | "pc s t = Filled_Wait" "consumer_may_run C (room s)" "\<not> is_discarding (room s)"
    | "pc s t = Search_Start" "is_discarding (room s)" | "pc s t = Search_Start" "\<not> is_discarding (room s)"
    | "pc s t = Discard_Start"
    by (cases "pc s t") (auto simp: waits_outside_def)
  moreover from this have "t \<notin> Z"
    using sleep_inv_free [OF inv(2) _ free, of t] not_waiting_awake [OF inv(2), of t] by cases auto
  ultimately show ?thesis
  proof cases
    case (1 x)
    from \<open>t \<notin> Z\<close> show ?thesis by (intro can_moveI [OF room_step.feed_enter [OF 1(1) free 1(2)]]) (simp_all add: 1)
  next
    case 2
    from \<open>t \<notin> Z\<close> show ?thesis by (intro can_moveI [OF room_step.filled_abort [OF 2(1) free 2(3)]]) (simp_all add: 2)
  next
    case 3
    from \<open>t \<notin> Z\<close> show ?thesis by (intro can_moveI [OF room_step.filled_enter [OF 3(1) free 3(2,3)]]) (simp_all add: 3)
  next
    case 4
    from \<open>t \<notin> Z\<close> show ?thesis by (intro can_moveI [OF room_step.search_abort [OF 4(1) free 4(2)]]) (simp_all add: 4)
  next
    case 5
    from \<open>t \<notin> Z\<close> show ?thesis by (intro can_moveI [OF room_step.search_enter [OF 5(1) free 5(2)]]) (simp_all add: 5)
  next
    case 6
    from \<open>t \<notin> Z\<close> show ?thesis
      by (intro can_moveI [OF room_step.discard_begin [OF 6 free]]) (use alone in \<open>simp_all add: 6\<close>)
  qed
next
  case False
  then show ?thesis
    using state_holder_moves [OF _ inv(2)] discarder_moves [OF inv] reader_moves [OF _ _ inv(2)]
    unfolding state_free_def by blast
qed

section \<open>A wake-up is lost with two discards\<close>

text \<open>An empty room with three threads, of which the first two discard and the third searches.\<close>

definition trio :: "'a pc \<Rightarrow> 'a pc \<Rightarrow> 'a pc \<Rightarrow> nat \<Rightarrow> bool \<Rightarrow> 'a threads" where
  "trio a b c n f = \<lparr>room = \<lparr>items = [], active_readers = n, is_discarding = f\<rparr>,
     pc = (\<lambda>_. Idle)(0 := a, 1 := b, 2 := c)\<rparr>"

lemma trio_start: "room_start = trio Idle Idle Idle 0 False"
  by (simp add: trio_def room_start_def empty_room_def fun_eq_iff)

lemma trio_simps [simp]:
  "pc (trio a b c n f) 0 = a" "pc (trio a b c n f) 1 = b" "pc (trio a b c n f) 2 = c"
  "pc (trio a b c n f) (Suc 0) = b"
  "items (room (trio a b c n f)) = []" "active_readers (room (trio a b c n f)) = n"
  "is_discarding (room (trio a b c n f)) = f"
  by (simp_all add: trio_def)

lemma all_trio: "(\<forall>u. P (pc (trio a b c n f) u)) \<longleftrightarrow> P a \<and> P b \<and> P c \<and> P Idle"
proof -
  have "pc (trio a b c n f) u = (if u = 0 then a else if u = 1 then b else if u = 2 then c else Idle)" for u
    by (simp add: trio_def)
  note at = this [of 0] this [of 1] this [of 2] this [of 3] this
  show ?thesis
  proof
    assume *: "\<forall>u. P (pc (trio a b c n f) u)"
    show "P a \<and> P b \<and> P c \<and> P Idle"
      using * [rule_format, of 0] * [rule_format, of 1] * [rule_format, of 2] * [rule_format, of 3]
      by (simp add: at)
  next
    assume "P a \<and> P b \<and> P c \<and> P Idle"
    then show "\<forall>u. P (pc (trio a b c n f) u)" by (simp add: at(5))
  qed
qed

lemma trio_locks [simp]:
  "state_free (trio a b c n f) \<longleftrightarrow> \<not> holds_state a \<and> \<not> holds_state b \<and> \<not> holds_state c"
  "no_writer (trio a b c n f) \<longleftrightarrow> \<not> writes_data a \<and> \<not> writes_data b \<and> \<not> writes_data c"
  "data_free (trio a b c n f) \<longleftrightarrow> (\<not> writes_data a \<and> \<not> reads_data a) \<and> (\<not> writes_data b \<and> \<not> reads_data b)
     \<and> (\<not> writes_data c \<and> \<not> reads_data c)"
  unfolding state_free_def no_writer_def data_free_def by (subst all_trio, simp)+

lemma goto_trio [simp]:
  "items r = [] \<Longrightarrow> goto 0 p r (trio a b c n f) = trio p b c (active_readers r) (is_discarding r)"
  "items r = [] \<Longrightarrow> goto (Suc 0) p r (trio a b c n f) = trio a p c (active_readers r) (is_discarding r)"
  "items r = [] \<Longrightarrow> goto 2 p r (trio a b c n f) = trio a b p (active_readers r) (is_discarding r)"
  by (simp_all add: goto_def trio_def fun_eq_iff)

lemma notify_all_insert [simp]:
  "notify_all cv s (insert u Z) =
     (if cv \<noteq> None \<and> waits_on (pc s u) = cv then notify_all cv s Z else insert u (notify_all cv s Z))"
  by (auto simp: notify_all_def split: option.splits)

lemma awake_run:
  assumes "wakeup_reachable C multi \<lparr>threads_of = s, asleep = Z\<rparr>" "room_step C multi s (goto t p r s)"
    and "pc s t \<noteq> p" "t \<notin> Z"
  shows "wakeup_reachable C multi
    \<lparr>threads_of = goto t p r s, asleep = notify_all (notifies C r (pc s t)) (goto t p r s) Z\<rparr>"
  using awake_next [OF assms(1) awake_step [OF assms(2) _ assms(4)]] assms(3) by simp

lemma asleep_run:
  assumes "wakeup_reachable C multi \<lparr>threads_of = s, asleep = Z\<rparr>" "t \<notin> Z" "waits_on (pc s t) \<noteq> None"
    and "state_free s" "\<not> wait_predicate C (room s) (pc s t)"
  shows "wakeup_reachable C multi \<lparr>threads_of = s, asleep = insert t Z\<rparr>"
  by (rule awake_next [OF assms(1) fall_asleep [OF assms(2-5)]])

text \<open>A search of the third thread, to its lambda and from there to its end.\<close>

lemma trio_search:
  assumes "wakeup_reachable C multi \<lparr>threads_of = trio a b Idle n False, asleep = Z\<rparr>" "2 \<notin> Z"
    and "\<not> holds_state a" "\<not> holds_state b" "\<not> writes_data a" "\<not> writes_data b"
  shows "wakeup_reachable C multi \<lparr>threads_of = trio a b (Reading False) (n + 1) False, asleep = Z\<rparr>"
proof -
  from awake_run [OF assms(1) room_step.call_search [where t = 2]] assms
  have "wakeup_reachable C multi \<lparr>threads_of = trio a b Search_Start n False, asleep = Z\<rparr>"
    by simp
  from awake_run [OF this room_step.search_enter [where t = 2]] assms
  have "wakeup_reachable C multi \<lparr>threads_of = trio a b (Registered False) (n + 1) False, asleep = Z\<rparr>"
    by simp
  from awake_run [OF this room_step.read_begin [where t = 2]] assms
  show ?thesis by simp
qed

lemma trio_leave:
  assumes "wakeup_reachable C multi \<lparr>threads_of = trio a b (Reading False) n f, asleep = Z\<rparr>" "2 \<notin> Z"
    and "\<not> holds_state a" "\<not> holds_state b"
  shows "wakeup_reachable C multi \<lparr>threads_of = trio a b Idle (n - 1) f,
    asleep = notify_all (if n - 1 = 0 \<and> f then Some Cv_Discard else None) (trio a b Idle (n - 1) f) Z\<rparr>"
proof -
  from awake_run [OF assms(1) room_step.read_end [where t = 2]] assms
  have "wakeup_reachable C multi \<lparr>threads_of = trio a b (Deregister False) n f, asleep = Z\<rparr>"
    by simp
  from awake_run [OF this room_step.deregister [where t = 2]] assms show ?thesis by simp
qed

lemma lost_wakeup_reachable:
  "wakeup_reachable C True \<lparr>threads_of = trio Idle Discard_Wait Idle 0 False, asleep = {1}\<rparr>"
proof -
  let ?R = "\<lambda>a b c n f Z. wakeup_reachable C True \<lparr>threads_of = trio a b c n f, asleep = Z\<rparr>"
  have "?R Idle Idle Idle 0 False {}" using awake_start [of C True] by (simp add: trio_start)
  from trio_search [OF this] have reading: "?R Idle Idle (Reading False) 1 False {}" by simp
  from awake_run [OF this room_step.call_discard [where t = 0]]
  have "?R Discard_Start Idle (Reading False) 1 False {}" by simp
  from awake_run [OF this room_step.discard_begin [where t = 0]]
  have "?R Discard_Wait Idle (Reading False) 1 True {}" by simp
  from asleep_run [OF this, of 0] have "?R Discard_Wait Idle (Reading False) 1 True {0}" by simp
  from awake_run [OF this room_step.call_discard [where t = 1]]
  have "?R Discard_Wait Discard_Start (Reading False) 1 True {0}" by simp
  from awake_run [OF this room_step.discard_begin [where t = 1]]
  have "?R Discard_Wait Discard_Wait (Reading False) 1 True {0}" by simp
  from asleep_run [OF this, of 1]
  have "?R Discard_Wait Discard_Wait (Reading False) 1 True {1, 0}" by simp
  from trio_leave [OF this] have "?R Discard_Wait Discard_Wait Idle 0 True {}" by simp
  from awake_run [OF this room_step.discard_waited [where t = 0]]
  have "?R Discard_Unlocked Discard_Wait Idle 0 True {}" by simp
  from awake_run [OF this room_step.discard_data [where t = 0]]
  have "?R Discard_Clearing Discard_Wait Idle 0 True {}" by simp
  from awake_run [OF this room_step.discard_clear [where t = 0]]
  have "?R Discard_Reset Discard_Wait Idle 0 True {}" by simp
  from awake_run [OF this room_step.discard_reset [where t = 0]]
  have "?R Idle Discard_Wait Idle 0 False {}" by simp
  from trio_search [OF this] have "?R Idle Discard_Wait (Reading False) 1 False {}" by simp
  from asleep_run [OF this, of 1] have "?R Idle Discard_Wait (Reading False) 1 False {1}" by simp
  from trio_leave [OF this] show ?thesis by simp
qed

text \<open>As long as nobody begins another discard, no step wakes the sleeper.\<close>

definition left_behind :: "nat \<Rightarrow> 'a wakeups \<Rightarrow> bool" where
  "left_behind t w \<longleftrightarrow> t \<in> asleep w \<and> pc (threads_of w) t = Discard_Wait \<and> \<not> is_discarding (room (threads_of w))
     \<and> (\<forall>u. u \<noteq> t \<longrightarrow> \<not> is_discarder (pc (threads_of w) u))"

lemma flag_stays_down:
  assumes step: "room_step C False s s'" "pc s' u \<noteq> pc s u" "u \<noteq> t"
    and down: "pc s t = Discard_Wait" "\<not> is_discarding (room s)" "\<forall>v. v \<noteq> t \<longrightarrow> \<not> is_discarder (pc s v)"
  shows "\<not> is_discarding (room s') \<and> \<not> is_discarder (pc s' u) \<and> notifies C (room s') (pc s u) \<noteq> Some Cv_Discard"
proof -
  have u: "\<not> is_discarder (pc s u)" using down(3) step(3) by blast
  from step(1) show ?thesis
  proof cases
    case (discard_begin v)
    then show ?thesis using down(1) by (metis is_discarder.simps(1))
  qed (use u step(2) down(2) in \<open>simp_all split: if_splits\<close>)
qed

lemma left_behind_step:
  assumes "wakeup_step C False w w'" "left_behind t w"
  shows "left_behind t w'"
  using assms(1)
proof cases
  case (awake_step s s' u Z)
  then have L: "t \<in> Z" "pc s t = Discard_Wait" "\<not> is_discarding (room s)"
      "\<forall>v. v \<noteq> t \<longrightarrow> \<not> is_discarder (pc s v)"
    and ut: "u \<noteq> t" using assms(2) by (auto simp: left_behind_def)
  obtain p r where g: "s' = goto u p r s" using step_goto [OF awake_step(3,4)] by blast
  note d = flag_stays_down [OF awake_step(3,4) ut L(2-4)]
  then have "t \<in> notify_all (notifies C (room s') (pc s u)) s' Z"
    using L(1,2) ut by (auto simp: notify_all_def g split: option.splits)
  then show ?thesis using d L ut awake_step(2) by (auto simp: left_behind_def g)
next
  case (fall_asleep u Z s)
  then show ?thesis using assms(2) by (simp add: left_behind_def)
qed

lemma left_behind_steps: "(wakeup_step C False)\<^sup>*\<^sup>* w w' \<Longrightarrow> left_behind t w \<Longrightarrow> left_behind t w'"
  by (induction rule: rtranclp_induct) (auto intro: left_behind_step)

section \<open>Properties\<close>

text \<open>C31: The room comes to a halt only after overlapping discards.  While at most one \<open>Discard\<close> runs
  at a time, no wake-up is lost: whenever some thread is in the middle of an operation and not
  rightly waiting for space or for a full room, some thread that is awake and in the middle of an
  operation has a step.  With two discards that fails: there is a run after which one \<open>Discard\<close>
  sleeps although no reader is left and every other thread is done, because the last reader left
  after the other \<open>Discard\<close> had reset the flag and so did not notify; and it sleeps on, whatever
  the threads do, as long as nobody begins another \<open>Discard\<close>.\<close>

theorem room_halts_only_after_overlapping_discards:
  assumes "wakeup_reachable C False w" "\<not> waits_outside C (room (threads_of w)) (pc (threads_of w) t)"
  shows "(\<exists>u w'. u \<notin> asleep w \<and> pc (threads_of w) u \<noteq> Idle \<and> wakeup_step C False w w'
        \<and> pc (threads_of w') u \<noteq> pc (threads_of w) u)
    \<and> (\<exists>(v :: 'a wakeups) b. wakeup_reachable C True v \<and> pc (threads_of v) b = Discard_Wait
        \<and> active_readers (room (threads_of v)) = 0 \<and> (\<forall>u. u \<noteq> b \<longrightarrow> pc (threads_of v) u = Idle)
        \<and> (\<forall>v'. (wakeup_step C False)\<^sup>*\<^sup>* v v' \<longrightarrow> b \<in> asleep v' \<and> pc (threads_of v') b = Discard_Wait))"
proof
  note R = wakeup_room [OF assms(1)]
  have "can_move C False w"
    using some_thread_moves [OF locks_inv_reachable [OF R] sleep_inv_reachable [OF assms(1)] assms(2)]
    by (cases w) simp
  then show "\<exists>u w'. u \<notin> asleep w \<and> pc (threads_of w) u \<noteq> Idle \<and> wakeup_step C False w w'
      \<and> pc (threads_of w') u \<noteq> pc (threads_of w) u"
    by (simp add: can_move_def)
next
  let ?v = "\<lparr>threads_of = trio Idle Discard_Wait Idle 0 False, asleep = {1}\<rparr> :: 'a wakeups"
  have "left_behind 1 ?v" by (simp add: left_behind_def) (simp add: trio_def)
  then have "1 \<in> asleep v' \<and> pc (threads_of v') 1 = Discard_Wait" if "(wakeup_step C False)\<^sup>*\<^sup>* ?v v'" for v'
    using left_behind_steps [OF that] by (simp add: left_behind_def)
  moreover have "pc (threads_of ?v) u = Idle" if "u \<noteq> 1" for u using that by (simp add: trio_def)
  ultimately show "\<exists>(v :: 'a wakeups) b. wakeup_reachable C True v \<and> pc (threads_of v) b = Discard_Wait
      \<and> active_readers (room (threads_of v)) = 0 \<and> (\<forall>u. u \<noteq> b \<longrightarrow> pc (threads_of v) u = Idle)
      \<and> (\<forall>v'. (wakeup_step C False)\<^sup>*\<^sup>* v v' \<longrightarrow> b \<in> asleep v' \<and> pc (threads_of v') b = Discard_Wait)"
    by (intro exI [where x = ?v] exI [where x = 1] conjI) (simp_all add: lost_wakeup_reachable [simplified])
qed

theorem room_halts_only_after_overlapping_discards_witness:
  "\<exists>w :: int wakeups. wakeup_reachable 1 False w \<and> pc (threads_of w) 2 = Search_Start
     \<and> (\<exists>u w'. u \<notin> asleep w \<and> pc (threads_of w) u \<noteq> Idle \<and> wakeup_step 1 False w w'
          \<and> pc (threads_of w') u \<noteq> pc (threads_of w) u)"
proof -
  have start: "wakeup_reachable 1 False \<lparr>threads_of = trio Idle Idle Idle 0 False :: int threads, asleep = {}\<rparr>"
    using awake_start [of 1 False] by (simp add: trio_start)
  let ?w = "\<lparr>threads_of = trio Idle Idle Search_Start 0 False :: int threads, asleep = {}\<rparr>"
  from awake_run [OF start room_step.call_search [where t = 2]] have w: "wakeup_reachable 1 False ?w" by simp
  have "\<not> waits_outside 1 (room (threads_of ?w)) (pc (threads_of ?w) 2)" by (simp add: waits_outside_def)
  from conjunct1 [OF room_halts_only_after_overlapping_discards [OF w this]] w show ?thesis
    by (intro exI [where x = ?w]) simp
qed

end
