(* ===== verification/Shallow_Tree.thy ===== *)
theory Shallow_Tree
  imports Pi_Types Tier_Constants "HOL-Library.Multiset"
begin

text \<open>
  \<^verbatim>\<open>include/wedding_cake/shallow_tree.hpp\<close>: the in-memory trie over a set of hashes whose
  nodes each name the byte of the hash that they branch on, chosen so that the hashes
  spread as much as possible.  \<open>N\<close> is the template parameter \<open>HashBytesCount\<close>, \<open>r\<close> the
  member \<open>reassurance_bytes_count_\<close>.  The tree is built in place: the constructor permutes
  the span it is given, so it returns the span beside the tree.  The recursion of the
  construction has fuel; \<open>N + 1\<close> is enough (every level consumes a byte of the hash).

  The lemmas show that the partition is the stable sort by the chosen byte, that the
  construction either reports a duplicate or yields a tree over exactly the given hashes
  (\<open>tree_over\<close>), and what a lookup answers in such a tree.
\<close>

section \<open>Nodes\<close>

record leaf_node =
  reassurance_hash_bytes :: bytes
  leaf_presentation_index :: local_pi

text \<open>
  A node holds a level and either a leaf or a byte index with its 256 slots (a slot that is
  empty is \<open>None\<close>).
\<close>

datatype shallow_node =
    Leaf_Node nat leaf_node
  | Slots_Node nat nat "shallow_node option list"

fun node_is_leaf :: "shallow_node \<Rightarrow> bool" where
  "node_is_leaf (Leaf_Node d lf) = True"
| "node_is_leaf (Slots_Node d b slots) = False"

fun level_byte_depth :: "shallow_node \<Rightarrow> nat" where
  "level_byte_depth (Leaf_Node d lf) = d"
| "level_byte_depth (Slots_Node d b slots) = d"

record shallow_tree =
  sh_ls_tail_bits_count :: u64
  sh_reassurance_bytes_count :: nat
  sh_hash_count :: nat
  root_slot :: "shallow_node option"

definition hash_byte :: "hash_local_presentation \<Rightarrow> nat \<Rightarrow> nat" where
  "hash_byte item b = unat (hlp_hash item ! b)"

section \<open>Partition by a byte\<close>

text \<open>The two loops of \<open>counts[item.hash.bytes[byte_index]]++\<close>, and the prefix sums.\<close>

definition byte_counts :: "hash_local_presentation list \<Rightarrow> nat \<Rightarrow> nat list" where
  "byte_counts input b =
     fold (\<lambda>item counts. counts[hash_byte item b := counts ! hash_byte item b + 1])
       input (replicate 256 0)"

definition bucket_offsets :: "nat list \<Rightarrow> nat list" where
  "bucket_offsets counts =
     fold (\<lambda>i offsets. offsets[i := offsets ! (i - 1) + counts ! (i - 1)])
       [1..<256] (replicate 256 0)"

definition scatter_step ::
  "nat \<Rightarrow> nat list \<times> hash_local_presentation list \<Rightarrow> hash_local_presentation
    \<Rightarrow> (nat list \<times> hash_local_presentation list) res" where
  "scatter_step b s item =
     (let (running, scratch) = s; v = hash_byte item b; at = running ! v in
      if at < length scratch then Inr (running[v := at + 1], scratch[at := item])
      else Inl Undefined)"

text \<open>
  The counts, the partitioned span and the scratch buffer.  \<open>copy_n\<close> reads
  \<open>input.size()\<close> elements of the scratch buffer.
\<close>

definition bucket_partition_by_byte ::
  "hash_local_presentation list \<Rightarrow> nat \<Rightarrow> hash_local_presentation list
    \<Rightarrow> (nat list \<times> hash_local_presentation list \<times> hash_local_presentation list) res" where
  "bucket_partition_by_byte input b scratch =
     (let counts = byte_counts input b in
      rbind (rfold (scatter_step b) (bucket_offsets counts, scratch) input) (\<lambda>(running, scratch').
      rbind (subspan scratch' 0 (length input)) (\<lambda>input'.
      Inr (counts, input', scratch'))))"

text \<open>
  The other strategy, which nothing uses: \<open>std::ranges::sort\<close> with a projection (an argument, as the
  standard leaves the order of equal elements open), then the counts.  It reads \<open>hp.hash_bytes\<close>,
  a member that the presentations do not have, so this is an argument too.
\<close>

definition sort_partition_by_byte ::
  "((hash_local_presentation \<Rightarrow> nat) \<Rightarrow> hash_local_presentation list \<Rightarrow> hash_local_presentation list)
    \<Rightarrow> (hash_local_presentation \<Rightarrow> nat \<Rightarrow> nat) \<Rightarrow> hash_local_presentation list \<Rightarrow> nat
    \<Rightarrow> nat list \<times> hash_local_presentation list" where
  "sort_partition_by_byte ranges_sort hash_bytes input b =
     (let input' = ranges_sort (\<lambda>hp. hash_bytes hp b) input;
          counts = fold (\<lambda>item counts. counts[hash_bytes item b := counts ! hash_bytes item b + 1])
            input' (replicate 256 0)
      in (counts, input'))"

section \<open>Choice of the byte\<close>

text \<open>
  The conversion of a \<open>uint64_t\<close> to \<open>double\<close>: 53 significant bits, to nearest, ties to even.
  Its value is an integer, so the metric is an integer here.
\<close>

definition double_of_u64 :: "u64 \<Rightarrow> int" where
  "double_of_u64 w =
     (let n = unat w; s = bit_width n - 53; q = n div 2 ^ s; rem = n mod 2 ^ s in
      if s = 0 then int n
      else if 2 * rem > 2 ^ s \<or> 2 * rem = 2 ^ s \<and> odd q then int ((q + 1) * 2 ^ s)
      else int (q * 2 ^ s))"

definition calculate_byte_entropy :: "hash_local_presentation list \<Rightarrow> nat \<Rightarrow> int" where
  "calculate_byte_entropy input b =
     - double_of_u64 (fold (\<lambda>count sum_sq. sum_sq + of_nat count * of_nat count)
                       (byte_counts input b) 0)"

text \<open>
  The loop over the unused bytes.  The initial maximum, the lowest \<open>double\<close>, is below every
  metric: it is \<open>None\<close>.
\<close>

definition best_byte_step ::
  "hash_local_presentation list \<Rightarrow> u64 \<Rightarrow> nat \<Rightarrow> int option \<times> nat \<Rightarrow> int option \<times> nat" where
  "best_byte_step input unused_mask b s =
     (let (max_entropy, best) = s in
      if unused_mask AND push_bit b 1 \<noteq> 0 then
        let entropy = calculate_byte_entropy input b in
        if (case max_entropy of None \<Rightarrow> True | Some m \<Rightarrow> m < entropy)
        then (Some entropy, b) else (max_entropy, best)
      else (max_entropy, best))"

definition best_byte_index :: "nat \<Rightarrow> hash_local_presentation list \<Rightarrow> u64 \<Rightarrow> nat" where
  "best_byte_index N input unused_mask =
     snd (fold (best_byte_step input unused_mask) [0..<N] (None, 0))"

section \<open>Construction\<close>

text \<open>\<open>(ls_tail_bits_count + 7) / 8\<close> in \<open>size_t\<close>, and the mask of the bytes above the tail.\<close>

definition handled_bytes :: "u64 \<Rightarrow> nat" where
  "handled_bytes ls_tail_bits_count = unat ((ls_tail_bits_count + 7) div 8)"

definition clear_byte :: "nat \<Rightarrow> u64 \<Rightarrow> u64" where
  "clear_byte b w = w AND NOT (push_bit b 1)"

definition initial_unused_mask :: "nat \<Rightarrow> nat \<Rightarrow> u64" where
  "initial_unused_mask N handled = fold clear_byte [0..<handled] (low_mask N)"

text \<open>
  The reassurance bytes: the loop that copies unused bytes until \<open>r\<close> of them are written
  (the first write is made before the count is checked), then the loop that zeroes the rest.
\<close>

fun copy_reassurance ::
  "nat \<Rightarrow> hash \<Rightarrow> u64 \<Rightarrow> nat list \<Rightarrow> nat \<Rightarrow> bytes \<Rightarrow> (nat \<times> bytes) res" where
  "copy_reassurance r h unused_mask [] index out = Inr (index, out)"
| "copy_reassurance r h unused_mask (b # bs) index out =
     (if unused_mask AND push_bit b 1 = 0 then copy_reassurance r h unused_mask bs index out
      else if index < length out then
        let out' = out[index := h ! b] in
        if r \<le> index + 1 then Inr (index + 1, out')
        else copy_reassurance r h unused_mask bs (index + 1) out'
      else Inl Undefined)"

definition make_leaf_node ::
  "nat \<Rightarrow> nat \<Rightarrow> hash_local_presentation \<Rightarrow> u64 \<Rightarrow> nat \<Rightarrow> shallow_node res" where
  "make_leaf_node N r hp unused_mask level_depth =
     rbind (copy_reassurance r (hlp_hash hp) unused_mask [0..<N] 0 (replicate r 0)) (\<lambda>(index, out).
     let out' = fold (\<lambda>i out. out[i := 0]) [index..<r] out in
     Inr (Leaf_Node level_depth
            \<lparr>reassurance_hash_bytes = out', leaf_presentation_index = hlp_pi hp\<rparr>))"

type_synonym gen_result =
  "(shallow_node \<times> hash_local_presentation list \<times> hash_local_presentation list) res"

text \<open>
  One turn of the loop over the 256 byte values.  Its state is the start index, the slots,
  the span and the scratch buffer; \<open>recurse\<close> is the recursive call.
\<close>

definition fill_slot ::
  "nat \<Rightarrow> nat
    \<Rightarrow> (hash_local_presentation list \<Rightarrow> u64 \<Rightarrow> nat \<Rightarrow> hash_local_presentation list \<Rightarrow> gen_result)
    \<Rightarrow> nat list \<Rightarrow> u64 \<Rightarrow> nat
    \<Rightarrow> nat \<times> shallow_node option list \<times> hash_local_presentation list \<times> hash_local_presentation list
    \<Rightarrow> nat
    \<Rightarrow> (nat \<times> shallow_node option list \<times> hash_local_presentation list
        \<times> hash_local_presentation list) res" where
  "fill_slot N r recurse counts unused_mask level_depth s byte_val =
     (let (start_index, slots, input, scratch) = s; count = counts ! byte_val in
      if count = 1 then
        rbind (read_at input start_index) (\<lambda>hp.
        rbind (make_leaf_node N r hp unused_mask (level_depth + 1)) (\<lambda>node.
        Inr (start_index + count, slots[byte_val := Some node], input, scratch)))
      else if count > 1 then
        rbind (subspan input start_index count) (\<lambda>sub_span.
        rbind (recurse sub_span unused_mask (level_depth + 1) scratch) (\<lambda>(node, sub_span', scratch').
        rbind (buf_write start_index sub_span' input) (\<lambda>input'.
        Inr (start_index + count, slots[byte_val := Some node], input', scratch'))))
      else Inr (start_index + count, slots, input, scratch))"

primrec recurse_generate_node ::
  "nat \<Rightarrow> nat \<Rightarrow> nat \<Rightarrow> hash_local_presentation list \<Rightarrow> u64 \<Rightarrow> nat
    \<Rightarrow> hash_local_presentation list \<Rightarrow> gen_result" where
  "recurse_generate_node 0 N r input unused_mask level_depth scratch = Inl Out_Of_Fuel"
| "recurse_generate_node (Suc fuel) N r input unused_mask level_depth scratch =
     (if length input < 2 then
        Inl (Logic_Error ''recurse_generate_node called with fewer than 2 elements'')
      else if unused_mask = 0 then
        Inl (Runtime_Error ''Duplicate hashes detected during tree generation!'')
      else
        let best = best_byte_index N input unused_mask;
            unused_mask' = clear_byte best unused_mask in
        rbind (bucket_partition_by_byte input best scratch) (\<lambda>(counts, input1, scratch1).
        rbind (rfold (fill_slot N r (recurse_generate_node fuel N r) counts unused_mask' level_depth)
                 (0, replicate 256 None, input1, scratch1) [0..<256])
          (\<lambda>(start_index, slots, input2, scratch2).
        Inr (Slots_Node level_depth best slots, input2, scratch2))))"

text \<open>The scratch buffer is value-initialised.\<close>

definition blank_presentation :: "nat \<Rightarrow> hash_local_presentation" where
  "blank_presentation N = \<lparr>hlp_hash = replicate N 0, hlp_pi = LOCAL_PI_NO_MATCH\<rparr>"

definition default_shallow_tree :: shallow_tree where
  "default_shallow_tree =
     \<lparr>sh_ls_tail_bits_count = 0, sh_reassurance_bytes_count = 0, sh_hash_count = 0,
      root_slot = None\<rparr>"

definition mk_shallow_tree ::
  "nat \<Rightarrow> hash_local_presentation list \<Rightarrow> u64 \<Rightarrow> nat
    \<Rightarrow> (shallow_tree \<times> hash_local_presentation list) res" where
  "mk_shallow_tree N input ls_tail_bits_count r =
     (let handled = handled_bytes ls_tail_bits_count;
          tree = \<lparr>sh_ls_tail_bits_count = ls_tail_bits_count, sh_reassurance_bytes_count = r,
                  sh_hash_count = length input, root_slot = None\<rparr> in
      if N < 1 \<or> N > 64 then
        Inl (Invalid_Argument ''Supported hash size is 1 to 64 bytes (up to 512-bit)'')
      else if handled > N then
        Inl (Invalid_Argument ''ls_tail_bits covers more bytes than the total hash size'')
      else if input = [] then Inr (tree, input)
      else
        let unused_mask = initial_unused_mask N handled in
        if length input = 1 then
          rbind (make_leaf_node N r (hd input) unused_mask handled) (\<lambda>node.
          Inr (tree\<lparr>root_slot := Some node\<rparr>, input))
        else
          rbind (recurse_generate_node (N + 1) N r input unused_mask handled
                   (replicate (length input) (blank_presentation N))) (\<lambda>(node, input', scratch).
          Inr (tree\<lparr>root_slot := Some node\<rparr>, input')))"

section \<open>Lookup\<close>

fun check_reassurance :: "nat \<Rightarrow> bytes \<Rightarrow> bytes \<Rightarrow> u64 \<Rightarrow> nat list \<Rightarrow> nat \<Rightarrow> bool res" where
  "check_reassurance r target_hash leaf_bytes unused_mask [] index = Inr True"
| "check_reassurance r target_hash leaf_bytes unused_mask (b # bs) index =
     (if unused_mask AND push_bit b 1 = 0
      then check_reassurance r target_hash leaf_bytes unused_mask bs index
      else rbind (read_at leaf_bytes index) (\<lambda>byte.
        if target_hash ! b \<noteq> byte then Inr False
        else if r \<le> index + 1 then Inr True
        else check_reassurance r target_hash leaf_bytes unused_mask bs (index + 1)))"

text \<open>The loop from a node down to a leaf or an empty slot.\<close>

function lookup_from :: "nat \<Rightarrow> nat \<Rightarrow> bytes \<Rightarrow> u64 \<Rightarrow> shallow_node \<Rightarrow> local_pi res" where
  "lookup_from N r target_hash unused_mask (Leaf_Node d lf) =
     rbind (check_reassurance r target_hash (reassurance_hash_bytes lf) unused_mask [0..<N] 0) (\<lambda>ok.
     Inr (if ok then leaf_presentation_index lf else LOCAL_PI_NO_MATCH))"
| "lookup_from N r target_hash unused_mask (Slots_Node d byte_idx slots) =
     rbind (read_at target_hash byte_idx) (\<lambda>byte_val.
     rbind (read_at slots (unat byte_val)) (\<lambda>slot.
     case slot of None \<Rightarrow> Inr LOCAL_PI_NO_MATCH
     | Some node \<Rightarrow> lookup_from N r target_hash (clear_byte byte_idx unused_mask) node))"
  by pat_completeness auto

lemma size_slot_less: "Some n \<in> set slots \<Longrightarrow> size n < size_list (size_option size) slots"
  by (induction slots) auto

lemma size_nth_slot_less:
  "slots ! i = Some n \<Longrightarrow> i < length slots \<Longrightarrow> size n < Suc (size_list (size_option size) slots)"
  using size_slot_less [of n slots] nth_mem [of i slots] by simp

termination lookup_from
  by (relation "measure (\<lambda>(N, r, t, m, n). size n)")
     (auto simp: read_at_def split: if_splits intro: size_nth_slot_less)

definition lookup_hash_unique_reassured_candidate ::
  "nat \<Rightarrow> shallow_tree \<Rightarrow> bytes \<Rightarrow> local_pi res" where
  "lookup_hash_unique_reassured_candidate N tree target_hash =
     (case root_slot tree of
        None \<Rightarrow> Inr LOCAL_PI_NO_MATCH
      | Some root \<Rightarrow>
          if length target_hash \<noteq> N then Inr LOCAL_PI_NO_MATCH
          else lookup_from N (sh_reassurance_bytes_count tree) target_hash
                 (initial_unused_mask N (handled_bytes (sh_ls_tail_bits_count tree))) root)"

section \<open>Visitors\<close>

text \<open>The loop over the stack of nodes; its back is the head of the list.\<close>

definition push_children :: "shallow_node option list \<Rightarrow> shallow_node list \<Rightarrow> shallow_node list" where
  "push_children slots stack =
     fold (\<lambda>slot stack. case slot of None \<Rightarrow> stack | Some n \<Rightarrow> n # stack) slots stack"

lemma push_children_size:
  "size_list size (push_children slots stack) \<le> size_list size stack + size_list (size_option size) slots"
  unfolding push_children_def
proof (induction slots arbitrary: stack)
  case Nil
  then show ?case by simp
next
  case (Cons slot slots)
  show ?case
    using Cons.IH [of stack] Cons.IH [of "the slot # stack"] by (cases slot) auto
qed

function visit_stack :: "('s \<Rightarrow> shallow_node \<Rightarrow> 's) \<Rightarrow> shallow_node list \<Rightarrow> 's \<Rightarrow> 's" where
  "visit_stack visitor [] s = s"
| "visit_stack visitor (Leaf_Node d lf # stack) s = visit_stack visitor stack (visitor s (Leaf_Node d lf))"
| "visit_stack visitor (Slots_Node d b slots # stack) s =
     visit_stack visitor (push_children slots stack) (visitor s (Slots_Node d b slots))"
  by pat_completeness auto
termination visit_stack
  by (relation "measure (\<lambda>(f, stack, s). size_list size stack)")
     (auto intro: le_less_trans [OF push_children_size])

definition visit_all_nodes :: "('s \<Rightarrow> shallow_node \<Rightarrow> 's) \<Rightarrow> shallow_tree \<Rightarrow> 's \<Rightarrow> 's" where
  "visit_all_nodes visitor tree s =
     (case root_slot tree of None \<Rightarrow> s | Some root \<Rightarrow> visit_stack visitor [root] s)"

definition count_nodes :: "shallow_tree \<Rightarrow> nat" where
  "count_nodes tree = visit_all_nodes (\<lambda>count n. count + 1) tree 0"

definition hash_count :: "shallow_tree \<Rightarrow> nat" where
  "hash_count tree = sh_hash_count tree"

section \<open>The mask of unused bytes\<close>

lemma test_byte: "b < 64 \<Longrightarrow> (w :: u64) AND push_bit b 1 = 0 \<longleftrightarrow> \<not> bit w b"
proof -
  assume b: "b < 64"
  then have "bit (w AND push_bit b 1) i \<longleftrightarrow> bit w b \<and> i = b" for i
    by (auto simp: bit_simps bit_1_iff)
  then show ?thesis by (metis bit_0_eq bot_apply bot_bool_def bit_eqI)
qed

lemma bit_clear_byte: "b < 64 \<Longrightarrow> bit (clear_byte b w) i \<longleftrightarrow> bit w i \<and> i \<noteq> b"
  by (auto simp: clear_byte_def bit_simps dest: bit_imp_le_length)

lemma bit_low_mask: "n \<le> 64 \<Longrightarrow> bit (low_mask n) i \<longleftrightarrow> i < n"
proof -
  assume n: "n \<le> 64"
  have "low_mask n = take_bit n (- 1)" using and_low_mask [OF n, of "- 1"] by simp
  with n show ?thesis by (auto simp: bit_simps)
qed

lemma bit_initial_unused_mask:
  assumes "N \<le> 64" "handled \<le> N"
  shows "bit (initial_unused_mask N handled) i \<longleftrightarrow> handled \<le> i \<and> i < N"
proof -
  have "bit (fold clear_byte [0..<k] (low_mask N)) i \<longleftrightarrow> k \<le> i \<and> i < N" if "k \<le> N" for k
    using that
  proof (induction k)
    case 0
    then show ?case using assms by (simp add: bit_low_mask)
  next
    case (Suc k)
    then show ?case using assms by (auto simp: bit_clear_byte)
  qed
  with assms show ?thesis by (simp add: initial_unused_mask_def)
qed

definition unused_bytes :: "nat \<Rightarrow> u64 \<Rightarrow> nat list" where
  "unused_bytes N w = filter (bit w) [0..<N]"

lemma set_unused_bytes: "set (unused_bytes N w) = {b. b < N \<and> bit w b}"
  by (auto simp: unused_bytes_def)

lemma unused_bytes_clear:
  assumes "b \<in> set (unused_bytes N w)" "N \<le> 64"
  shows "unused_bytes N (clear_byte b w) = filter (\<lambda>i. i \<noteq> b) (unused_bytes N w)"
    and "length (unused_bytes N (clear_byte b w)) < length (unused_bytes N w)"
proof -
  have b: "b < 64" using assms by (simp add: set_unused_bytes)
  show eq: "unused_bytes N (clear_byte b w) = filter (\<lambda>i. i \<noteq> b) (unused_bytes N w)"
    using b by (auto simp: unused_bytes_def bit_clear_byte intro: filter_cong)
  show "length (unused_bytes N (clear_byte b w)) < length (unused_bytes N w)"
    unfolding eq using assms(1) by (intro length_filter_less) auto
qed

lemma unused_bytes_initial:
  "N \<le> 64 \<Longrightarrow> handled \<le> N \<Longrightarrow> unused_bytes N (initial_unused_mask N handled) = [handled..<N]"
  by (rule sorted_distinct_set_unique)
     (auto simp: unused_bytes_def bit_initial_unused_mask sorted_wrt_filter)

section \<open>The partition is a stable sort\<close>

lemma hash_byte_less [simp]: "hash_byte x b < 256"
  by (simp add: hash_byte_def unat_u8_less)

abbreviation bucket :: "nat \<Rightarrow> nat \<Rightarrow> hash_local_presentation list \<Rightarrow> hash_local_presentation list" where
  "bucket b v xs \<equiv> filter (\<lambda>x. hash_byte x b = v) xs"

lemma length_byte_counts [simp]: "length (byte_counts xs b) = 256"
  unfolding byte_counts_def by (induction xs rule: rev_induct) auto

lemma byte_counts_nth: "v < 256 \<Longrightarrow> byte_counts xs b ! v = length (bucket b v xs)"
proof (induction xs rule: rev_induct)
  case Nil
  then show ?case by (simp add: byte_counts_def)
next
  case (snoc x xs)
  have "byte_counts (xs @ [x]) b =
      (byte_counts xs b)[hash_byte x b := byte_counts xs b ! hash_byte x b + 1]"
    by (simp add: byte_counts_def)
  with snoc show ?case by (simp add: nth_list_update)
qed

lemma byte_counts_eq: "byte_counts xs b = map (\<lambda>v. length (bucket b v xs)) [0..<256]"
  by (rule nth_equalityI) (simp_all add: byte_counts_nth)

lemma bucket_offsets_eq:
  assumes "length counts = 256"
  shows "bucket_offsets counts = map (\<lambda>v. sum_list (take v counts)) [0..<256]"
proof -
  let ?f = "\<lambda>i offsets. offsets[i := offsets ! (i - 1) + counts ! (i - 1)]"
  have "length (fold ?f [1..<k] (replicate 256 0)) = 256 \<and>
      (\<forall>v < k. fold ?f [1..<k] (replicate 256 0) ! v = sum_list (take v counts))"
    if "1 \<le> k" "k \<le> 256" for k
    using that
  proof (induction k rule: dec_induct)
    case base
    then show ?case by simp
  next
    case (step k)
    then show ?case using assms
      by (cases k) (auto simp: nth_list_update less_Suc_eq take_Suc_conv_app_nth)
  qed
  from this [of 256] show ?thesis
    unfolding bucket_offsets_def by (intro nth_equalityI) simp_all
qed

lemma sum_take_counts:
  "v \<le> 256 \<Longrightarrow> sum_list (take v (byte_counts xs b)) = (\<Sum>u \<leftarrow> [0..<v]. length (bucket b u xs))"
  by (simp add: byte_counts_eq take_map)

lemma split_segments:
  assumes "sum_list (map c [0..<k]) \<le> length xs"
  shows "\<exists>R. take (sum_list (map c [0..<k])) xs = concat (map R [0..<k]) \<and> (\<forall>v < k. length (R v) = c v)"
  using assms
proof (induction k)
  case 0
  then show ?case by simp
next
  case (Suc k)
  let ?S = "sum_list (map c [0..<k])"
  obtain R where R: "take ?S xs = concat (map R [0..<k])" "\<forall>v < k. length (R v) = c v"
    using Suc by auto
  let ?R = "R(k := take (c k) (drop ?S xs))"
  have "map ?R [0..<k] = map R [0..<k]" by (rule map_cong) auto
  moreover have "concat (map ?R [0..<Suc k]) = concat (map ?R [0..<k]) @ take (c k) (drop ?S xs)" by simp
  ultimately have "concat (map ?R [0..<Suc k]) = take (?S + c k) xs" using R(1) by (simp only: take_add)
  then have "take (sum_list (map c [0..<Suc k])) xs = concat (map ?R [0..<Suc k])" by simp
  moreover have "\<forall>v < Suc k. length (?R v) = c v" using R(2) Suc.prems by (auto simp: less_Suc_eq)
  ultimately show ?case by blast
qed

lemma upt_split: "v < (n::nat) \<Longrightarrow> [0..<n] = [0..<v] @ v # [Suc v..<n]"
  by (metis le_add_same_cancel1 less_imp_le_nat upt_add_eq_append upt_conv_Cons le_Suc_ex zero_le add_0)

lemma concat_map_update:
  "v < n \<Longrightarrow> concat (map F [0..<n]) = concat (map F [0..<v]) @ F v @ concat (map F [Suc v..<n])"
  by (simp add: upt_split)

lemma scatter_segments:
  assumes len: "\<forall>v < 256. length (R v) = length (bucket b v zs)"
    and scr: "scr = concat (map (\<lambda>v. bucket b v ys @ R v) [0..<256]) @ T"
    and run: "running = map (\<lambda>v. (\<Sum>u \<leftarrow> [0..<v]. length (bucket b u (ys @ zs))) + length (bucket b v ys)) [0..<256]"
  shows "\<exists>running'. rfold (scatter_step b) (running, scr) zs =
     Inr (running', concat (map (\<lambda>v. bucket b v (ys @ zs)) [0..<256]) @ T)"
  using assms
proof (induction zs arbitrary: ys R scr running)
  case Nil
  then have "map (\<lambda>v. bucket b v ys @ R v) [0..<256] = map (\<lambda>v. bucket b v ys) [0..<256]"
    by (intro map_cong) auto
  with Nil show ?case by simp
next
  case (Cons z zs)
  let ?v = "hash_byte z b"
  let ?F = "\<lambda>v. bucket b v ys @ R v"
  have v: "?v < 256" by simp
  have "length (R ?v) = Suc (length (bucket b ?v zs))" using Cons.prems(1) v by auto
  then obtain r0 Rv where R: "R ?v = r0 # Rv" "length Rv = length (bucket b ?v zs)"
    by (cases "R ?v") auto
  define A where "A = concat (map ?F [0..<?v]) @ bucket b ?v ys"
  define B where "B = Rv @ concat (map ?F [Suc ?v..<256]) @ T"
  have scr: "scr = A @ r0 # B"
    using Cons.prems(2) concat_map_update [OF v, of ?F] R(1) by (simp add: A_def B_def)
  have at: "running ! ?v = length A"
  proof -
    have eq: "map (\<lambda>u. length (bucket b u (ys @ z # zs))) [0..<?v] = map (\<lambda>u. length (?F u)) [0..<?v]"
      using Cons.prems(1) less_trans [OF _ v] by (intro map_cong) auto
    have "running ! ?v = sum_list (map (\<lambda>u. length (bucket b u (ys @ z # zs))) [0..<?v]) + length (bucket b ?v ys)"
      by (simp add: Cons.prems(3) del: filter_append length_append)
    then show ?thesis unfolding eq by (simp add: A_def length_concat comp_def)
  qed
  define R' where "R' = R(?v := Rv)"
  have len': "\<forall>v < 256. length (R' v) = length (bucket b v zs)"
    using Cons.prems(1) R(2) by (auto simp: R'_def)
  have scr': "A @ z # B = concat (map (\<lambda>v. bucket b v (ys @ [z]) @ R' v) [0..<256]) @ T"
  proof -
    let ?G = "\<lambda>v. bucket b v (ys @ [z]) @ R' v"
    have eq: "map ?G [0..<?v] = map ?F [0..<?v]" "map ?G [Suc ?v..<256] = map ?F [Suc ?v..<256]"
      by (auto intro!: map_cong simp: R'_def)
    have "?G ?v = bucket b ?v ys @ z # Rv" by (simp add: R'_def)
    then show ?thesis using concat_map_update [OF v, of ?G]
      unfolding eq by (simp only: A_def B_def append_assoc append_Cons)
  qed
  have run': "running[?v := running ! ?v + 1] = map (\<lambda>v. (\<Sum>u \<leftarrow> [0..<v]. length (bucket b u ((ys @ [z]) @ zs)))
      + length (bucket b v (ys @ [z]))) [0..<256]"
    using Cons.prems(3) by (intro nth_equalityI) (auto simp: nth_list_update)
  have step: "scatter_step b (running, scr) z = Inr (running[?v := running ! ?v + 1], A @ z # B)"
    by (simp add: scatter_step_def at scr)
  show ?case using Cons.IH [OF len' scr' run'] step by simp
qed

lemma buckets_sort_key:
  "concat (map (\<lambda>v. bucket b v xs) [0..<256]) = sort_key (\<lambda>x. hash_byte x b) xs"
proof (rule properties_for_sort_key [symmetric])
  have fil: "filter P (concat (map (\<lambda>v. bucket b v xs) [0..<k])) =
      concat (map (\<lambda>v. filter P (bucket b v xs)) [0..<k])" for P k
    by (simp add: filter_concat comp_def)
  show mset: "mset (concat (map (\<lambda>v. bucket b v xs) [0..<256])) = mset xs"
  proof -
    have "mset (concat (map (\<lambda>v. bucket b v xs) [0..<k])) = mset (filter (\<lambda>x. hash_byte x b < k) xs)" for k
    proof (induction k)
      case 0
      then show ?case by simp
    next
      case (Suc k)
      have "filter_mset (\<lambda>x. hash_byte x b < k) (mset xs) + filter_mset (\<lambda>x. hash_byte x b = k) (mset xs)
          = filter_mset (\<lambda>x. hash_byte x b < Suc k) (mset xs)"
        by (induction xs) (auto simp: less_Suc_eq)
      with Suc show ?case by simp
    qed
    from this [of 256] show ?thesis by (simp add: filter_True)
  qed
  show "filter (\<lambda>x. hash_byte k b = hash_byte x b) (concat (map (\<lambda>v. bucket b v xs) [0..<256])) =
      filter (\<lambda>x. hash_byte k b = hash_byte x b) xs" for k
  proof -
    have one: "concat (map (\<lambda>v. filter (\<lambda>x. w = hash_byte x b) (bucket b v xs)) [0..<n]) =
        (if w < n then filter (\<lambda>x. w = hash_byte x b) xs else [])" for w n
    proof (induction n)
      case 0
      then show ?case by simp
    next
      case (Suc n)
      have "filter (\<lambda>x. w = hash_byte x b) (bucket b n xs) =
          (if w = n then filter (\<lambda>x. w = hash_byte x b) xs else [])"
        by (auto simp: filter_empty_conv intro: filter_cong)
      with Suc show ?case by (auto simp: less_Suc_eq)
    qed
    show ?thesis unfolding fil one by simp
  qed
  have "sorted (map (\<lambda>x. hash_byte x b) (concat (map (\<lambda>v. bucket b v xs) [0..<k])))" for k
  proof (induction k)
    case 0
    then show ?case by simp
  next
    case (Suc k)
    have "map (\<lambda>x. hash_byte x b) (bucket b k xs) = replicate (length (bucket b k xs)) k"
      by (induction xs) auto
    with Suc show ?case by (fastforce simp: sorted_append)
  qed
  then show "sorted (map (\<lambda>x. hash_byte x b) (concat (map (\<lambda>v. bucket b v xs) [0..<256])))" .
qed

lemma bucket_partition_ok:
  assumes "length xs \<le> length scratch"
  shows "\<exists>scratch'. bucket_partition_by_byte xs b scratch =
      Inr (byte_counts xs b, sort_key (\<lambda>x. hash_byte x b) xs, scratch') \<and> length scratch' = length scratch"
proof -
  let ?c = "\<lambda>v. length (bucket b v xs)"
  let ?S = "sum_list (map ?c [0..<256])"
  have S: "?S = length xs"
    using arg_cong [OF buckets_sort_key [of b xs], of length] by (simp add: length_concat comp_def)
  obtain R where R: "take ?S scratch = concat (map R [0..<256])" "\<forall>v < 256. length (R v) = ?c v"
    using split_segments [of ?c 256 scratch] assms S by auto
  have "scratch = concat (map R [0..<256]) @ drop ?S scratch"
    using R(1) by (metis append_take_drop_id)
  moreover have "bucket_offsets (byte_counts xs b) =
      map (\<lambda>v. \<Sum>u \<leftarrow> [0..<v]. length (bucket b u xs)) [0..<256]"
    unfolding bucket_offsets_eq [OF length_byte_counts] by (intro map_cong) (auto simp: sum_take_counts)
  ultimately obtain running where
    "rfold (scatter_step b) (bucket_offsets (byte_counts xs b), scratch) xs =
      Inr (running, concat (map (\<lambda>v. bucket b v xs) [0..<256]) @ drop ?S scratch)"
    using scatter_segments [of R b xs scratch "[]" "drop ?S scratch"] R(2) by auto
  then have "bucket_partition_by_byte xs b scratch =
      Inr (byte_counts xs b, sort_key (\<lambda>x. hash_byte x b) xs, sort_key (\<lambda>x. hash_byte x b) xs @ drop ?S scratch)"
    by (simp add: bucket_partition_by_byte_def Let_def buckets_sort_key buf_simps)
  then show ?thesis using assms S by simp
qed

lemma bucket_segment:
  fixes xs :: "hash_local_presentation list" and b :: nat
  assumes "v < 256"
  defines "S \<equiv> (\<Sum>u \<leftarrow> [0..<v]. length (bucket b u xs))"
  shows "take (length (bucket b v xs)) (drop S (sort_key (\<lambda>x. hash_byte x b) xs)) = bucket b v xs"
    and "S + length (bucket b v xs) \<le> length xs"
proof -
  let ?F = "\<lambda>v. bucket b v xs"
  have eq: "sort_key (\<lambda>x. hash_byte x b) xs =
      concat (map ?F [0..<v]) @ ?F v @ concat (map ?F [Suc v..<256])"
    using concat_map_update [OF assms(1), of ?F] by (simp only: buckets_sort_key)
  have len: "S = length (concat (map ?F [0..<v]))" by (simp add: S_def length_concat comp_def)
  show "take (length (?F v)) (drop S (sort_key (\<lambda>x. hash_byte x b) xs)) = ?F v"
    unfolding eq len by simp
  show "S + length (?F v) \<le> length xs"
    using arg_cong [OF eq, of length] by (simp add: len)
qed

section \<open>The chosen byte\<close>

lemmas test_bytes = test_byte test_byte [unfolded push_bit_of_1]

lemma best_byte_fold:
  fixes input :: "hash_local_presentation list"
  assumes "k \<le> 64"
  defines "E \<equiv> calculate_byte_entropy input"
  shows "fold (best_byte_step input m) [0..<k] (None, 0) = (None, 0) \<and> (\<forall>b < k. \<not> bit m b) \<or>
    (\<exists>best. fold (best_byte_step input m) [0..<k] (None, 0) = (Some (E best), best) \<and>
      best < k \<and> bit m best \<and>
      (\<forall>b < k. bit m b \<longrightarrow> E b \<le> E best) \<and> (\<forall>b < best. bit m b \<longrightarrow> E b < E best))"
  (is "?P k")
  using assms(1)
proof (induction k)
  case 0
  then show ?case by simp
next
  case (Suc k)
  let ?s = "fold (best_byte_step input m) [0..<k] (None, 0)"
  have fold: "fold (best_byte_step input m) [0..<Suc k] (None, 0) = best_byte_step input m k ?s" by simp
  have P: "?P k" using Suc by simp
  show ?case
  proof (cases "bit m k")
    case False
    then have "best_byte_step input m k ?s = ?s"
      using Suc.prems by (simp add: best_byte_step_def test_bytes split: prod.splits)
    with P False show ?thesis unfolding fold by (auto simp: less_Suc_eq)
  next
    case True
    from P show ?thesis
    proof
      assume "?s = (None, 0) \<and> (\<forall>b < k. \<not> bit m b)"
      with True Suc.prems show ?thesis unfolding fold
        by (auto simp: best_byte_step_def test_bytes E_def less_Suc_eq)
    next
      assume "\<exists>best. ?s = (Some (E best), best) \<and> best < k \<and> bit m best \<and>
        (\<forall>b < k. bit m b \<longrightarrow> E b \<le> E best) \<and> (\<forall>b < best. bit m b \<longrightarrow> E b < E best)"
      then obtain best where best: "?s = (Some (E best), best)" "best < k" "bit m best"
        "\<forall>b < k. bit m b \<longrightarrow> E b \<le> E best" "\<forall>b < best. bit m b \<longrightarrow> E b < E best" by blast
      have step: "best_byte_step input m k ?s =
          (if E best < E k then (Some (E k), k) else (Some (E best), best))"
        using True Suc.prems best(1) by (simp add: best_byte_step_def test_bytes E_def Let_def)
      show ?thesis unfolding fold step using best True
        by (cases "E best < E k") (auto simp: less_Suc_eq intro: le_less_trans)
    qed
  qed
qed

lemma best_byte_choice:
  fixes input :: "hash_local_presentation list" and N m
  assumes "N \<le> 64" "unused_bytes N m \<noteq> []"
  defines "best \<equiv> best_byte_index N input m" and "E \<equiv> calculate_byte_entropy input"
  shows "best \<in> set (unused_bytes N m)"
    and "\<forall>b \<in> set (unused_bytes N m). E b \<le> E best \<and> (b < best \<longrightarrow> E b < E best)"
proof -
  obtain b where "b < N" "bit m b"
    using assms(2) set_unused_bytes [of N m] by (metis (no_types, lifting) last_in_set mem_Collect_eq)
  then show "best \<in> set (unused_bytes N m)"
    "\<forall>b \<in> set (unused_bytes N m). E b \<le> E best \<and> (b < best \<longrightarrow> E b < E best)"
    using best_byte_fold [OF assms(1), of input m] assms(3,4)
    by (auto simp: best_byte_index_def set_unused_bytes)
qed

text \<open>
  For up to 94906265 hashes the sum of squares is below \<open>2 ^ 53\<close>, so the conversion to
  \<open>double\<close> is exact and the metric is the negated number of colliding pairs.
\<close>

definition exact_size :: nat where
  "exact_size = 94906265"

definition collisions :: "hash_local_presentation list \<Rightarrow> nat \<Rightarrow> nat" where
  "collisions xs b = (\<Sum>v < 256. length (bucket b v xs) * length (bucket b v xs))"

lemma sum_bucket_lengths: "(\<Sum>v < 256. length (bucket b v xs)) = length xs"
  using arg_cong [OF buckets_sort_key [of b xs], of length]
  by (simp add: length_concat comp_def interv_sum_list_conv_sum_set_nat atLeast0LessThan)

lemma collisions_le: "collisions xs b \<le> length xs * length xs"
proof -
  have "collisions xs b \<le> (\<Sum>v < 256. length (bucket b v xs) * length xs)"
    unfolding collisions_def by (intro sum_mono mult_left_mono) auto
  also have "\<dots> = length xs * length xs"
    by (simp add: sum_bucket_lengths flip: sum_distrib_right)
  finally show ?thesis .
qed

lemma collisions_all_iff:
  "collisions xs b = length xs * length xs \<longleftrightarrow> (\<forall>x \<in> set xs. \<forall>y \<in> set xs. hash_byte x b = hash_byte y b)"
proof
  assume eq: "collisions xs b = length xs * length xs"
  show "\<forall>x \<in> set xs. \<forall>y \<in> set xs. hash_byte x b = hash_byte y b"
  proof (rule ccontr)
    assume "\<not> (\<forall>x \<in> set xs. \<forall>y \<in> set xs. hash_byte x b = hash_byte y b)"
    then obtain x y where xy: "x \<in> set xs" "y \<in> set xs" "hash_byte x b \<noteq> hash_byte y b" by blast
    let ?v = "hash_byte x b"
    have "length (bucket b ?v xs) < length xs" using xy by (intro length_filter_less [of y]) auto
    moreover have "0 < length (bucket b ?v xs)" using xy(1) by (auto simp: filter_empty_conv)
    ultimately have "(\<Sum>v < 256. length (bucket b v xs) * length (bucket b v xs)) <
        (\<Sum>v < 256. length (bucket b v xs) * length xs)"
      by (intro sum_strict_mono_ex1 bexI [of _ ?v]) (auto intro: mult_left_mono)
    then show False using eq
      by (simp add: sum_bucket_lengths collisions_def flip: sum_distrib_right)
  qed
next
  assume all: "\<forall>x \<in> set xs. \<forall>y \<in> set xs. hash_byte x b = hash_byte y b"
  have "length (bucket b v xs) * length (bucket b v xs) = length (bucket b v xs) * length xs" for v
  proof (cases "bucket b v xs = []")
    case False
    then obtain y where "y \<in> set xs" "hash_byte y b = v" by (auto simp only: filter_empty_conv)
    with all have "\<forall>x \<in> set xs. hash_byte x b = v" by blast
    then have "bucket b v xs = xs" by (simp only: filter_id_conv)
    then show ?thesis by simp
  qed simp
  then have "collisions xs b = (\<Sum>v < 256. length (bucket b v xs) * length xs)"
    unfolding collisions_def by (intro sum.cong refl)
  then show "collisions xs b = length xs * length xs"
    by (simp add: sum_bucket_lengths flip: sum_distrib_right)
qed

lemma double_exact: "n < 2 ^ 53 \<Longrightarrow> double_of_u64 (of_nat n) = int n"
proof -
  assume n: "n < 2 ^ 53"
  then have "unat (of_nat n :: u64) = n" by (simp add: unat_of_nat)
  with n bit_width_le_iff [of n 53] show ?thesis by (simp add: double_of_u64_def Let_def)
qed

lemma entropy_exact:
  assumes "length xs \<le> exact_size"
  shows "calculate_byte_entropy xs b = - int (collisions xs b)"
proof -
  have "fold (\<lambda>count sum_sq. sum_sq + of_nat count * of_nat count) cs (of_nat s) =
      (of_nat (s + (\<Sum>c \<leftarrow> cs. c * c)) :: u64)" for cs s
    by (induction cs arbitrary: s) (simp_all add: add.assoc flip: of_nat_mult of_nat_add)
  from this [of "byte_counts xs b" 0]
  have "fold (\<lambda>count sum_sq. sum_sq + of_nat count * of_nat count) (byte_counts xs b) (0 :: u64) =
      of_nat (collisions xs b)"
    by (simp add: byte_counts_eq comp_def collisions_def interv_sum_list_conv_sum_set_nat atLeast0LessThan)
  moreover have "collisions xs b < 2 ^ 53"
  proof -
    have "length xs * length xs \<le> exact_size * exact_size" using assms by (intro mult_le_mono)
    then show ?thesis using collisions_le [of xs b] by (simp add: exact_size_def)
  qed
  ultimately show ?thesis by (simp add: calculate_byte_entropy_def double_exact)
qed

section \<open>Reassurance bytes\<close>

definition leaf_bytes :: "nat \<Rightarrow> hash \<Rightarrow> nat list \<Rightarrow> bytes" where
  "leaf_bytes r h U = take r (map ((!) h) U) @ replicate (r - length U) 0"

lemma length_leaf_bytes [simp]: "length (leaf_bytes r h U) = r"
  by (simp add: leaf_bytes_def)

lemma copy_reassurance_eq:
  assumes "index < r" "length out = r" "\<forall>b \<in> set bs. b < 64"
  shows "copy_reassurance r h m bs index out =
     (let vals = take (r - index) (map ((!) h) (filter (bit m) bs)) in
      Inr (index + length vals, take index out @ vals @ drop (index + length vals) out))"
  using assms
proof (induction bs arbitrary: index out)
  case Nil
  then show ?case by simp
next
  case (Cons b bs)
  show ?case
  proof (cases "bit m b \<and> index + 1 < r")
    case True
    then obtain k where k: "r - index = Suc k" "r - Suc index = k"
      using Cons.prems(1) by (metis Suc_diff_Suc)
    have "take (Suc index) (out[index := h ! b]) = take index out @ [h ! b]"
      using Cons.prems by (simp add: take_Suc_conv_app_nth)
    with True k Cons show ?thesis by (auto simp: test_bytes Let_def)
  next
    case False
    then have "\<not> bit m b \<or> r - index = Suc 0" using Cons.prems(1) by auto
    then show ?thesis using Cons
      by (auto simp: test_bytes Let_def upd_conv_take_nth_drop)
  qed
qed

lemma fold_zero: "\<forall>i \<in> set ixs. i < length xs \<longrightarrow> xs ! i = 0 \<Longrightarrow> fold (\<lambda>i out. out[i := 0]) ixs xs = xs"
proof (induction ixs)
  case Nil
  then show ?case by simp
next
  case (Cons i ixs)
  then have "xs[i := 0] = xs" by (cases "i < length xs") (auto simp: list_update_same_conv list_update_beyond)
  with Cons show ?case by simp
qed

lemma make_leaf_node_ok:
  assumes "1 \<le> r" "N \<le> 64"
  shows "make_leaf_node N r hp m d =
    Inr (Leaf_Node d \<lparr>reassurance_hash_bytes = leaf_bytes r (hlp_hash hp) (unused_bytes N m),
                      leaf_presentation_index = hlp_pi hp\<rparr>)"
proof -
  let ?v = "take r (map ((!) (hlp_hash hp)) (unused_bytes N m))"
  have "copy_reassurance r (hlp_hash hp) m [0..<N] 0 (replicate r 0) =
      Inr (length ?v, ?v @ replicate (r - length ?v) 0)"
    using copy_reassurance_eq [of 0 r "replicate r 0" "[0..<N]" "hlp_hash hp" m] assms
    by (simp add: unused_bytes_def Let_def)
  moreover have "?v @ replicate (r - length ?v) 0 = leaf_bytes r (hlp_hash hp) (unused_bytes N m)"
    by (simp add: leaf_bytes_def min_def)
  moreover have "fold (\<lambda>i out. out[i := 0]) [length ?v..<r] (?v @ replicate (r - length ?v) 0) =
      ?v @ replicate (r - length ?v) 0"
    by (rule fold_zero) (auto simp: nth_append)
  ultimately show ?thesis by (simp add: make_leaf_node_def Let_def)
qed

lemma check_reassurance_eq:
  assumes "index < r" "length lb = r" "\<forall>b \<in> set bs. b < 64"
  shows "check_reassurance r t lb m bs index =
     (let vals = take (r - index) (map ((!) t) (filter (bit m) bs)) in
      Inr (take (length vals) (drop index lb) = vals))"
  using assms
proof (induction bs arbitrary: index)
  case Nil
  then show ?case by simp
next
  case (Cons b bs)
  have lb: "drop index lb = lb ! index # drop (Suc index) lb"
    using Cons.prems by (simp add: Cons_nth_drop_Suc)
  show ?case
  proof (cases "bit m b \<and> index + 1 < r")
    case True
    then obtain k where k: "r - index = Suc k" "r - Suc index = k"
      using Cons.prems(1) by (metis Suc_diff_Suc)
    with True Cons lb show ?thesis by (auto simp: test_bytes buf_simps)
  next
    case False
    then have "\<not> bit m b \<or> r = Suc index" using Cons.prems(1) by auto
    then show ?thesis using Cons lb by (auto simp: test_bytes buf_simps)
  qed
qed

lemma check_leaf:
  assumes "1 \<le> r" "N \<le> 64"
  shows "check_reassurance r t (leaf_bytes r h (unused_bytes N m)) m [0..<N] 0 =
     Inr (\<forall>b \<in> set (take r (unused_bytes N m)). t ! b = h ! b)"
proof -
  let ?U = "unused_bytes N m"
  have "take (min r (length ?U)) (leaf_bytes r h ?U) = map ((!) h) (take r ?U)"
    by (simp add: leaf_bytes_def take_map min_def)
  moreover have "map ((!) h) (take r ?U) = map ((!) t) (take r ?U) \<longleftrightarrow>
      (\<forall>b \<in> set (take r ?U). t ! b = h ! b)" by (auto simp del: in_set_takeD)
  ultimately show ?thesis
    using check_reassurance_eq [of 0 r "leaf_bytes r h ?U" "[0..<N]" t m] assms
    by (simp add: Let_def take_map min.commute flip: unused_bytes_def)
qed

section \<open>Trees over a set of hashes\<close>

text \<open>
  \<open>tree_over N r m d n M\<close>: below a path that has consumed the bytes cleared in \<open>m\<close>, the node
  \<open>n\<close> at level \<open>d\<close> holds exactly the presentations \<open>M\<close>.  While the metric is exact the byte
  of an inner node tells at least two of its presentations apart.
\<close>

inductive tree_over ::
  "nat \<Rightarrow> nat \<Rightarrow> u64 \<Rightarrow> nat \<Rightarrow> shallow_node \<Rightarrow> hash_local_presentation multiset \<Rightarrow> bool" for N r where
  leaf: "tree_over N r m d
     (Leaf_Node d \<lparr>reassurance_hash_bytes = leaf_bytes r (hlp_hash x) (unused_bytes N m),
                   leaf_presentation_index = hlp_pi x\<rparr>) {#x#}"
| slots: "b \<in> set (unused_bytes N m) \<Longrightarrow> length slots = 256 \<Longrightarrow> 2 \<le> size M \<Longrightarrow>
     (size M \<le> exact_size \<longrightarrow> (\<exists>x \<in># M. \<exists>y \<in># M. hash_byte x b \<noteq> hash_byte y b)) \<Longrightarrow>
     \<forall>v < 256. slots ! v = None \<and> {#x \<in># M. hash_byte x b = v#} = {#} \<or>
       (\<exists>n. slots ! v = Some n \<and>
            tree_over N r (clear_byte b m) (d + 1) n {#x \<in># M. hash_byte x b = v#}) \<Longrightarrow>
     tree_over N r m d (Slots_Node d b slots) M"

text \<open>The lookup in such a tree: total, complete, and right up to the bytes it can compare.\<close>

lemma lookup_slots:
  assumes "length t = N" "b \<in> set (unused_bytes N m)" "length slots = 256"
  shows "lookup_from N r t m (Slots_Node d b slots) =
    (case slots ! unat (t ! b) of None \<Rightarrow> Inr LOCAL_PI_NO_MATCH
     | Some n \<Rightarrow> lookup_from N r t (clear_byte b m) n)"
  using assms unat_u8_less [of "t ! b"] by (simp add: set_unused_bytes buf_simps)

lemma lookup_leaf:
  assumes "1 \<le> r" "N \<le> 64"
  shows "lookup_from N r t m
      (Leaf_Node d \<lparr>reassurance_hash_bytes = leaf_bytes r h (unused_bytes N m),
                    leaf_presentation_index = p\<rparr>) =
    Inr (if \<forall>b \<in> set (take r (unused_bytes N m)). t ! b = h ! b then p else LOCAL_PI_NO_MATCH)"
  using assms by (simp add: check_leaf)

lemma tree_lookup_total:
  assumes "tree_over N r m d n M" "1 \<le> r" "N \<le> 64" "length t = N"
  shows "\<exists>p. lookup_from N r t m n = Inr p"
  using assms(1)
proof (induction rule: tree_over.induct)
  case (leaf m d x)
  then show ?case using assms(2,3) by (simp add: lookup_leaf del: lookup_from.simps)
next
  case (slots b m slots M d)
  then show ?case using unat_u8_less [of "t ! b"] lookup_slots [OF assms(4) slots(1,2)]
    by (auto simp del: lookup_from.simps dest!: spec [of _ "unat (t ! b)"])
qed

lemma tree_lookup_complete:
  assumes "tree_over N r m d n M" "1 \<le> r" "N \<le> 64" "length t = N"
    and "x \<in># M" "\<forall>b \<in> set (unused_bytes N m). t ! b = hlp_hash x ! b"
  shows "lookup_from N r t m n = Inr (hlp_pi x)"
  using assms(1,5,6)
proof (induction rule: tree_over.induct)
  case (leaf m d y)
  then have "\<forall>b \<in> set (take r (unused_bytes N m)). t ! b = hlp_hash y ! b" by (auto dest: in_set_takeD)
  with leaf show ?case using assms(2,3) by (simp add: lookup_leaf del: lookup_from.simps)
next
  case (slots b m slots M d)
  let ?v = "unat (t ! b)"
  have x: "x \<in># {#x \<in># M. hash_byte x b = ?v#}" using slots by (simp add: hash_byte_def)
  then obtain n where n: "slots ! ?v = Some n"
    "lookup_from N r t (clear_byte b m) n = Inr (hlp_pi x)"
    using slots.IH unat_u8_less [of "t ! b"] slots.prems unused_bytes_clear [OF slots(1) assms(3)]
    by fastforce
  then show ?case by (simp add: lookup_slots [OF assms(4) slots(1,2)] del: lookup_from.simps)
qed

lemma length_filter_Cons_mem:
  assumes "b \<in> set U" "distinct U" "P b"
  shows "length (filter P U) = Suc (length (filter P (filter (\<lambda>i. i \<noteq> b) U)))"
proof -
  obtain xs ys where U: "U = xs @ b # ys" using split_list [OF assms(1)] by blast
  have "filter (\<lambda>i. i \<noteq> b) xs = xs" "filter (\<lambda>i. i \<noteq> b) ys = ys"
    using assms(2) by (auto simp: U filter_id_conv)
  then show ?thesis using assms(3) by (simp add: U)
qed

lemma distinct_unused [simp]: "distinct (unused_bytes N m)"
  by (simp add: unused_bytes_def)

lemma tree_lookup_sound:
  assumes "tree_over N r m d n M" "1 \<le> r" "N \<le> 64" "length t = N"
    and "lookup_from N r t m n = Inr p" "p \<noteq> LOCAL_PI_NO_MATCH"
  shows "\<exists>x \<in># M. hlp_pi x = p \<and>
    min r (length (unused_bytes N m)) \<le> length (filter (\<lambda>b. t ! b = hlp_hash x ! b) (unused_bytes N m))"
  using assms(1,5)
proof (induction rule: tree_over.induct)
  case (leaf m d y)
  let ?U = "unused_bytes N m"
  let ?P = "\<lambda>b. t ! b = hlp_hash y ! b"
  have all: "\<forall>b \<in> set (take r ?U). ?P b" and p: "hlp_pi y = p"
    using leaf assms(2,3,6) by (auto simp: lookup_leaf simp del: lookup_from.simps split: if_splits)
  have "min r (length ?U) = length (filter ?P (take r ?U))" using all by (simp add: filter_True min.commute)
  also have "\<dots> \<le> length (filter ?P (take r ?U)) + length (filter ?P (drop r ?U))" by simp
  also have "\<dots> = length (filter ?P ?U)" by (metis append_take_drop_id filter_append length_append)
  finally show ?case using p by simp
next
  case (slots b m slots M d)
  let ?v = "unat (t ! b)" and ?U = "unused_bytes N m"
  have look: "lookup_from N r t m (Slots_Node d b slots) = (case slots ! ?v of None \<Rightarrow> Inr LOCAL_PI_NO_MATCH
     | Some n \<Rightarrow> lookup_from N r t (clear_byte b m) n)" by (rule lookup_slots [OF assms(4) slots(1,2)])
  then obtain n where n: "slots ! ?v = Some n" "lookup_from N r t (clear_byte b m) n = Inr p"
    using slots.prems assms(6) by (cases "slots ! ?v") auto
  then obtain x where x: "x \<in># {#x \<in># M. hash_byte x b = ?v#}" "hlp_pi x = p"
    "min r (length (unused_bytes N (clear_byte b m)))
      \<le> length (filter (\<lambda>b. t ! b = hlp_hash x ! b) (unused_bytes N (clear_byte b m)))"
    using slots.IH unat_u8_less [of "t ! b"] by fastforce
  have "t ! b = hlp_hash x ! b" using x(1) by (simp add: hash_byte_def word_unat_eq_iff)
  from length_filter_Cons_mem [OF slots(1) distinct_unused, of "\<lambda>b. t ! b = hlp_hash x ! b", OF this]
  have "length (filter (\<lambda>b. t ! b = hlp_hash x ! b) ?U) =
      Suc (length (filter (\<lambda>b. t ! b = hlp_hash x ! b) (unused_bytes N (clear_byte b m))))"
    by (simp add: unused_bytes_clear [OF slots(1) assms(3)])
  moreover have "length ?U = Suc (length (unused_bytes N (clear_byte b m)))"
    using length_filter_Cons_mem [OF slots(1) distinct_unused, of "\<lambda>_. True"]
    by (simp add: unused_bytes_clear [OF slots(1) assms(3)])
  ultimately show ?case using x by (intro bexI [of _ x]) (auto simp: min_def split: if_splits)
qed

section \<open>The construction\<close>

text \<open>No two presentations agree on all the bytes of \<open>U\<close>.\<close>

definition unique_on :: "nat set \<Rightarrow> hash_local_presentation multiset \<Rightarrow> bool" where
  "unique_on U M \<longleftrightarrow>
     (\<forall>x \<in># M. size {#y \<in># M. \<forall>b \<in> U. hash_byte y b = hash_byte x b#} \<le> 1)"

lemma unique_on_split:
  assumes "b \<in> U"
  shows "unique_on U M \<longleftrightarrow> (\<forall>v < 256. unique_on (U - {b}) {#x \<in># M. hash_byte x b = v#})"
proof -
  have eq: "{#y \<in># M. \<forall>i \<in> U. hash_byte y i = hash_byte x i#} =
      {#y \<in># {#y \<in># M. hash_byte y b = hash_byte x b#}. \<forall>i \<in> U - {b}. hash_byte y i = hash_byte x i#}" for x
    using assms by (auto simp: filter_filter_mset intro!: filter_mset_cong)
  show ?thesis unfolding unique_on_def eq by auto
qed

lemma unique_on_mono: "unique_on U M \<Longrightarrow> U \<subseteq> V \<Longrightarrow> unique_on V M"
proof -
  assume M: "unique_on U M" and "U \<subseteq> V"
  have "size {#y \<in># M. \<forall>b \<in> V. hash_byte y b = hash_byte x b#}
      \<le> size {#y \<in># M. \<forall>b \<in> U. hash_byte y b = hash_byte x b#}" for x
    using \<open>U \<subseteq> V\<close> by (induction M) auto
  with M show ?thesis unfolding unique_on_def using order_trans by blast
qed

lemma unique_on_small: "size M \<le> 1 \<Longrightarrow> unique_on U M"
  unfolding unique_on_def using size_filter_mset_lesseq order_trans by blast

lemma not_unique_on_empty: "2 \<le> size M \<Longrightarrow> \<not> unique_on {} M"
  unfolding unique_on_def by (cases M) auto

abbreviation duplicate_fault :: fault where
  "duplicate_fault \<equiv> Runtime_Error ''Duplicate hashes detected during tree generation!''"

text \<open>What one call of the recursive construction does, whatever its input.\<close>

definition builds ::
  "nat \<Rightarrow> nat \<Rightarrow> (hash_local_presentation list \<Rightarrow> u64 \<Rightarrow> nat \<Rightarrow> hash_local_presentation list \<Rightarrow> gen_result)
    \<Rightarrow> u64 \<Rightarrow> bool" where
  "builds N r gen m \<longleftrightarrow> (\<forall>xs d scratch. 2 \<le> length xs \<and> length xs \<le> length scratch \<longrightarrow>
     (if unique_on (set (unused_bytes N m)) (mset xs)
      then \<exists>n xs' scratch'. gen xs m d scratch = Inr (n, xs', scratch') \<and> mset xs' = mset xs \<and>
             length scratch' = length scratch \<and> tree_over N r m d n (mset xs)
      else gen xs m d scratch = Inl duplicate_fault))"


lemma take_take_drop: "xs = take i xs @ take c (drop i xs) @ drop (i + c) xs"
proof -
  have "drop i xs = take c (drop i xs) @ drop (i + c) xs"
    using append_take_drop_id [of c "drop i xs"] by (simp add: add.commute)
  then show ?thesis using append_take_drop_id [of i xs] by simp
qed

text \<open>While the metric is exact, the chosen byte tells two of several unique hashes apart.\<close>

lemma best_byte_splits:
  assumes "unique_on (set (unused_bytes N m)) (mset xs)" "2 \<le> length xs" "length xs \<le> exact_size"
    and "N \<le> 64" "unused_bytes N m \<noteq> []"
  shows "\<exists>x \<in> set xs. \<exists>y \<in> set xs. hash_byte x (best_byte_index N xs m) \<noteq> hash_byte y (best_byte_index N xs m)"
proof (rule ccontr)
  let ?b = "best_byte_index N xs m" and ?U = "set (unused_bytes N m)"
  assume "\<not> ?thesis"
  then have best: "collisions xs ?b = length xs * length xs" unfolding collisions_all_iff by blast
  have "collisions xs u = length xs * length xs" if "u \<in> ?U" for u
  proof -
    have "calculate_byte_entropy xs u \<le> calculate_byte_entropy xs ?b"
      using best_byte_choice(2) [OF assms(4,5), of xs] that by blast
    then have "int (length xs * length xs) \<le> int (collisions xs u)"
      unfolding entropy_exact [OF assms(3)] best by linarith
    then show ?thesis using collisions_le [of xs u] by linarith
  qed
  then have same: "\<forall>x \<in> set xs. \<forall>y \<in> set xs. hash_byte x u = hash_byte y u" if "u \<in> ?U" for u
    using that by (simp only: collisions_all_iff)
  obtain x where x: "x \<in> set xs" using assms(2) by (cases xs) auto
  have "\<forall>y \<in> set xs. \<forall>b \<in> ?U. hash_byte y b = hash_byte x b" using same x by metis
  then have "filter (\<lambda>y. \<forall>b \<in> ?U. hash_byte y b = hash_byte x b) xs = xs" by (simp only: filter_id_conv)
  then have "{#y \<in># mset xs. \<forall>b \<in> ?U. hash_byte y b = hash_byte x b#} = mset xs"
    by (simp only: flip: mset_filter)
  moreover have "size {#y \<in># mset xs. \<forall>b \<in> ?U. hash_byte y b = hash_byte x b#} \<le> 1"
    using assms(1) x by (simp add: unique_on_def)
  ultimately show False using assms(2) by simp
qed

text \<open>The loop over the 256 byte values, after the partition by byte \<open>b\<close>.\<close>

abbreviation bucket_start :: "nat \<Rightarrow> hash_local_presentation list \<Rightarrow> nat \<Rightarrow> nat" where
  "bucket_start b xs v \<equiv> \<Sum>u \<leftarrow> [0..<v]. length (bucket b u xs)"

abbreviation slot_done ::
  "nat \<Rightarrow> nat \<Rightarrow> u64 \<Rightarrow> nat \<Rightarrow> nat \<Rightarrow> hash_local_presentation list \<Rightarrow> shallow_node option list
    \<Rightarrow> nat \<Rightarrow> bool" where
  "slot_done N r m d b xs slots v \<equiv>
     slots ! v = None \<and> {#x \<in># mset xs. hash_byte x b = v#} = {#} \<or>
     (\<exists>n. slots ! v = Some n \<and> tree_over N r m (d + 1) n {#x \<in># mset xs. hash_byte x b = v#})"

text \<open>After \<open>k\<close> turns; \<open>len\<close> is the length of the scratch buffer.\<close>

definition loop_inv ::
  "nat \<Rightarrow> nat \<Rightarrow> u64 \<Rightarrow> nat \<Rightarrow> nat \<Rightarrow> hash_local_presentation list \<Rightarrow> nat \<Rightarrow> nat
    \<Rightarrow> nat \<times> shallow_node option list \<times> hash_local_presentation list \<times> hash_local_presentation list
    \<Rightarrow> bool" where
  "loop_inv N r m d b xs len k s \<longleftrightarrow> (case s of (st, slots, input, scr) \<Rightarrow>
     st = bucket_start b xs k \<and> length slots = 256 \<and> (\<forall>v < k. slot_done N r m d b xs slots v) \<and>
     (\<forall>v < 256. k \<le> v \<longrightarrow> slots ! v = None) \<and>
     drop (bucket_start b xs k) input = drop (bucket_start b xs k) (sort_key (\<lambda>x. hash_byte x b) xs) \<and>
     mset input = mset xs \<and> length scr = len)"

lemma turn_ok:
  assumes gen: "builds N r gen m" and r: "1 \<le> r" and N: "N \<le> 64" and room: "length xs \<le> len"
    and k: "k < 256" and inv: "loop_inv N r m d b xs len k s"
    and uniq: "unique_on (set (unused_bytes N m)) {#x \<in># mset xs. hash_byte x b = k#}"
  shows "\<exists>s'. fill_slot N r gen (byte_counts xs b) m d s k = Inr s' \<and> loop_inv N r m d b xs len (Suc k) s'"
proof -
  obtain st slots input scr where s: "s = (st, slots, input, scr)" by (cases s)
  have I: "st = bucket_start b xs k" "length slots = 256" "\<forall>v < k. slot_done N r m d b xs slots v"
    "\<forall>v < 256. k \<le> v \<longrightarrow> slots ! v = None" "drop (bucket_start b xs k) input = drop (bucket_start b xs k) (sort_key (\<lambda>x. hash_byte x b) xs)"
    "mset input = mset xs" "length scr = len"
    using inv unfolding loop_inv_def s split by blast+
  let ?B = "bucket b k xs"
  have seg: "take (length ?B) (drop (bucket_start b xs k) input) = ?B" "bucket_start b xs k + length ?B \<le> length xs"
    using bucket_segment [OF k, of b xs] by (simp_all only: I(5))
  have leni: "length input = length xs" using I(6) by (rule mset_eq_length)
  have count: "byte_counts xs b ! k = length ?B" using k by (simp add: byte_counts_nth)
  have rest: "drop (bucket_start b xs k + length ?B) input = drop (bucket_start b xs k + length ?B) (sort_key (\<lambda>x. hash_byte x b) xs)"
    using arg_cong [OF I(5), of "drop (length ?B)"] by (simp only: drop_drop add.commute)
  have inv': "loop_inv N r m d b xs len (Suc k) (bucket_start b xs k + length ?B, slots', input', scr')"
    if "slots' = slots[k := o']" "mset input' = mset input"
      "drop (bucket_start b xs k + length ?B) input' = drop (bucket_start b xs k + length ?B) input"
      "length scr' = len" "slot_done N r m d b xs (slots[k := o']) k" for slots' input' scr' o'
    using that I k rest by (auto simp: loop_inv_def nth_list_update less_Suc_eq)
  consider "?B = []" | x where "?B = [x]" | "2 \<le> length ?B"
    by (cases ?B; cases "tl ?B") auto
  then show ?thesis
  proof cases
    case 1
    have "slot_done N r m d b xs (slots[k := None]) k" using I k 1 by (simp flip: mset_filter)
    then have "loop_inv N r m d b xs len (Suc k) (bucket_start b xs k + length ?B, slots[k := None], input, scr)"
      using I by (intro inv' [of _ None]) auto
    moreover have "slots[k := None] = slots" using I(2,4) k by (simp add: list_update_same_conv)
    ultimately show ?thesis using 1 count I by (simp add: s fill_slot_def)
  next
    case (2 x)
    have "input ! bucket_start b xs k = x" "bucket_start b xs k < length input"
      using seg 2 leni by (auto simp: take_Suc_conv_app_nth hd_drop_conv_nth [symmetric] take_Suc)
    moreover have "{#x \<in># mset xs. hash_byte x b = k#} = {#x#}" using 2 by (simp flip: mset_filter)
    ultimately show ?thesis
      using 2 count I k
        inv' [of _ "Some (Leaf_Node (d + 1) \<lparr>reassurance_hash_bytes = leaf_bytes r (hlp_hash x) (unused_bytes N m),
                      leaf_presentation_index = hlp_pi x\<rparr>)" input scr]
      by (auto simp: s fill_slot_def buf_simps make_leaf_node_ok [OF r N] intro: tree_over.leaf)
  next
    case 3
    have "unique_on (set (unused_bytes N m)) (mset ?B)" using uniq by simp
    moreover have "length ?B \<le> length scr" using seg(2) I room by linarith
    ultimately obtain n B' scr' where g: "gen ?B m (d + 1) scr = Inr (n, B', scr')" "mset B' = mset ?B"
      "length scr' = length scr" "tree_over N r m (d + 1) n (mset ?B)"
      using 3 gen unfolding builds_def by fastforce
    have lB: "length B' = length ?B" using g(2) by (metis mset_eq_length)
    let ?input' = "take (bucket_start b xs k) input @ B' @ drop (bucket_start b xs k + length ?B) input"
    have "input = take (bucket_start b xs k) input @ take (length ?B) (drop (bucket_start b xs k) input) @ drop (bucket_start b xs k + length ?B) input"
      by (rule take_take_drop)
    then have input: "input = take (bucket_start b xs k) input @ ?B @ drop (bucket_start b xs k + length ?B) input"
      by (simp only: seg(1))
    have "mset ?input' = mset input" by (subst (3) input) (simp add: g(2))
    moreover have "drop (bucket_start b xs k + length ?B) ?input' = drop (bucket_start b xs k + length ?B) input"
      using lB seg(2) leni by simp
    moreover have "slot_done N r m d b xs (slots[k := Some n]) k" using g(4) I k by simp
    ultimately have "loop_inv N r m d b xs len (Suc k) (bucket_start b xs k + length ?B, slots[k := Some n], ?input', scr')"
      using g(3) I by (intro inv' [of _ "Some n"]) auto
    moreover have "fill_slot N r gen (byte_counts xs b) m d s k = Inr (bucket_start b xs k + length ?B, slots[k := Some n], ?input', scr')"
      using 3 count I seg g(1) lB leni by (simp add: s fill_slot_def buf_simps)
    ultimately show ?thesis by blast
  qed
qed

lemma turn_dup:
  assumes gen: "builds N r gen m" and r: "1 \<le> r" and N: "N \<le> 64" and room: "length xs \<le> len"
    and k: "k < 256" and inv: "loop_inv N r m d b xs len k s"
    and dup: "\<not> unique_on (set (unused_bytes N m)) {#x \<in># mset xs. hash_byte x b = k#}"
  shows "fill_slot N r gen (byte_counts xs b) m d s k = Inl duplicate_fault"
proof -
  obtain st slots input scr where s: "s = (st, slots, input, scr)" by (cases s)
  have I: "st = bucket_start b xs k" "length slots = 256" "\<forall>v < k. slot_done N r m d b xs slots v"
    "\<forall>v < 256. k \<le> v \<longrightarrow> slots ! v = None" "drop (bucket_start b xs k) input = drop (bucket_start b xs k) (sort_key (\<lambda>x. hash_byte x b) xs)"
    "mset input = mset xs" "length scr = len"
    using inv unfolding loop_inv_def s split by blast+
  let ?B = "bucket b k xs"
  have seg: "take (length ?B) (drop (bucket_start b xs k) input) = ?B" "bucket_start b xs k + length ?B \<le> length xs"
    using bucket_segment [OF k, of b xs] by (simp_all only: I(5))
  have leni: "length input = length xs" using I(6) by (rule mset_eq_length)
  have count: "byte_counts xs b ! k = length ?B" using k by (simp add: byte_counts_nth)
  have two: "2 \<le> length ?B"
    using dup unique_on_small [of "mset ?B"] by (cases "2 \<le> length ?B") (auto simp: not_le simp flip: mset_filter)
  have "length ?B \<le> length scr" using seg(2) I room by linarith
  with two have "gen ?B m (d + 1) scr = Inl duplicate_fault"
    using gen dup unfolding builds_def by (simp flip: mset_filter)
  then show ?thesis using two count I seg leni by (simp add: s fill_slot_def buf_simps)
qed

lemma loop_prefix:
  assumes gen: "builds N r gen m" and r: "1 \<le> r" and N: "N \<le> 64" and room: "length xs \<le> len"
    and k: "k \<le> 256" and uniq: "\<forall>v < k. unique_on (set (unused_bytes N m)) {#x \<in># mset xs. hash_byte x b = v#}"
    and scr: "length scr = len"
  shows "\<exists>s. rfold (fill_slot N r gen (byte_counts xs b) m d)
      (0, replicate 256 None, (sort_key (\<lambda>x. hash_byte x b) xs), scr) [0..<k] = Inr s \<and> loop_inv N r m d b xs len k s"
  using k uniq
proof (induction k)
  case 0
  then show ?case using scr by (simp add: loop_inv_def)
next
  case (Suc k)
  then obtain s where s: "rfold (fill_slot N r gen (byte_counts xs b) m d)
      (0, replicate 256 None, (sort_key (\<lambda>x. hash_byte x b) xs), scr) [0..<k] = Inr s" "loop_inv N r m d b xs len k s"
    by auto
  moreover obtain s' where "fill_slot N r gen (byte_counts xs b) m d s k = Inr s'" "loop_inv N r m d b xs len (Suc k) s'"
    using turn_ok [OF gen r N room, of k d b s] Suc.prems s(2) by auto
  ultimately show ?case by (simp add: rfold_append)
qed

lemma loop_dup:
  assumes gen: "builds N r gen m" and r: "1 \<le> r" and N: "N \<le> 64" and room: "length xs \<le> len"
    and v: "v < 256" and dup: "\<not> unique_on (set (unused_bytes N m)) {#x \<in># mset xs. hash_byte x b = v#}"
    and scr: "length scr = len"
  shows "rfold (fill_slot N r gen (byte_counts xs b) m d)
      (0, replicate 256 None, (sort_key (\<lambda>x. hash_byte x b) xs), scr) [0..<256] = Inl duplicate_fault"
proof -
  let ?Q = "\<lambda>v. \<not> unique_on (set (unused_bytes N m)) {#x \<in># mset xs. hash_byte x b = v#}"
  define k where "k = (LEAST v. ?Q v)"
  have k: "?Q k" "k \<le> v" unfolding k_def using LeastI [of ?Q v] Least_le [of ?Q v] dup by blast+
  have "\<forall>u < k. \<not> ?Q u" unfolding k_def using not_less_Least by blast
  then obtain s where "rfold (fill_slot N r gen (byte_counts xs b) m d)
      (0, replicate 256 None, (sort_key (\<lambda>x. hash_byte x b) xs), scr) [0..<k] = Inr s" "loop_inv N r m d b xs len k s"
    using loop_prefix [OF gen r N room, of k b scr d] k(2) v scr by auto
  moreover have "[0..<256] = [0..<k] @ k # [Suc k..<256]" using k(2) v by (intro upt_split) simp
  ultimately show ?thesis using turn_dup [OF gen r N room, of k d b s] k v by (simp add: rfold_append)
qed

lemma generate_builds:
  assumes "1 \<le> r" "N \<le> 64"
  shows "length (unused_bytes N m) < fuel \<Longrightarrow> \<forall>i. bit m i \<longrightarrow> i < N \<Longrightarrow>
    builds N r (recurse_generate_node fuel N r) m"
proof (induction fuel arbitrary: m)
  case 0
  then show ?case by simp
next
  case (Suc fuel)
  let ?U = "unused_bytes N m"
  show ?case
    unfolding builds_def
  proof (intro allI impI, elim conjE)
    fix xs scratch :: "hash_local_presentation list" and d
    assume two: "2 \<le> length xs" and room: "length xs \<le> length scratch"
    let ?goal = "if unique_on (set ?U) (mset xs)
      then \<exists>n xs' scratch'. recurse_generate_node (Suc fuel) N r xs m d scratch = Inr (n, xs', scratch') \<and>
             mset xs' = mset xs \<and> length scratch' = length scratch \<and> tree_over N r m d n (mset xs)
      else recurse_generate_node (Suc fuel) N r xs m d scratch = Inl duplicate_fault"
    show ?goal
    proof (cases "m = 0")
      case True
      then have "?U = []" by (simp add: unused_bytes_def)
      then have "\<not> unique_on (set ?U) (mset xs)" using two not_unique_on_empty [of "mset xs"] by simp
      with True two show ?thesis by simp
    next
      case False
      define b where "b = best_byte_index N xs m"
      let ?m = "clear_byte b m"
      obtain i where "bit m i" using False by (metis bit_0_eq bit_eqI bot_apply bot_bool_def)
      then have "i \<in> set ?U" using Suc.prems by (simp add: set_unused_bytes)
      then have ne: "?U \<noteq> []" by auto
      then have b: "b \<in> set ?U" using best_byte_choice(1) [OF assms(2), of m xs] using ne by (auto simp: b_def)
      then have b64: "b < 64" using assms(2) by (simp add: set_unused_bytes)
      have gen: "builds N r (recurse_generate_node fuel N r) ?m"
        using Suc.IH [of ?m] Suc.prems unused_bytes_clear [OF b assms(2)] b64 by (simp add: bit_clear_byte)
      have U': "set (unused_bytes N ?m) = set ?U - {b}"
        using unused_bytes_clear(1) [OF b assms(2)] by auto
      obtain scr where scr: "bucket_partition_by_byte xs b scratch =
          Inr (byte_counts xs b, sort_key (\<lambda>x. hash_byte x b) xs, scr)" "length scr = length scratch"
        using bucket_partition_ok [OF room, of b] by blast
      let ?loop = "rfold (fill_slot N r (recurse_generate_node fuel N r) (byte_counts xs b) ?m d)
        (0, replicate 256 None, sort_key (\<lambda>x. hash_byte x b) xs, scr) [0..<256]"
      have run: "recurse_generate_node (Suc fuel) N r xs m d scratch =
          rbind ?loop (\<lambda>(start_index, slots, input2, scratch2). Inr (Slots_Node d b slots, input2, scratch2))"
        using two False scr(1) by (simp add: b_def [symmetric] Let_def)
      have uniq: "unique_on (set ?U) (mset xs) \<longleftrightarrow>
          (\<forall>v < 256. unique_on (set (unused_bytes N ?m)) {#x \<in># mset xs. hash_byte x b = v#})"
        unfolding U' by (rule unique_on_split [OF b])
      show ?thesis
      proof (cases "unique_on (set ?U) (mset xs)")
        case True
        then obtain s where s: "?loop = Inr s" "loop_inv N r ?m d b xs (length scratch) 256 s"
          using loop_prefix [OF gen assms room, of 256 b scr d] scr(2) uniq by auto
        obtain st slots input scr' where s': "s = (st, slots, input, scr')" by (cases s)
        have I: "length slots = 256" "\<forall>v < 256. slot_done N r ?m d b xs slots v" "mset input = mset xs"
          "length scr' = length scratch"
          using s(2) unfolding loop_inv_def s' split by blast+
        have "tree_over N r m d (Slots_Node d b slots) (mset xs)"
          using b I(1,2) two best_byte_splits [OF True two _ assms(2) ne, folded b_def]
          by (intro tree_over.slots) auto
        then show ?thesis using True s(1) I by (simp add: run s' del: recurse_generate_node.simps)
      next
        case False
        then obtain v where "v < 256" "\<not> unique_on (set (unused_bytes N ?m)) {#x \<in># mset xs. hash_byte x b = v#}"
          using uniq by blast
        from loop_dup [OF gen assms room this scr(2), of d]
        show ?thesis using False by (simp add: run del: recurse_generate_node.simps)
      qed
    qed
  qed
qed

lemma distinct_map_count:
  "distinct (map f xs) \<longleftrightarrow> (\<forall>x \<in> set xs. length (filter (\<lambda>y. f y = f x) xs) \<le> 1)"
proof (induction xs)
  case Nil
  then show ?case by simp
next
  case (Cons a xs)
  show ?case
  proof (cases "f a \<in> f ` set xs")
    case True
    then obtain y where "y \<in> set xs" "f y = f a" by auto
    then have "0 < length (filter (\<lambda>y. f y = f a) xs)" by (auto simp: filter_empty_conv)
    then show ?thesis using True by (auto intro!: bexI [of _ a])
  next
    case False
    then have "filter (\<lambda>y. f y = f a) xs = []" by (auto simp: filter_empty_conv intro: rev_image_eqI)
    moreover have "f a \<noteq> f x" if "x \<in> set xs" for x using False that by auto
    ultimately show ?thesis using False Cons.IH by auto
  qed
qed

lemma drop_eq_bytes:
  assumes "length g = N" "length h = N"
  shows "drop k g = drop k h \<longleftrightarrow> (\<forall>b \<in> {k..<N}. g ! b = h ! b)"
proof
  assume eq: "drop k g = drop k h"
  show "\<forall>b \<in> {k..<N}. g ! b = h ! b"
  proof
    fix b assume "b \<in> {k..<N}"
    then show "g ! b = h ! b" using arg_cong [OF eq, of "\<lambda>l. l ! (b - k)"] assms by simp
  qed
next
  assume "\<forall>b \<in> {k..<N}. g ! b = h ! b"
  then show "drop k g = drop k h" using assms by (intro nth_equalityI) auto
qed

lemma unique_on_distinct:
  assumes "\<forall>x \<in> set xs. hash_wf N (hlp_hash x)"
  shows "unique_on {k..<N} (mset xs) \<longleftrightarrow> distinct (map (\<lambda>x. drop k (hlp_hash x)) xs)"
proof -
  have "filter (\<lambda>y. \<forall>b \<in> {k..<N}. hash_byte y b = hash_byte x b) xs =
      filter (\<lambda>y. drop k (hlp_hash y) = drop k (hlp_hash x)) xs" if "x \<in> set xs" for x
    using assms that
    by (intro filter_cong refl) (auto simp: drop_eq_bytes hash_wf_def hash_byte_def word_unat_eq_iff)
  then show ?thesis unfolding unique_on_def distinct_map_count by (simp flip: mset_filter)
qed

section \<open>The tree as a whole\<close>

text \<open>What the constructor builds.\<close>

definition shallow_tree_inv :: "nat \<Rightarrow> shallow_tree \<Rightarrow> hash_local_presentation list \<Rightarrow> bool" where
  "shallow_tree_inv N tree xs \<longleftrightarrow>
     (let handled = handled_bytes (sh_ls_tail_bits_count tree) in
      1 \<le> N \<and> N \<le> 64 \<and> handled \<le> N \<and> 1 \<le> sh_reassurance_bytes_count tree \<and>
      sh_hash_count tree = length xs \<and> (\<forall>x \<in> set xs. hash_wf N (hlp_hash x)) \<and>
      (case root_slot tree of None \<Rightarrow> xs = []
       | Some n \<Rightarrow> tree_over N (sh_reassurance_bytes_count tree)
           (initial_unused_mask N handled) handled n (mset xs)))"

lemma mk_shallow_tree_cases:
  assumes "1 \<le> N" "N \<le> 64" "handled_bytes tail \<le> N" "1 \<le> r"
    and "\<forall>x \<in> set xs. hash_wf N (hlp_hash x)"
  shows "if distinct (map (\<lambda>x. drop (handled_bytes tail) (hlp_hash x)) xs)
    then \<exists>tree xs'. mk_shallow_tree N xs tail r = Inr (tree, xs') \<and> mset xs' = mset xs \<and>
           sh_ls_tail_bits_count tree = tail \<and> sh_reassurance_bytes_count tree = r \<and>
           shallow_tree_inv N tree xs
    else mk_shallow_tree N xs tail r = Inl duplicate_fault"
proof -
  let ?h = "handled_bytes tail"
  let ?m = "initial_unused_mask N ?h"
  have U: "unused_bytes N ?m = [?h..<N]" using assms by (intro unused_bytes_initial)
  consider "xs = []" | x where "xs = [x]" | "2 \<le> length xs" by (cases xs; cases "tl xs") auto
  then show ?thesis
  proof cases
    case 1
    then show ?thesis using assms by (simp add: mk_shallow_tree_def shallow_tree_inv_def Let_def)
  next
    case (2 x)
    then show ?thesis using assms tree_over.leaf [of N r ?m ?h x]
      by (simp add: mk_shallow_tree_def shallow_tree_inv_def Let_def make_leaf_node_ok)
  next
    case 3
    let ?scr = "replicate (length xs) (blank_presentation N)"
    have builds: "builds N r (recurse_generate_node (N + 1) N r) ?m"
      using assms U by (intro generate_builds) (auto simp: bit_initial_unused_mask)
    have uniq: "unique_on (set (unused_bytes N ?m)) (mset xs) \<longleftrightarrow>
        distinct (map (\<lambda>x. drop ?h (hlp_hash x)) xs)"
      using unique_on_distinct [OF assms(5)] by (simp add: U)
    have gen: "if distinct (map (\<lambda>x. drop ?h (hlp_hash x)) xs)
      then \<exists>n xs' scratch'. recurse_generate_node (N + 1) N r xs ?m ?h
               (replicate (length xs) (blank_presentation N)) = Inr (n, xs', scratch') \<and>
             mset xs' = mset xs \<and> tree_over N r ?m ?h n (mset xs)
      else recurse_generate_node (N + 1) N r xs ?m ?h (replicate (length xs) (blank_presentation N)) =
             Inl duplicate_fault"
      using builds [unfolded builds_def, rule_format, of xs ?scr ?h] 3
      unfolding uniq by (auto simp del: recurse_generate_node.simps)
    have run: "mk_shallow_tree N xs tail r =
      rbind (recurse_generate_node (N + 1) N r xs ?m ?h (replicate (length xs) (blank_presentation N)))
        (\<lambda>(node, input', scratch). Inr (\<lparr>sh_ls_tail_bits_count = tail, sh_reassurance_bytes_count = r,
                  sh_hash_count = length xs, root_slot = Some node\<rparr>, input'))"
      using 3 assms by (auto simp add: mk_shallow_tree_def Let_def simp del: recurse_generate_node.simps)
    show ?thesis
    proof (cases "distinct (map (\<lambda>x. drop ?h (hlp_hash x)) xs)")
      case True
      then obtain n xs' scr where "recurse_generate_node (N + 1) N r xs ?m ?h
          (replicate (length xs) (blank_presentation N)) = Inr (n, xs', scr)"
        "mset xs' = mset xs" "tree_over N r ?m ?h n (mset xs)" using gen by auto
      with True assms show ?thesis
        unfolding run by (simp add: shallow_tree_inv_def Let_def del: recurse_generate_node.simps)
    next
      case False
      with gen show ?thesis unfolding run by (simp del: recurse_generate_node.simps)
    qed
  qed
qed

lemma root_lookup:
  assumes "shallow_tree_inv N tree xs"
  defines "handled \<equiv> handled_bytes (sh_ls_tail_bits_count tree)"
  shows "lookup_hash_unique_reassured_candidate N tree t =
    (if xs = [] \<or> length t \<noteq> N then Inr LOCAL_PI_NO_MATCH
     else lookup_from N (sh_reassurance_bytes_count tree) t (initial_unused_mask N handled) (the (root_slot tree)))"
proof -
  have "\<not> tree_over N r m d n {#}" for r m d n by (auto elim: tree_over.cases)
  with assms show ?thesis
    by (auto simp: lookup_hash_unique_reassured_candidate_def shallow_tree_inv_def Let_def split: option.splits)
qed

lemma root_tree:
  assumes "shallow_tree_inv N tree xs" "xs \<noteq> []"
  defines "handled \<equiv> handled_bytes (sh_ls_tail_bits_count tree)"
  shows "tree_over N (sh_reassurance_bytes_count tree) (initial_unused_mask N handled) handled
     (the (root_slot tree)) (mset xs)"
    and "unused_bytes N (initial_unused_mask N handled) = [handled..<N]"
  using assms by (auto simp: shallow_tree_inv_def Let_def unused_bytes_initial split: option.splits)

lemma tree_lookup_member:
  assumes "shallow_tree_inv N tree xs" "x \<in> set xs" "length t = N"
    and "drop (handled_bytes (sh_ls_tail_bits_count tree)) t =
         drop (handled_bytes (sh_ls_tail_bits_count tree)) (hlp_hash x)"
  shows "lookup_hash_unique_reassured_candidate N tree t = Inr (hlp_pi x)"
proof -
  have ne: "xs \<noteq> []" using assms(2) by auto
  have "length (hlp_hash x) = N" "1 \<le> sh_reassurance_bytes_count tree" "N \<le> 64"
    using assms(1,2) by (auto simp: shallow_tree_inv_def hash_wf_def Let_def)
  then show ?thesis
    using tree_lookup_complete [OF root_tree(1) [OF assms(1) ne], of t x] root_tree(2) [OF assms(1) ne]
      assms ne drop_eq_bytes [of t N "hlp_hash x"]
    by (simp add: root_lookup [OF assms(1)] del: lookup_from.simps)
qed

lemma length_filter_upt: "length (filter P [k..<n]) = card {b \<in> {k..<n}. P b}"
  using distinct_card [of "filter P [k..<n]"] by simp

lemma tree_lookup_candidate:
  assumes "shallow_tree_inv N tree xs" "length t = N"
  defines "handled \<equiv> handled_bytes (sh_ls_tail_bits_count tree)"
  shows "\<exists>p. lookup_hash_unique_reassured_candidate N tree t = Inr p \<and>
    (p = LOCAL_PI_NO_MATCH \<or> (\<exists>x \<in> set xs. hlp_pi x = p \<and>
       min (sh_reassurance_bytes_count tree) (N - handled)
         \<le> card {b \<in> {handled..<N}. t ! b = hlp_hash x ! b}))"
proof (cases "xs = []")
  case True
  then show ?thesis using root_lookup [OF assms(1)] by simp
next
  case False
  note tree = root_tree [OF assms(1) False, folded handled_def]
  have r: "1 \<le> sh_reassurance_bytes_count tree" "N \<le> 64"
    using assms(1) by (auto simp: shallow_tree_inv_def Let_def)
  obtain p where p: "lookup_from N (sh_reassurance_bytes_count tree) t (initial_unused_mask N handled)
      (the (root_slot tree)) = Inr p"
    using tree_lookup_total [OF tree(1) r assms(2)] by blast
  show ?thesis
    using tree_lookup_sound [OF tree(1) r assms(2) p] p False assms(2)
    by (auto simp: root_lookup [OF assms(1), folded handled_def] tree(2) length_filter_upt simp del: lookup_from.simps)
qed

subsection \<open>Visits\<close>

text \<open>The nodes of a tree in the order in which the stack yields them.\<close>

function visit_order :: "shallow_node \<Rightarrow> shallow_node list" where
  "visit_order (Leaf_Node d lf) = [Leaf_Node d lf]"
| "visit_order (Slots_Node d b slots) =
     Slots_Node d b slots #
     concat (map (\<lambda>slot. case slot of None \<Rightarrow> [] | Some n \<Rightarrow> visit_order n) (rev slots))"
  by pat_completeness auto
termination visit_order
  by (relation "measure size") (auto dest!: size_slot_less)

lemma push_children_eq:
  "push_children slots stack =
     concat (map (\<lambda>slot. case slot of None \<Rightarrow> [] | Some n \<Rightarrow> [n]) (rev slots)) @ stack"
  unfolding push_children_def
  by (induction slots arbitrary: stack) (auto split: option.splits)

lemma visit_stack_eq:
  "visit_stack visitor stack s = foldl visitor s (concat (map visit_order stack))"
proof (induction visitor stack s rule: visit_stack.induct)
  case (3 visitor d b slots stack s)
  have "concat (map visit_order (concat (map (\<lambda>slot. case slot of None \<Rightarrow> [] | Some n \<Rightarrow> [n]) xs))) =
      concat (map (\<lambda>slot. case slot of None \<Rightarrow> [] | Some n \<Rightarrow> visit_order n) xs)" for xs
    by (induction xs) (auto split: option.splits)
  with 3 show ?case by (simp add: push_children_eq)
qed auto

fun leaf_pi :: "shallow_node \<Rightarrow> local_pi" where
  "leaf_pi (Leaf_Node d lf) = leaf_presentation_index lf"
| "leaf_pi (Slots_Node d b slots) = LOCAL_PI_NO_MATCH"

abbreviation slot_nodes :: "shallow_node option \<Rightarrow> shallow_node list" where
  "slot_nodes slot \<equiv> (case slot of None \<Rightarrow> [] | Some n \<Rightarrow> visit_order n)"

lemma mset_visit_slots:
  "mset (visit_order (Slots_Node d b slots)) =
     {#Slots_Node d b slots#} + (\<Sum>v < length slots. mset (slot_nodes (slots ! v)))"
proof -
  have "mset (concat (map slot_nodes (rev slots))) = (\<Sum>v < length slots. mset (slot_nodes (slots ! v)))"
    by (induction slots rule: rev_induct) (simp_all add: nth_append)
  then show ?thesis by simp
qed

lemma sum_filter_byte: "(\<Sum>v < 256. {#x \<in># M. hash_byte x b = v#}) = M"
proof (induction M)
  case empty
  then show ?case by simp
next
  case (add a M)
  have "(\<Sum>v < 256. {#x \<in># add_mset a M. hash_byte x b = v#}) =
      (\<Sum>v < 256. {#x \<in># M. hash_byte x b = v#} + (if v = hash_byte a b then {#a#} else {#}))"
    by (intro sum.cong) auto
  also have "\<dots> = M + {#a#}" by (simp add: sum.distrib add.IH)
  finally show ?case by simp
qed

lemma tree_leaves:
  assumes "tree_over N r m d n M"
  shows "image_mset leaf_pi (filter_mset node_is_leaf (mset (visit_order n))) = image_mset hlp_pi M"
  using assms
proof (induction rule: tree_over.induct)
  case (leaf m d x)
  then show ?case by simp
next
  case (slots b m slots M d)
  have part: "image_mset leaf_pi (filter_mset node_is_leaf (mset (slot_nodes (slots ! v)))) =
      image_mset hlp_pi {#x \<in># M. hash_byte x b = v#}" if "v < 256" for v
    using slots.IH that by auto
  have filter: "filter_mset node_is_leaf (\<Sum>v < k. F v) = (\<Sum>v < k. filter_mset node_is_leaf (F v))" for F and k :: nat
    by (induction k) auto
  have image: "image_mset f (\<Sum>v < k. F v) = (\<Sum>v < k. image_mset f (F v))" for f F and k :: nat
    by (induction k) auto
  have "image_mset leaf_pi (filter_mset node_is_leaf (mset (visit_order (Slots_Node d b slots)))) =
      (\<Sum>v < 256. image_mset leaf_pi (filter_mset node_is_leaf (mset (slot_nodes (slots ! v)))))"
    by (simp only: mset_visit_slots slots(2) filter_union_mset filter image image_mset_union) simp
  also have "\<dots> = (\<Sum>v < 256. image_mset hlp_pi {#x \<in># M. hash_byte x b = v#})"
    by (intro sum.cong refl part) simp
  also have "\<dots> = image_mset hlp_pi M" by (simp only: image [symmetric] sum_filter_byte)
  finally show ?case .
qed

lemma tree_levels:
  assumes "tree_over N r m d n M" "N \<le> 64" "n' \<in> set (visit_order n)"
  shows "d \<le> level_byte_depth n' \<and> level_byte_depth n' \<le> d + length (unused_bytes N m)"
  using assms(1,3)
proof (induction rule: tree_over.induct)
  case (leaf m d x)
  then show ?case by simp
next
  case (slots b m slots M d)
  show ?case
  proof (cases "n' = Slots_Node d b slots")
    case False
    then obtain n where n: "Some n \<in> set slots" "n' \<in> set (visit_order n)"
      using slots.prems by (auto split: option.splits)
    then obtain v where v: "v < 256" "slots ! v = Some n" using slots(2) by (auto simp: in_set_conv_nth)
    then have "d + 1 \<le> level_byte_depth n' \<and>
        level_byte_depth n' \<le> d + 1 + length (unused_bytes N (clear_byte b m))"
      using slots.IH n(2) by auto
    then show ?thesis using unused_bytes_clear(2) [OF slots(1) assms(2)] by auto
  qed simp
qed

text \<open>Every inner node has two children or more, so the number of nodes is linear.\<close>

lemma tree_size:
  assumes "tree_over N r m d n M" "size M \<le> exact_size"
  shows "length (visit_order n) + 1 \<le> 2 * size M"
  using assms
proof (induction rule: tree_over.induct)
  case (leaf m d x)
  then show ?case by simp
next
  case (slots b m slots M d)
  let ?c = "\<lambda>v. size {#x \<in># M. hash_byte x b = v#}"
  have le: "?c v \<le> exact_size" for v
    using slots.prems size_filter_mset_lesseq order_trans by blast
  have part: "length (slot_nodes (slots ! v)) + (if 0 < ?c v then 1 else 0) \<le> 2 * ?c v" if "v < 256" for v
    using slots.IH that le [of v] by auto
  obtain x y where xy: "x \<in># M" "y \<in># M" "hash_byte x b \<noteq> hash_byte y b"
    using slots(4) slots.prems by blast
  have pos: "0 < ?c (hash_byte z b)" if "z \<in># M" for z
  proof -
    have "z \<in># {#x \<in># M. hash_byte x b = hash_byte z b#}" using that by simp
    then show ?thesis by (metis empty_iff nonempty_has_size set_mset_empty)
  qed
  have "card {hash_byte x b, hash_byte y b} \<le> card {v. v < 256 \<and> 0 < ?c v}"
    using xy pos by (intro card_mono) auto
  then have two: "2 \<le> (\<Sum>v < 256. if 0 < ?c v then 1 else (0 :: nat))"
    using xy(3) by (simp add: sum.If_cases lessThan_def Int_def conj_commute)
  have total: "(\<Sum>v < 256. ?c v) = size M"
  proof -
    have "size (\<Sum>v < k. F v) = (\<Sum>v < k. size (F v))" for F :: "nat \<Rightarrow> 'b multiset" and k
      by (induction k) auto
    from this [of "\<lambda>v. {#x \<in># M. hash_byte x b = v#}" 256] show ?thesis by (simp only: sum_filter_byte)
  qed
  have "(\<Sum>v < 256. length (slot_nodes (slots ! v))) + 2 \<le>
      (\<Sum>v < 256. length (slot_nodes (slots ! v)) + (if 0 < ?c v then 1 else 0))"
    using two by (simp add: sum.distrib)
  also have "\<dots> \<le> (\<Sum>v < 256. 2 * ?c v)" by (intro sum_mono part) simp
  also have "\<dots> = 2 * size M" by (simp only: total flip: sum_distrib_left)
  finally have "(\<Sum>v < 256. length (slot_nodes (slots ! v))) + 2 \<le> 2 * size M" .
  moreover have "length (visit_order (Slots_Node d b slots)) = 1 + (\<Sum>v < 256. length (slot_nodes (slots ! v)))"
  proof -
    have "size (\<Sum>v < k. F v) = (\<Sum>v < k. size (F v))" for F :: "nat \<Rightarrow> 'b multiset" and k
      by (induction k) auto
    then show ?thesis
      using arg_cong [OF mset_visit_slots [of d b slots], of size] slots(2)
      by (simp del: visit_order.simps)
  qed
  ultimately show ?case by linarith
qed

lemma mk_shallow_tree_built:
  assumes "mk_shallow_tree N xs tail r = Inr (tree, xs')" "1 \<le> r" "\<forall>x \<in> set xs. hash_wf N (hlp_hash x)"
  shows "shallow_tree_inv N tree xs" "mset xs' = mset xs" "sh_ls_tail_bits_count tree = tail"
    "sh_reassurance_bytes_count tree = r" "distinct (map (\<lambda>x. drop (handled_bytes tail) (hlp_hash x)) xs)"
proof -
  have "1 \<le> N" "N \<le> 64" "handled_bytes tail \<le> N"
    using assms(1) by (auto simp: mk_shallow_tree_def Let_def split: if_splits)
  from mk_shallow_tree_cases [OF this assms(2,3)]
  show "shallow_tree_inv N tree xs" "mset xs' = mset xs" "sh_ls_tail_bits_count tree = tail"
    "sh_reassurance_bytes_count tree = r" "distinct (map (\<lambda>x. drop (handled_bytes tail) (hlp_hash x)) xs)"
    using assms(1) by (auto split: if_splits)
qed

section \<open>Properties\<close>

lemma handled_bytes_0 [simp]: "handled_bytes 0 = 0"
  by (simp add: handled_bytes_def)

abbreviation two_presentations :: "hash_local_presentation list" where
  "two_presentations \<equiv> [\<lparr>hlp_hash = [1, 2], hlp_pi = LocalPi 0\<rparr>, \<lparr>hlp_hash = [3, 2], hlp_pi = LocalPi 1\<rparr>]"

lemma two_presentations_tree:
  "\<exists>tree xs'. mk_shallow_tree 2 two_presentations 0 1 = Inr (tree, xs')"
  using mk_shallow_tree_cases [of 2 0 1 two_presentations] by (auto simp: hash_wf_def)

text \<open>C21: If no two of the given hashes agree on all their bytes above the ignored tail, the constructor,
asked for at least one reassurance byte, returns (the entropy-driven recursion ends, without undefined behaviour) a tree that finds every given
hash, whatever its tail bytes, with its own presentation index; the span is only permuted.\<close>

theorem shallow_tree_finds_every_hash:
  assumes "1 \<le> N" "N \<le> 64" "handled_bytes tail \<le> N" "1 \<le> r"
    and "\<forall>x \<in> set xs. hash_wf N (hlp_hash x)"
    and "distinct (map (\<lambda>x. drop (handled_bytes tail) (hlp_hash x)) xs)"
  shows "\<exists>tree xs'. mk_shallow_tree N xs tail r = Inr (tree, xs') \<and> mset xs' = mset xs \<and>
    hash_count tree = length xs \<and>
    (\<forall>x \<in> set xs. \<forall>t. length t = N \<and> drop (handled_bytes tail) t = drop (handled_bytes tail) (hlp_hash x) \<longrightarrow>
       lookup_hash_unique_reassured_candidate N tree t = Inr (hlp_pi x))"
proof -
  obtain tree xs' where built: "mk_shallow_tree N xs tail r = Inr (tree, xs')"
    using mk_shallow_tree_cases [OF assms(1-5)] assms(6) by auto
  note B = mk_shallow_tree_built [OF built assms(4,5)]
  have "hash_count tree = length xs" using B(1) by (simp add: shallow_tree_inv_def hash_count_def Let_def)
  then show ?thesis using built B(2) tree_lookup_member [OF B(1)] B(3) by blast
qed

theorem shallow_tree_finds_every_hash_witness:
  "\<exists>tree xs'. mk_shallow_tree 2 two_presentations 0 1 = Inr (tree, xs') \<and>
    lookup_hash_unique_reassured_candidate 2 tree [3, 2] = Inr (LocalPi 1)"
proof -
  obtain tree xs' where T: "mk_shallow_tree 2 two_presentations 0 1 = Inr (tree, xs')"
    "\<forall>x \<in> set two_presentations. \<forall>t. length t = 2 \<and> drop (handled_bytes 0) t = drop (handled_bytes 0) (hlp_hash x) \<longrightarrow>
       lookup_hash_unique_reassured_candidate 2 tree t = Inr (hlp_pi x)"
    using shallow_tree_finds_every_hash [of 2 0 1 two_presentations] by (auto simp: hash_wf_def)
  from T(2) have "lookup_hash_unique_reassured_candidate 2 tree [3, 2] = Inr (LocalPi 1)" by simp
  with T(1) show ?thesis by blast
qed

text \<open>C23: The constructor reports duplicates exactly when two of the given hashes agree on all their
bytes above the ignored tail; it then throws the documented exception, and in no other way.\<close>

theorem shallow_tree_reports_duplicates:
  assumes "1 \<le> N" "N \<le> 64" "handled_bytes tail \<le> N" "1 \<le> r"
    and "\<forall>x \<in> set xs. hash_wf N (hlp_hash x)"
  shows "mk_shallow_tree N xs tail r = Inl e \<longleftrightarrow>
    \<not> distinct (map (\<lambda>x. drop (handled_bytes tail) (hlp_hash x)) xs) \<and>
    e = Runtime_Error ''Duplicate hashes detected during tree generation!''"
  using mk_shallow_tree_cases [OF assms] by (auto split: if_splits)

theorem shallow_tree_reports_duplicates_witness:
  "mk_shallow_tree 2 two_presentations 8 1 =
     Inl (Runtime_Error ''Duplicate hashes detected during tree generation!'')"
  using shallow_tree_reports_duplicates [of 2 8 1 two_presentations]
  by (simp add: hash_wf_def handled_bytes_def)

text \<open>C22: With enough reassurance bytes to cover every byte above the tail, a lookup is exact: it answers
the index of the given hash that agrees with the target above the tail, and \<open>LOCAL_PI_NO_MATCH\<close> if
there is none or the target has another length.\<close>

theorem shallow_tree_lookup_exact:
  assumes "mk_shallow_tree N xs tail r = Inr (tree, xs')" "1 \<le> r" "N - handled_bytes tail \<le> r"
    and "\<forall>x \<in> set xs. hash_wf N (hlp_hash x)"
  shows "lookup_hash_unique_reassured_candidate N tree t =
    Inr (case find (\<lambda>x. length t = N \<and>
             drop (handled_bytes tail) (hlp_hash x) = drop (handled_bytes tail) t) xs of
           None \<Rightarrow> LOCAL_PI_NO_MATCH
         | Some x \<Rightarrow> hlp_pi x)"
proof -
  note B = mk_shallow_tree_built [OF assms(1,2,4)]
  let ?h = "handled_bytes tail"
  let ?P = "\<lambda>x. length t = N \<and> drop ?h (hlp_hash x) = drop ?h t"
  show ?thesis
  proof (cases "find ?P xs")
    case (Some x)
    then have "x \<in> set xs" "?P x" by (auto simp: find_Some_iff)
    then show ?thesis using tree_lookup_member [OF B(1), of x t] Some by (simp add: B(3))
  next
    case None
    then have none: "\<forall>x \<in> set xs. \<not> ?P x" by (simp add: find_None_iff)
    show ?thesis
    proof (cases "length t = N")
      case True
      obtain p where p: "lookup_hash_unique_reassured_candidate N tree t = Inr p"
        "p = LOCAL_PI_NO_MATCH \<or> (\<exists>x \<in> set xs. hlp_pi x = p \<and>
           min r (N - ?h) \<le> card {b \<in> {?h..<N}. t ! b = hlp_hash x ! b})"
        using tree_lookup_candidate [OF B(1) True] B(3,4) by auto
      have False if "x \<in> set xs" "min r (N - ?h) \<le> card {b \<in> {?h..<N}. t ! b = hlp_hash x ! b}" for x
      proof -
        have "card {?h..<N} \<le> card {b \<in> {?h..<N}. t ! b = hlp_hash x ! b}" using that(2) assms(3) by simp
        then have "{b \<in> {?h..<N}. t ! b = hlp_hash x ! b} = {?h..<N}" by (intro card_seteq) auto
        then have "\<forall>b \<in> {?h..<N}. hlp_hash x ! b = t ! b" by (metis (mono_tags, lifting) mem_Collect_eq)
        moreover have "length (hlp_hash x) = N" using assms(4) that(1) by (simp add: hash_wf_def)
        ultimately show False using none that(1) True drop_eq_bytes [of "hlp_hash x" N t ?h] by blast
      qed
      with p None show ?thesis by auto
    next
      case False
      then show ?thesis using None root_lookup [OF B(1), of t] by simp
    qed
  qed
qed

theorem shallow_tree_lookup_exact_witness:
  "\<exists>tree xs'. mk_shallow_tree 2 two_presentations 0 2 = Inr (tree, xs') \<and>
    lookup_hash_unique_reassured_candidate 2 tree [3, 7] = Inr LOCAL_PI_NO_MATCH"
proof -
  obtain tree xs' where T: "mk_shallow_tree 2 two_presentations 0 2 = Inr (tree, xs')"
    using mk_shallow_tree_cases [of 2 0 2 two_presentations] by (auto simp: hash_wf_def)
  with shallow_tree_lookup_exact [OF T, of "[3, 7]"] show ?thesis by (auto simp: hash_wf_def)
qed

text \<open>With \<open>r\<close> reassurance bytes a lookup always answers, and an index it answers belongs to a given
hash that agrees with the target on at least \<open>r\<close> of the bytes above the tail (on all of them if there
are fewer): a false positive is confined to the bytes that were never compared.\<close>

theorem shallow_tree_candidates_agree:
  assumes "mk_shallow_tree N xs tail r = Inr (tree, xs')" "1 \<le> r"
    and "\<forall>x \<in> set xs. hash_wf N (hlp_hash x)" "length t = N"
  shows "\<exists>p. lookup_hash_unique_reassured_candidate N tree t = Inr p \<and>
    (p = LOCAL_PI_NO_MATCH \<or> (\<exists>x \<in> set xs. hlp_pi x = p \<and>
       min r (N - handled_bytes tail)
         \<le> card {b \<in> {handled_bytes tail..<N}. t ! b = hlp_hash x ! b}))"
proof -
  note B = mk_shallow_tree_built [OF assms(1-3)]
  show ?thesis using tree_lookup_candidate [OF B(1) assms(4)] unfolding B(3,4) .
qed

theorem shallow_tree_candidates_agree_witness:
  "\<exists>tree xs' p. mk_shallow_tree 2 two_presentations 0 1 = Inr (tree, xs') \<and>
    lookup_hash_unique_reassured_candidate 2 tree [9, 9] = Inr p"
proof -
  obtain tree xs' where T: "mk_shallow_tree 2 two_presentations 0 1 = Inr (tree, xs')"
    using two_presentations_tree by blast
  with shallow_tree_candidates_agree [OF T, of "[9, 9]"] show ?thesis by (auto simp: hash_wf_def)
qed

text \<open>Both strategies return the same counts and put the same presentations into the order of the byte.\<close>

lemma partition_strategies_agree:
  assumes sort: "\<And>f ys. mset (ranges_sort f ys) = mset ys \<and> sorted (map f (ranges_sort f ys))"
    and "bucket_partition_by_byte xs b scratch = Inr (counts, xs', scratch')" "length xs \<le> length scratch"
    and "sort_partition_by_byte ranges_sort hash_byte xs b = (counts2, xs2)"
  shows "counts2 = counts" "mset xs2 = mset xs'" "map (\<lambda>x. hash_byte x b) xs2 = map (\<lambda>x. hash_byte x b) xs'"
proof -
  let ?ys = "ranges_sort (\<lambda>x. hash_byte x b) xs"
  have m: "mset ?ys = mset xs" and s: "sorted (map (\<lambda>x. hash_byte x b) ?ys)" using sort by blast+
  have B: "counts = byte_counts xs b" "xs' = sort_key (\<lambda>x. hash_byte x b) xs"
    using bucket_partition_ok [OF assms(3), of b] assms(2) by auto
  have S: "counts2 = byte_counts ?ys b" "xs2 = ?ys"
    using assms(4) by (auto simp: sort_partition_by_byte_def byte_counts_def Let_def)
  have "length (filter P ?ys) = length (filter P xs)" for P using m by (metis mset_filter size_mset)
  then show "counts2 = counts" using S(1) B(1) byte_counts_eq [of ?ys b] byte_counts_eq [of xs b] by simp
  show "mset xs2 = mset xs'" using S(2) B(2) m by simp
  have "mset (map (\<lambda>x. hash_byte x b) ?ys) = mset (map (\<lambda>x. hash_byte x b) (sort_key (\<lambda>x. hash_byte x b) xs))"
    using m by (simp only: mset_map mset_sort)
  from properties_for_sort [OF this s]
  show "map (\<lambda>x. hash_byte x b) xs2 = map (\<lambda>x. hash_byte x b) xs'"
    using S(2) B(2) by (simp add: sorted_sort_id)
qed

text \<open>C24: The bucket partition (counts, prefix sums, scatter through the scratch buffer, copy back) is the
stable sort by the byte, with the exact number of hashes per byte value, whenever the scratch buffer is
as long as the span; it never leaves the buffers.\<close>

theorem bucket_partition_is_stable_sort:
  assumes "length xs \<le> length scratch"
  shows "\<exists>scratch'. length scratch' = length scratch \<and>
    bucket_partition_by_byte xs b scratch =
      Inr (map (\<lambda>v. length (filter (\<lambda>x. hash_byte x b = v) xs)) [0..<256],
           sort_key (\<lambda>x. hash_byte x b) xs, scratch')"
  using bucket_partition_ok [OF assms, of b] byte_counts_eq [of xs b] by auto

theorem bucket_partition_is_stable_sort_witness:
  "\<exists>scratch' counts. bucket_partition_by_byte (rev two_presentations) 0 two_presentations =
     Inr (counts, two_presentations, scratch')"
  using bucket_partition_is_stable_sort [of "rev two_presentations" two_presentations 0]
  by (auto simp: hash_byte_def)

text \<open>C25: Visiting a built tree ends, calls the visitor once per leaf and inner node, on leaves that carry
exactly the given presentation indices; every node has a level of at most the hash length, and up to
94906265 hashes (where the metric is computed exactly) \<open>n\<close> hashes make at most \<open>2 n - 1\<close> nodes.\<close>

theorem shallow_tree_visit_bounds:
  assumes "mk_shallow_tree N xs tail r = Inr (tree, xs')" "1 \<le> r"
    and "\<forall>x \<in> set xs. hash_wf N (hlp_hash x)"
  defines "visited \<equiv> visit_all_nodes (\<lambda>l n. l @ [n]) tree []"
  shows "image_mset leaf_pi (mset (filter node_is_leaf visited)) = image_mset hlp_pi (mset xs) \<and>
    count_nodes tree = length visited \<and> (\<forall>n \<in> set visited. level_byte_depth n \<le> N) \<and>
    (length xs \<le> exact_size \<longrightarrow> count_nodes tree \<le> 2 * length xs - 1)"
proof (cases "xs = []")
  case True
  then have "root_slot tree = None"
    using assms(1) by (auto simp: mk_shallow_tree_def Let_def split: if_splits)
  then show ?thesis using True by (simp add: visited_def visit_all_nodes_def count_nodes_def)
next
  case False
  note B = mk_shallow_tree_built [OF assms(1-3)]
  obtain n where n: "root_slot tree = Some n"
    using B(1) False by (auto simp: shallow_tree_inv_def Let_def split: option.splits)
  note tree = root_tree [OF B(1) False, unfolded B(3,4) n option.sel]
  have N: "N \<le> 64" "handled_bytes tail \<le> N" using B(1,3) by (auto simp: shallow_tree_inv_def Let_def)
  have fold: "foldl (\<lambda>l n. l @ [n]) acc ns = acc @ ns" "foldl (\<lambda>c n. c + 1) k ns = k + length ns"
    for acc ns :: "shallow_node list" and k :: nat by (induction ns arbitrary: acc k) auto
  have v: "visited = visit_order n" by (simp add: visited_def visit_all_nodes_def n visit_stack_eq fold)
  have c: "count_nodes tree = length (visit_order n)"
    by (simp add: count_nodes_def visit_all_nodes_def n visit_stack_eq fold del: One_nat_def add_Suc_right)
  show ?thesis
    using tree_leaves [OF tree(1)] tree_levels [OF tree(1) N(1)] tree_size [OF tree(1)] N(2)
    by (auto simp: v c tree(2))
qed

theorem shallow_tree_visit_bounds_witness:
  "\<exists>tree xs'. mk_shallow_tree 2 two_presentations 0 1 = Inr (tree, xs') \<and> count_nodes tree \<le> 3"
proof -
  obtain tree xs' where T: "mk_shallow_tree 2 two_presentations 0 1 = Inr (tree, xs')"
    using two_presentations_tree by blast
  with shallow_tree_visit_bounds [OF T] show ?thesis by (auto simp: hash_wf_def exact_size_def)
qed

text \<open>Building a tree over a single hash with no reassurance bytes writes past the end of the empty
byte vector of its leaf, unless the tail covers the whole hash: the parameter has no guard.\<close>

theorem shallow_tree_without_reassurance:
  assumes "1 \<le> N" "N \<le> 64" "handled_bytes tail < N"
  shows "mk_shallow_tree N [x] tail 0 = Inl Undefined"
proof -
  let ?m = "initial_unused_mask N (handled_bytes tail)"
  have "copy_reassurance 0 h ?m bs 0 [] = Inl Undefined"
    if "\<exists>b \<in> set bs. bit ?m b" "\<forall>b \<in> set bs. b < 64" for bs h
    using that by (induction bs) (auto simp: test_bytes)
  moreover have "\<exists>b \<in> set [0..<N]. bit ?m b"
    using assms by (intro bexI [of _ "handled_bytes tail"]) (auto simp: bit_initial_unused_mask)
  ultimately have "copy_reassurance 0 (hlp_hash x) ?m [0..<N] 0 [] = Inl Undefined"
    using assms(2) by simp
  then show ?thesis using assms by (simp add: mk_shallow_tree_def Let_def make_leaf_node_def)
qed

theorem shallow_tree_without_reassurance_witness:
  "mk_shallow_tree 2 [\<lparr>hlp_hash = [1, 2], hlp_pi = LocalPi 0\<rparr>] 0 0 = Inl Undefined"
  using shallow_tree_without_reassurance [of 2 0] by simp

end
