(* ===== verification/Record_Files.thy ===== *)
theory Record_Files
  imports File_System Hash_Prefix_Suffix
begin

text \<open>
  \<^verbatim>\<open>apps/wedding_cake/include/hashes_order_file.hpp\<close>, \<^verbatim>\<open>ls_suffix_entries_file.hpp\<close> and
  \<^verbatim>\<open>reader_writer_factory.hpp\<close>: writers that append fixed-width records to a file, readers that
  seek and read them, and the factory that fixes the widths.  A writer is the format and its
  \<open>ofstream\<close>, a reader the format and its \<open>ifstream\<close>; an operation of a writer also
  threads the file system.  The factory functions for suffix files pass a \<open>uint64_t\<close> where
  \<open>make_ms_prefix_path\<close> takes an \<open>MsPrefixIndex\<close> with an explicit constructor, so they do not
  compile and have no model; the suffix file classes take the path here as they do there.

  The lemmas show the record of an entry, that reading inverts appending (sequentially and
  after a seek), and what the two readers do at the end of the file.
\<close>

section \<open>Hashes order files\<close>

record hashes_order_file =
  hf_local_pi_bytes_count :: u8
  hf_ms_prefix_bits_count :: u8
  hf_ms_prefix_bits_bytes_count :: u8
  hf_entry_bytes_count :: nat

record order_file_entry =
  ofe_local_pi :: local_pi
  ofe_ms_prefix_bits :: u64
  ofe_spare_bits :: u8

definition mk_hashes_order_file :: "u8 \<Rightarrow> u8 \<Rightarrow> hashes_order_file res" where
  "mk_hashes_order_file local_pi_bytes_count ms_prefix_bits_count =
     (let bits_bytes = of_nat ((unat ms_prefix_bits_count + 7) div 8) in
      if local_pi_bytes_count = 0 \<or> local_pi_bytes_count > 8
      then Inl (Invalid_Argument ''local_pi_bytes must be between 1 and 8'')
      else if ms_prefix_bits_count > 64
      then Inl (Invalid_Argument ''ms_prefix_bits_count cannot exceed 64'')
      else Inr \<lparr>hf_local_pi_bytes_count = local_pi_bytes_count,
                hf_ms_prefix_bits_count = ms_prefix_bits_count,
                hf_ms_prefix_bits_bytes_count = bits_bytes,
                hf_entry_bytes_count = unat local_pi_bytes_count + unat bits_bytes\<rparr>)"

definition spare_bits_count :: "hashes_order_file \<Rightarrow> u8" where
  "spare_bits_count f =
     of_nat (unat (hf_ms_prefix_bits_bytes_count f) * 8 - unat (hf_ms_prefix_bits_count f))"

subsection \<open>Writer\<close>

record hashes_order_writer =
  how_format :: hashes_order_file
  how_file :: ofstream

text \<open>A failed open is thrown with a message that also names the path.\<close>

definition mk_hashes_order_writer :: "fs \<Rightarrow> path \<Rightarrow> u8 \<Rightarrow> u8 \<Rightarrow> (fs \<times> hashes_order_writer) res" where
  "mk_hashes_order_writer fs p local_pi_bytes_count ms_prefix_bits_count =
     rbind (mk_hashes_order_file local_pi_bytes_count ms_prefix_bits_count) (\<lambda>f.
       case os_open_app fs p of (fs', file) \<Rightarrow>
         if \<not> os_ok file then Inl (Runtime_Error ''Failed to open HashesOrderFile at: '')
         else Inr (fs', \<lparr>how_format = f, how_file = file\<rparr>))"

definition order_prefix_field :: "hashes_order_file \<Rightarrow> order_file_entry \<Rightarrow> u64" where
  "order_prefix_field f e =
     (let raw = (if hf_ms_prefix_bits_count f > 0
                 then ofe_ms_prefix_bits e AND low_mask (unat (hf_ms_prefix_bits_count f)) else 0);
          spare_count = spare_bits_count f
      in if spare_count > 0
         then raw OR push_bit (unat (hf_ms_prefix_bits_count f))
                       (ucast (ofe_spare_bits e) AND low_mask (unat spare_count))
         else raw)"

definition order_append :: "fs \<Rightarrow> hashes_order_writer \<Rightarrow> order_file_entry \<Rightarrow> fs \<times> hashes_order_writer" where
  "order_append fs w e =
     (let f = how_format w;
          pi_raw = (if lpi_is_no_match (ofe_local_pi e) then NOT 0 else lpi_int (ofe_local_pi e)) in
      case os_write fs (how_file w) (le_bytes (unat (hf_local_pi_bytes_count f)) pi_raw) of (fs1, s1) \<Rightarrow>
      if hf_ms_prefix_bits_bytes_count f > 0
      then case os_write fs1 s1 (le_bytes (unat (hf_ms_prefix_bits_bytes_count f)) (order_prefix_field f e))
             of (fs2, s2) \<Rightarrow> (fs2, w\<lparr>how_file := s2\<rparr>)
      else (fs1, w\<lparr>how_file := s1\<rparr>))"

definition order_flush :: "fs \<Rightarrow> hashes_order_writer \<Rightarrow> fs \<times> hashes_order_writer" where
  "order_flush fs w = (case os_flush fs (how_file w) of (fs', s) \<Rightarrow> (fs', w\<lparr>how_file := s\<rparr>))"

text \<open>The destructor closes the file, which flushes it.\<close>

definition destroy_order_writer :: "fs \<Rightarrow> hashes_order_writer \<Rightarrow> fs" where
  "destroy_order_writer fs w = fst (os_flush fs (how_file w))"

subsection \<open>Reader\<close>

record hashes_order_reader =
  hor_format :: hashes_order_file
  hor_file :: ifstream

definition mk_hashes_order_reader :: "fs \<Rightarrow> path \<Rightarrow> u8 \<Rightarrow> u8 \<Rightarrow> hashes_order_reader res" where
  "mk_hashes_order_reader fs p local_pi_bytes_count ms_prefix_bits_count =
     rbind (mk_hashes_order_file local_pi_bytes_count ms_prefix_bits_count) (\<lambda>f.
       case is_open_file fs p of
         None \<Rightarrow> Inl (Runtime_Error ''Failed to open HashesOrderFile at: '')
       | Some file \<Rightarrow> Inr \<lparr>hor_format = f, hor_file = file\<rparr>)"

text \<open>
  \<open>seekg\<close> to the product, taken in \<open>uint64_t\<close> and cast to the signed \<open>streamoff\<close>; a
  negative offset makes the seek fail.
\<close>

definition seek_to :: "ifstream \<Rightarrow> u64 \<Rightarrow> ifstream" where
  "seek_to s pos = (if unat pos < 2 ^ 63 then is_seekg s (unat pos) else s\<lparr>is_eof := False, is_fail := True\<rparr>)"

definition order_seek_entry :: "hashes_order_reader \<Rightarrow> u64 \<Rightarrow> bool \<times> hashes_order_reader" where
  "order_seek_entry r index =
     (let s = seek_to (hor_file r) (index * of_nat (hf_entry_bytes_count (hor_format r)))
      in (is_good s, r\<lparr>hor_file := s\<rparr>))"

definition order_has_more :: "hashes_order_reader \<Rightarrow> bool \<times> hashes_order_reader" where
  "order_has_more r = (case is_peek (hor_file r) of (c, s) \<Rightarrow> (c \<noteq> None, r\<lparr>hor_file := s\<rparr>))"

text \<open>
  The shift by \<open>ms_prefix_bits_count_\<close> is undefined when the count is 64, the width of
  the shifted integer.
\<close>

definition order_read_next ::
  "hashes_order_reader \<Rightarrow> (order_file_entry \<times> hashes_order_reader) res" where
  "order_read_next r =
     (let f = hor_format r;
          entry = \<lparr>ofe_local_pi = LOCAL_PI_NO_MATCH, ofe_ms_prefix_bits = 0, ofe_spare_bits = 0\<rparr> in
      if hf_entry_bytes_count f = 0 then Inr (entry, r)
      else case order_has_more r of (more_data, r0) \<Rightarrow>
      if \<not> more_data then Inr (entry, r0)
      else case is_read (hor_file r0) (unat (hf_local_pi_bytes_count f)) of (pi_bytes, s1) \<Rightarrow>
      let pi_raw = le_word pi_bytes;
          max_pi_mask = low_mask (unat (hf_local_pi_bytes_count f) * 8);
          entry1 = entry\<lparr>ofe_local_pi :=
            (if pi_raw AND max_pi_mask = max_pi_mask then LOCAL_PI_NO_MATCH
             else LocalPi (pi_raw AND max_pi_mask))\<rparr> in
      if hf_ms_prefix_bits_bytes_count f > 0
      then case is_read s1 (unat (hf_ms_prefix_bits_bytes_count f)) of (field_bytes, s2) \<Rightarrow>
        let prefix_field_raw = le_word field_bytes; bits = unat (hf_ms_prefix_bits_count f) in
        if bits = 0
        then Inr (entry1\<lparr>ofe_ms_prefix_bits := 0, ofe_spare_bits := ucast prefix_field_raw\<rparr>,
                  r0\<lparr>hor_file := s2\<rparr>)
        else if bits \<ge> 64 then Inl Undefined
        else Inr (entry1\<lparr>ofe_ms_prefix_bits := prefix_field_raw AND low_mask bits,
                         ofe_spare_bits := ucast (drop_bit bits prefix_field_raw)\<rparr>,
                  r0\<lparr>hor_file := s2\<rparr>)
      else Inr (entry1, r0\<lparr>hor_file := s1\<rparr>))"

section \<open>Suffix files\<close>

record ls_suffix_file =
  sf_local_pi_bytes_count :: u8
  sf_ms_prefix_bits_count :: u8
  sf_ls_suffix_bytes_count :: u8
  sf_suffix_start_idx :: nat
  sf_entry_bytes :: nat

text \<open>\<open>N\<close> lies between 1 and 64 by a static assertion, so the bit counts do not wrap.\<close>

definition mk_ls_suffix_file :: "nat \<Rightarrow> u8 \<Rightarrow> u8 \<Rightarrow> ls_suffix_file res" where
  "mk_ls_suffix_file N local_pi_bytes_count ms_prefix_bits_count =
     (let total_hash_bits = N * 8 in
      if unat ms_prefix_bits_count \<ge> total_hash_bits
      then Inl (Invalid_Argument ''ms_prefix_bits_count must be strictly less than total hash bits'')
      else if local_pi_bytes_count = 0 \<or> local_pi_bytes_count > 8
      then Inl (Invalid_Argument ''local_pi_bytes_count must be between 1 and 8'')
      else let ls_suffix_bits = total_hash_bits - unat ms_prefix_bits_count;
               suffix_bytes = of_nat ((ls_suffix_bits + 7) div 8) in
        Inr \<lparr>sf_local_pi_bytes_count = local_pi_bytes_count,
             sf_ms_prefix_bits_count = ms_prefix_bits_count,
             sf_ls_suffix_bytes_count = suffix_bytes,
             sf_suffix_start_idx = N - unat suffix_bytes,
             sf_entry_bytes = unat suffix_bytes + unat local_pi_bytes_count\<rparr>)"

record ls_suffix_writer =
  lsw_format :: ls_suffix_file
  lsw_file :: ofstream

record ls_suffix_reader =
  lsr_format :: ls_suffix_file
  lsr_file :: ifstream

definition mk_ls_suffix_writer :: "nat \<Rightarrow> fs \<Rightarrow> path \<Rightarrow> u8 \<Rightarrow> u8 \<Rightarrow> (fs \<times> ls_suffix_writer) res" where
  "mk_ls_suffix_writer N fs p local_pi_bytes_count ms_prefix_bits_count =
     rbind (mk_ls_suffix_file N local_pi_bytes_count ms_prefix_bits_count) (\<lambda>f.
       case os_open_app fs p of (fs', file) \<Rightarrow>
         if \<not> os_ok file then Inl (Runtime_Error ''Failed to open LSSuffixEntriesFile at: '')
         else Inr (fs', \<lparr>lsw_format = f, lsw_file = file\<rparr>))"

definition suffix_append ::
  "nat \<Rightarrow> fs \<Rightarrow> ls_suffix_writer \<Rightarrow> bytes \<Rightarrow> local_pi \<Rightarrow> (fs \<times> ls_suffix_writer) res" where
  "suffix_append N fs w hash_view local_pi =
     (let f = lsw_format w in
      if length hash_view < N
      then Inl (Invalid_Argument ''Provided HashView is smaller than configured HashBytesCount'')
      else rbind (subspan hash_view (sf_suffix_start_idx f) (unat (sf_ls_suffix_bytes_count f))) (\<lambda>sfx.
        case os_write fs (lsw_file w) sfx of (fs1, s1) \<Rightarrow>
        case os_write fs1 s1 (le_bytes (unat (sf_local_pi_bytes_count f)) (lpi_int local_pi)) of (fs2, s2) \<Rightarrow>
        Inr (fs2, w\<lparr>lsw_file := s2\<rparr>)))"

definition suffix_flush :: "fs \<Rightarrow> ls_suffix_writer \<Rightarrow> fs \<times> ls_suffix_writer" where
  "suffix_flush fs w = (case os_flush fs (lsw_file w) of (fs', s) \<Rightarrow> (fs', w\<lparr>lsw_file := s\<rparr>))"

definition destroy_suffix_writer :: "fs \<Rightarrow> ls_suffix_writer \<Rightarrow> fs" where
  "destroy_suffix_writer fs w = fst (os_flush fs (lsw_file w))"

definition mk_ls_suffix_reader :: "nat \<Rightarrow> fs \<Rightarrow> path \<Rightarrow> u8 \<Rightarrow> u8 \<Rightarrow> ls_suffix_reader res" where
  "mk_ls_suffix_reader N fs p local_pi_bytes_count ms_prefix_bits_count =
     rbind (mk_ls_suffix_file N local_pi_bytes_count ms_prefix_bits_count) (\<lambda>f.
       case is_open_file fs p of
         None \<Rightarrow> Inl (Runtime_Error ''Failed to open LSSuffixEntriesFile at: '')
       | Some file \<Rightarrow> Inr \<lparr>lsr_format = f, lsr_file = file\<rparr>)"

definition suffix_seek_entry :: "ls_suffix_reader \<Rightarrow> u64 \<Rightarrow> bool \<times> ls_suffix_reader" where
  "suffix_seek_entry r index =
     (let pos = index * of_nat (sf_entry_bytes (lsr_format r));
          s = seek_to (is_clear (lsr_file r)) pos
      in (is_good s, r\<lparr>lsr_file := s\<rparr>))"

definition suffix_has_more :: "ls_suffix_reader \<Rightarrow> bool \<times> ls_suffix_reader" where
  "suffix_has_more r =
     (if is_fail (lsr_file r) \<or> sf_entry_bytes (lsr_format r) = 0 then (False, r)
      else case is_peek (lsr_file r) of
        (None, s) \<Rightarrow> (False, r\<lparr>lsr_file := is_clear s\<rparr>)
      | (Some c, s) \<Rightarrow> (True, r\<lparr>lsr_file := s\<rparr>))"

text \<open>
  The result, the caller's buffer and index (both in-out parameters), and the reader.  The first
  \<open>read\<close> stores what it extracts even when that is too little.
\<close>

definition suffix_read_next ::
  "nat \<Rightarrow> ls_suffix_reader \<Rightarrow> bytes \<Rightarrow> local_pi \<Rightarrow> (bool \<times> bytes \<times> local_pi \<times> ls_suffix_reader) res" where
  "suffix_read_next N r out_hash_buf out_local_pi =
     (let f = lsr_format r; suffix_count = unat (sf_ls_suffix_bytes_count f);
          pi_count = unat (sf_local_pi_bytes_count f) in
      if is_fail (lsr_file r) \<or> sf_entry_bytes f = 0 then Inr (False, out_hash_buf, out_local_pi, r)
      else if length out_hash_buf < N
      then Inl (Invalid_Argument ''Destination buffer is smaller than configured HashBytesCount'')
      else case is_read (lsr_file r) suffix_count of (got, s1) \<Rightarrow>
      rbind (buf_write (sf_suffix_start_idx f) got out_hash_buf) (\<lambda>buf.
      if length got < suffix_count then Inr (False, buf, out_local_pi, r\<lparr>lsr_file := s1\<rparr>)
      else case is_read s1 pi_count of (pi_bytes, s2) \<Rightarrow>
      if length pi_bytes < pi_count then Inr (False, buf, out_local_pi, r\<lparr>lsr_file := s2\<rparr>)
      else Inr (True, buf, LocalPi (le_word pi_bytes AND low_mask (pi_count * 8)), r\<lparr>lsr_file := s2\<rparr>)))"

section \<open>Factory\<close>

record reader_writer_factory =
  rwf_path :: path
  rwf_pi_bytes_count :: u8
  rwf_ms_prefix_bits_count :: u8

definition mk_reader_writer_factory :: "nat \<Rightarrow> path \<Rightarrow> u8 \<Rightarrow> u8 \<Rightarrow> reader_writer_factory res" where
  "mk_reader_writer_factory N p pi_bytes_count ms_prefix_bits_count =
     (if unat ms_prefix_bits_count \<ge> N * 8
      then Inl (Invalid_Argument ''ms_prefix_bits_count must be strictly less than total hash bits'')
      else if pi_bytes_count = 0 \<or> pi_bytes_count > 8
      then Inl (Invalid_Argument ''pi_bytes_count must be between 1 and 8'')
      else Inr \<lparr>rwf_path = p, rwf_pi_bytes_count = pi_bytes_count,
                rwf_ms_prefix_bits_count = ms_prefix_bits_count\<rparr>)"

text \<open>Opening with \<open>out | trunc\<close> and closing at once.  The message of the failure quotes the file name.\<close>

definition fs_truncate :: "fs \<Rightarrow> path \<Rightarrow> fs option" where
  "fs_truncate fs p = (case fs_node fs p of
     Some (File _) \<Rightarrow> Some (AList.update p (File []) fs)
   | Some Dir \<Rightarrow> None
   | None \<Rightarrow> if fs_is_directory fs (butlast p) then Some (fs @ [(p, File [])]) else None)"

definition create_empty_hashes_order_file :: "fs \<Rightarrow> reader_writer_factory \<Rightarrow> fs res" where
  "create_empty_hashes_order_file fs fac =
     (case fs_truncate fs (rwf_path fac @ [''HashesOrder.bin'']) of
        None \<Rightarrow> Inl (Runtime_Error ''Failed to create empty HashesOrder.bin file at: '')
      | Some fs' \<Rightarrow> Inr fs')"

definition create_hashes_order_file_writer ::
  "fs \<Rightarrow> reader_writer_factory \<Rightarrow> (fs \<times> hashes_order_writer) res" where
  "create_hashes_order_file_writer fs fac =
     mk_hashes_order_writer fs (rwf_path fac @ [''HashesOrder.bin''])
       (rwf_pi_bytes_count fac) (rwf_ms_prefix_bits_count fac)"

definition create_hashes_order_file_reader :: "fs \<Rightarrow> reader_writer_factory \<Rightarrow> hashes_order_reader res" where
  "create_hashes_order_file_reader fs fac =
     mk_hashes_order_reader fs (rwf_path fac @ [''HashesOrder.bin''])
       (rwf_pi_bytes_count fac) (rwf_ms_prefix_bits_count fac)"

section \<open>The record of an order file entry\<close>

definition order_format_ok :: "nat \<Rightarrow> nat \<Rightarrow> hashes_order_file \<Rightarrow> bool" where
  "order_format_ok w p f \<longleftrightarrow> 1 \<le> w \<and> w \<le> 8 \<and> p \<le> 64 \<and>
     unat (hf_local_pi_bytes_count f) = w \<and> unat (hf_ms_prefix_bits_count f) = p \<and>
     unat (hf_ms_prefix_bits_bytes_count f) = (p + 7) div 8 \<and>
     hf_entry_bytes_count f = w + (p + 7) div 8"

lemma mk_hashes_order_file_ok:
  assumes "1 \<le> unat w" "unat w \<le> 8" "unat p \<le> 64"
  shows "\<exists>f. mk_hashes_order_file w p = Inr f \<and> order_format_ok (unat w) (unat p) f"
proof -
  have "unat (of_nat ((unat p + 7) div 8) :: u8) = (unat p + 7) div 8"
    using assms(3) by (subst unat_of_nat) simp
  moreover have "\<not> w > 8" "w \<noteq> 0" "\<not> p > 64"
    using assms by (auto simp: word_less_nat_alt)
  ultimately show ?thesis using assms by (auto simp: mk_hashes_order_file_def order_format_ok_def Let_def)
qed

abbreviation spare_bits :: "nat \<Rightarrow> nat" where
  "spare_bits p \<equiv> 8 * ((p + 7) div 8) - p"

lemma unat_spare_bits_count:
  "order_format_ok w p f \<Longrightarrow> unat (spare_bits_count f) = spare_bits p"
proof -
  assume f: "order_format_ok w p f"
  have u8: "unat (of_nat k :: u8) = k" if "k < 256" for k using that by (simp add: unat_of_nat)
  have "spare_bits_count f = of_nat (spare_bits p)"
    unfolding spare_bits_count_def using f by (simp only: order_format_ok_def mult.commute)
  moreover have "spare_bits p < 256" by presburger
  ultimately show ?thesis by (simp only: u8)
qed

definition order_pi_raw :: "order_file_entry \<Rightarrow> u64" where
  "order_pi_raw e = (if ofe_local_pi e = LOCAL_PI_NO_MATCH then - 1 else lpi_int (ofe_local_pi e))"

definition order_entry_record :: "hashes_order_file \<Rightarrow> order_file_entry \<Rightarrow> bytes" where
  "order_entry_record f e =
     le_bytes (unat (hf_local_pi_bytes_count f)) (order_pi_raw e) @
     le_bytes (unat (hf_ms_prefix_bits_bytes_count f)) (order_prefix_field f e)"

lemma length_order_entry_record:
  "order_format_ok w p f \<Longrightarrow> length (order_entry_record f e) = hf_entry_bytes_count f"
  by (simp add: order_entry_record_def order_format_ok_def)

lemma low_mask_bit: "n \<le> 64 \<Longrightarrow> bit (low_mask n) i \<longleftrightarrow> i < n"
proof -
  assume n: "n \<le> 64"
  have "low_mask n = take_bit n (- 1)" using and_low_mask [OF n, of "- 1"] by simp
  with n show ?thesis by (auto simp: bit_simps)
qed

lemma bit_order_prefix_field:
  assumes "order_format_ok w p f"
  shows "bit (order_prefix_field f e) i \<longleftrightarrow>
    i < p \<and> bit (ofe_ms_prefix_bits e) i \<or>
    p \<le> i \<and> i < 64 \<and> i - p < spare_bits p \<and> bit (ofe_spare_bits e) (i - p)"
proof -
  have p: "p \<le> 64" "unat (hf_ms_prefix_bits_count f) = p" using assms by (auto simp: order_format_ok_def)
  have s: "unat (spare_bits_count f) = spare_bits p" "spare_bits p \<le> 64"
    using unat_spare_bits_count [OF assms] by (simp, presburger)
  have pos: "hf_ms_prefix_bits_count f > 0 \<longleftrightarrow> 0 < p" "spare_bits_count f > 0 \<longleftrightarrow> 0 < spare_bits p"
    using p(2) s(1) by (auto simp: word_less_nat_alt)
  show ?thesis
    unfolding order_prefix_field_def Let_def pos p(2) s(1)
    using p(1) s(2)
    by (cases "0 < p"; cases "0 < spare_bits p")
       (auto simp: bit_simps low_mask_bit dest: bit_imp_le_length)
qed

lemma order_prefix_field_parts:
  assumes "order_format_ok w p f" "p < 64"
  shows "order_prefix_field f e AND low_mask p = ofe_ms_prefix_bits e AND low_mask p"
    and "ucast (drop_bit p (order_prefix_field f e)) = take_bit (spare_bits p) (ofe_spare_bits e)"
    and "unat (order_prefix_field f e) < 256 ^ ((p + 7) div 8)"
proof -
  show "order_prefix_field f e AND low_mask p = ofe_ms_prefix_bits e AND low_mask p"
    using assms by (intro bit_word_eqI) (auto simp: bit_simps low_mask_bit bit_order_prefix_field [OF assms(1)])
  have le: "spare_bits p < 8" "p + spare_bits p \<le> 64" using assms(2) by presburger+
  show "ucast (drop_bit p (order_prefix_field f e)) = take_bit (spare_bits p) (ofe_spare_bits e)"
    using le by (intro bit_word_eqI) (auto simp: bit_simps bit_order_prefix_field [OF assms(1)])
  have "take_bit (8 * ((p + 7) div 8)) (order_prefix_field f e) = order_prefix_field f e"
    using le by (intro bit_word_eqI) (auto simp: bit_simps bit_order_prefix_field [OF assms(1)])
  then have "unat (order_prefix_field f e) = unat (order_prefix_field f e) mod 2 ^ (8 * ((p + 7) div 8))"
    using unat_take_bit [of "8 * ((p + 7) div 8)" "order_prefix_field f e"] by simp
  then show "unat (order_prefix_field f e) < 256 ^ ((p + 7) div 8)"
    unfolding pow256 by (metis mod_less_divisor zero_less_numeral zero_less_power)
qed

text \<open>The entries whose fields fit the widths of the file.\<close>

definition order_entry_fits :: "nat \<Rightarrow> nat \<Rightarrow> order_file_entry \<Rightarrow> bool" where
  "order_entry_fits w p e \<longleftrightarrow>
     (ofe_local_pi e = LOCAL_PI_NO_MATCH \<or> unat (lpi_int (ofe_local_pi e)) < 256 ^ w - 1) \<and>
     unat (ofe_ms_prefix_bits e) < 2 ^ p \<and> unat (ofe_spare_bits e) < 2 ^ spare_bits p"

lemma all_ones_mod: "w \<le> 8 \<Longrightarrow> (2 ^ 64 - 1 :: nat) mod 256 ^ w = 256 ^ w - 1"
proof -
  assume w: "w \<le> 8"
  have "(256 :: nat) ^ w \<le> 256 ^ 8" using w by (rule power_increasing) simp
  then have eq: "2 ^ 64 - 1 = (256 ^ w - 1) + 256 ^ w * (256 ^ (8 - w) - 1 :: nat)"
    using w by (simp add: diff_mult_distrib2 flip: power_add)
  show ?thesis unfolding eq mod_mult_self2 by (rule mod_less) simp
qed

lemma read_order_pi:
  assumes "1 \<le> w" "w \<le> 8" "order_entry_fits w p e"
  shows "(let raw = le_word (le_bytes w (order_pi_raw e)) in
      if raw AND low_mask (w * 8) = low_mask (w * 8) then LOCAL_PI_NO_MATCH
      else LocalPi (raw AND low_mask (w * 8))) = ofe_local_pi e"
proof -
  let ?raw = "le_word (le_bytes w (order_pi_raw e))"
  have w8: "w * 8 \<le> 64" using assms(2) by simp
  have one: "(256 :: nat) ^ w \<le> 256 ^ 8" using assms(2) by (rule power_increasing) simp
  have raw: "unat ?raw = unat (order_pi_raw e) mod 256 ^ w"
    using assms(2) by (simp add: unat_le_word le_nat_le_bytes)
  have and_raw: "unat (?raw AND low_mask (w * 8)) = unat (order_pi_raw e) mod 256 ^ w"
    using unat_and_low_mask [OF w8, of ?raw] raw by (simp add: pow256 mult.commute)
  have mx: "unat (low_mask (w * 8)) = 256 ^ w - 1"
  proof -
    have u64: "unat (of_nat k :: u64) = k" if "k < 2 ^ 64" for k using that by (simp add: unat_of_nat)
    have "(256 :: nat) ^ w - 1 < 2 ^ 64" using one by simp
    then show ?thesis unfolding low_mask_nat [OF w8] by (simp only: u64 pow256 mult.commute)
  qed
  show ?thesis
  proof (cases "ofe_local_pi e = LOCAL_PI_NO_MATCH")
    case True
    have "unat (order_pi_raw e) = 2 ^ 64 - 1"
      using True by (simp add: order_pi_raw_def unat_no_match_val [unfolded PI_NO_MATCH_VAL_def])
    then have "unat (order_pi_raw e) mod 256 ^ w = 256 ^ w - 1"
      by (simp only: all_ones_mod [OF assms(2)])
    then have "?raw AND low_mask (w * 8) = low_mask (w * 8)"
      using and_raw mx by (simp add: word_unat_eq_iff)
    then show ?thesis using True by (simp only: Let_def simp_thms if_True)
  next
    case False
    then have less: "unat (order_pi_raw e) < 256 ^ w - 1"
      using assms(3) by (simp add: order_entry_fits_def order_pi_raw_def)
    then have "unat (?raw AND low_mask (w * 8)) = unat (lpi_int (ofe_local_pi e))"
      using and_raw False by (simp add: order_pi_raw_def)
    then have eq: "?raw AND low_mask (w * 8) = lpi_int (ofe_local_pi e)" by (simp only: word_unat_eq_iff)
    have "lpi_int (ofe_local_pi e) \<noteq> low_mask (w * 8)"
      using less mx False by (auto simp: order_pi_raw_def)
    then show ?thesis by (simp only: Let_def eq if_False) simp
  qed
qed

section \<open>Reading inverts appending\<close>

definition order_writer_ok :: "fs \<Rightarrow> path \<Rightarrow> bytes \<Rightarrow> hashes_order_writer \<Rightarrow> bool" where
  "order_writer_ok fs q c w \<longleftrightarrow>
     os_ok (how_file w) \<and> os_path (how_file w) = q \<and> os_content fs (how_file w) = Some c"

lemma order_append_ok:
  assumes "order_writer_ok fs q c w" "order_append fs w e = (fs', w')"
  shows "order_writer_ok fs' q (c @ order_entry_record (how_format w) e) w'" "how_format w' = how_format w"
proof -
  let ?f = "how_format w"
  obtain fs1 s1 where w1: "os_write fs (how_file w)
      (le_bytes (unat (hf_local_pi_bytes_count ?f)) (order_pi_raw e)) = (fs1, s1)" by force
  obtain fs2 s2 where w2: "os_write fs1 s1
      (le_bytes (unat (hf_ms_prefix_bits_bytes_count ?f)) (order_prefix_field ?f e)) = (fs2, s2)" by force
  have ok: "os_ok (how_file w)" using assms(1) by (simp add: order_writer_ok_def)
  note S1 = os_write_spec [OF w1 ok] and S2 = os_write_spec [OF w2 os_write_spec(3) [OF w1 ok]]
  have pos: "hf_ms_prefix_bits_bytes_count ?f > 0 \<longleftrightarrow> 0 < unat (hf_ms_prefix_bits_bytes_count ?f)"
    by (simp add: word_less_nat_alt)
  have raw: "(if lpi_is_no_match (ofe_local_pi e) then NOT 0 else lpi_int (ofe_local_pi e)) = order_pi_raw e"
    by (simp add: order_pi_raw_def)
  have res: "order_append fs w e = (if 0 < unat (hf_ms_prefix_bits_bytes_count ?f)
      then (fs2, w\<lparr>how_file := s2\<rparr>) else (fs1, w\<lparr>how_file := s1\<rparr>))"
    unfolding order_append_def Let_def raw pos by (simp add: w1 w2)
  show "order_writer_ok fs' q (c @ order_entry_record ?f e) w'" "how_format w' = how_format w"
    using assms res S1(1-3) S2(1-3)
    by (auto simp: order_writer_ok_def order_entry_record_def split: if_splits)
qed

abbreviation order_append_all ::
  "order_file_entry list \<Rightarrow> fs \<times> hashes_order_writer \<Rightarrow> fs \<times> hashes_order_writer" where
  "order_append_all es s \<equiv> fold (\<lambda>e (fs, w). order_append fs w e) es s"

lemma order_append_all_ok:
  assumes "order_writer_ok fs q c w" "order_append_all es (fs, w) = (fs', w')"
  shows "order_writer_ok fs' q (c @ concat (map (order_entry_record (how_format w)) es)) w'"
  using assms
proof (induction es arbitrary: fs w c)
  case Nil
  then show ?case by simp
next
  case (Cons e es)
  obtain fs1 w1 where a: "order_append fs w e = (fs1, w1)" by force
  note A = order_append_ok [OF Cons.prems(1) a]
  show ?case using Cons.IH [OF A(1)] Cons.prems(2) a A(2) by simp
qed

lemma destroy_order_writer_node:
  "order_writer_ok fs q c w \<Longrightarrow> fs_node (destroy_order_writer fs w) q = Some (File c)"
proof -
  assume w: "order_writer_ok fs q c w"
  obtain fs' s' where f: "os_flush fs (how_file w) = (fs', s')" by force
  show ?thesis using os_flush_spec(1-3) [OF f] w
    by (auto simp: destroy_order_writer_def f order_writer_ok_def os_content_def split: option.splits node.splits)
qed

lemma is_read_full_content:
  assumes "is_good s" "is_rest s = bs @ rest" "length bs = n"
  shows "\<exists>s'. is_read s n = (bs, s') \<and> is_good s' \<and> is_rest s' = rest \<and> is_content s' = is_content s"
  using is_read_full [OF assms] by (auto simp: is_read_def Let_def split: if_splits)

lemma is_rest_Cons_peek:
  assumes "is_good s" "is_rest s \<noteq> []"
  shows "\<exists>c. is_peek s = (Some c, s)"
  using assms by (simp add: is_peek_def is_rest_def)

lemma order_read_next_ok:
  fixes w p :: nat
  assumes f: "order_format_ok w p (hor_format r)" and p: "p < 64" and fits: "order_entry_fits w p e"
    and good: "is_good (hor_file r)"
    and rest: "is_rest (hor_file r) = order_entry_record (hor_format r) e @ rest"
  shows "\<exists>r'. order_read_next r = Inr (e, r') \<and> hor_format r' = hor_format r \<and>
    is_good (hor_file r') \<and> is_rest (hor_file r') = rest \<and>
    is_content (hor_file r') = is_content (hor_file r)"
proof -
  let ?f = "hor_format r" and ?pb = "(p + 7) div 8"
  have F: "1 \<le> w" "w \<le> 8" "unat (hf_local_pi_bytes_count ?f) = w" "unat (hf_ms_prefix_bits_count ?f) = p"
    "unat (hf_ms_prefix_bits_bytes_count ?f) = ?pb" "hf_entry_bytes_count ?f \<noteq> 0"
    "length (order_entry_record ?f e) \<noteq> 0"
    using f length_order_entry_record [OF f] by (auto simp: order_format_ok_def)
  have pos: "hf_ms_prefix_bits_bytes_count ?f > 0 \<longleftrightarrow> 0 < ?pb"
    using F(5) by (simp add: word_less_nat_alt)
  obtain c where peek: "is_peek (hor_file r) = (Some c, hor_file r)"
    using is_rest_Cons_peek [OF good] rest F(7) by auto
  let ?pi = "le_bytes w (order_pi_raw e)" and ?fd = "le_bytes ?pb (order_prefix_field ?f e)"
  have rec: "order_entry_record ?f e = ?pi @ ?fd" by (simp add: order_entry_record_def F)
  obtain s1 where s1: "is_read (hor_file r) w = (?pi, s1)" "is_good s1" "is_rest s1 = ?fd @ rest"
    "is_content s1 = is_content (hor_file r)"
    using is_read_full_content [OF good, of ?pi "?fd @ rest" w] rest rec by auto
  obtain s2 where s2: "is_read s1 ?pb = (?fd, s2)" "is_good s2" "is_rest s2 = rest" "is_content s2 = is_content s1"
    using is_read_full_content [OF s1(2,3), of ?pb] by auto
  note pi = read_order_pi [OF F(1,2) fits, unfolded Let_def]
  note parts = order_prefix_field_parts [OF f p, of e]
  have field: "le_word ?fd = order_prefix_field ?f e"
  proof (rule le_word_le_bytes [OF parts(3)])
    show "?pb \<le> 8" using p by presburger
  qed
  have prefix: "ofe_ms_prefix_bits e AND low_mask p = ofe_ms_prefix_bits e"
    using fits p by (simp add: and_low_mask order_entry_fits_def unat_take_bit word_unat_eq_iff)
  have spare: "take_bit (spare_bits p) (ofe_spare_bits e) = ofe_spare_bits e"
    using fits by (simp add: order_entry_fits_def word_unat_eq_iff unsigned_take_bit_eq take_bit_nat_eq_self)
  show ?thesis
  proof (cases "?pb = 0")
    case True
    then have p0: "p = 0" by presburger
    have e0: "ofe_ms_prefix_bits e = 0" "ofe_spare_bits e = 0"
      using fits p0 by (auto simp: order_entry_fits_def unat_eq_zero)
    have "order_read_next r = Inr (e, r\<lparr>hor_file := s1\<rparr>)"
      using pos True F(6) peek s1(1) pi e0
      by (simp add: order_read_next_def order_has_more_def F(3) Let_def)
    then show ?thesis using s1 True by simp
  next
    case False
    have dropped: "drop_bit p (order_prefix_field ?f e) = order_prefix_field ?f e" if "p = 0" using that by simp
    have "order_read_next r = Inr (e, r\<lparr>hor_file := s2\<rparr>)"
    proof -
      have "p \<noteq> 0" using False by (cases p) auto
      then show ?thesis
        using pos False F(6) peek s1(1) s2(1) pi p parts(1,2) prefix spare
        by (simp add: order_read_next_def order_has_more_def F(3-5) Let_def field)
    qed
    then show ?thesis using s2 s1(4) by simp
  qed
qed

text \<open>Reading a number of entries in a row.\<close>

primrec order_read_entries ::
  "nat \<Rightarrow> hashes_order_reader \<Rightarrow> (order_file_entry list \<times> hashes_order_reader) res" where
  "order_read_entries 0 r = Inr ([], r)"
| "order_read_entries (Suc n) r =
     rbind (order_read_next r) (\<lambda>(e, r1).
     rbind (order_read_entries n r1) (\<lambda>(es, r2). Inr (e # es, r2)))"

lemma order_read_entries_ok:
  fixes w p :: nat
  assumes "order_format_ok w p (hor_format r)" "p < 64" "\<forall>e \<in> set es. order_entry_fits w p e"
    and "is_good (hor_file r)"
    and "is_rest (hor_file r) = concat (map (order_entry_record (hor_format r)) es) @ rest"
  shows "\<exists>r'. order_read_entries (length es) r = Inr (es, r') \<and> hor_format r' = hor_format r \<and>
    is_good (hor_file r') \<and> is_rest (hor_file r') = rest"
  using assms
proof (induction es arbitrary: r)
  case Nil
  then show ?case by simp
next
  case (Cons e es)
  obtain r1 where r1: "order_read_next r = Inr (e, r1)" "hor_format r1 = hor_format r"
    "is_good (hor_file r1)" "is_rest (hor_file r1) = concat (map (order_entry_record (hor_format r)) es) @ rest"
    using order_read_next_ok [OF Cons.prems(1,2) _ Cons.prems(4), of e] Cons.prems(3,5) by auto
  obtain r2 where "order_read_entries (length es) r1 = Inr (es, r2)" "hor_format r2 = hor_format r1"
    "is_good (hor_file r2)" "is_rest (hor_file r2) = rest"
    using Cons.IH [of r1] Cons.prems r1 by auto
  with r1 show ?case by simp
qed

lemma drop_concat_records:
  "\<forall>x \<in> set xs. length (f x) = k \<Longrightarrow> drop (i * k) (concat (map f xs)) = concat (map f (drop i xs))"
proof (induction xs arbitrary: i)
  case Nil
  then show ?case by simp
next
  case (Cons x xs)
  then show ?case by (cases i) (auto simp: drop_append)
qed

lemma length_concat_records:
  "\<forall>x \<in> set xs. length (f x) = k \<Longrightarrow> length (concat (map f xs)) = length xs * k"
  by (induction xs) auto

lemma seek_to_good:
  assumes "\<not> is_fail s" "i * k < 2 ^ 63"
  shows "is_good (seek_to s (of_nat i * of_nat k))"
    "is_rest (seek_to s (of_nat i * of_nat k)) = drop (i * k) (is_content s)"
proof -
  have "unat (of_nat (i * k) :: u64) = i * k" using assms(2) by (subst unat_of_nat) simp
  then show "is_good (seek_to s (of_nat i * of_nat k))"
    "is_rest (seek_to s (of_nat i * of_nat k)) = drop (i * k) (is_content s)"
    using assms by (simp_all add: seek_to_def is_seekg_def is_good_def is_rest_def flip: of_nat_mult)
qed

lemma order_seek_read:
  fixes w p :: nat
  assumes "order_format_ok w p (hor_format r)" "p < 64" "\<forall>e \<in> set es. order_entry_fits w p e"
    and "\<not> is_fail (hor_file r)"
    and "is_content (hor_file r) = concat (map (order_entry_record (hor_format r)) es)"
    and "i < length es" "length es * hf_entry_bytes_count (hor_format r) < 2 ^ 63"
  shows "\<exists>r1 r2. order_seek_entry r (of_nat i) = (True, r1) \<and> order_read_next r1 = Inr (es ! i, r2)"
proof -
  let ?k = "hf_entry_bytes_count (hor_format r)"
  have "i * ?k \<le> length es * ?k" using assms(6) by simp
  with assms(7) have le: "i * ?k < 2 ^ 63" by linarith
  let ?s = "seek_to (hor_file r) (of_nat i * of_nat ?k)"
  let ?r1 = "r\<lparr>hor_file := ?s\<rparr>"
  have "drop i es = es ! i # drop (Suc i) es" using assms(6) by (simp add: Cons_nth_drop_Suc)
  then have rest: "is_rest ?s = order_entry_record (hor_format r) (es ! i) @
      concat (map (order_entry_record (hor_format r)) (drop (Suc i) es))"
    using seek_to_good(2) [OF assms(4) le] assms(5)
      drop_concat_records [of es "order_entry_record (hor_format r)" ?k i] length_order_entry_record [OF assms(1)]
    by simp
  have seek: "order_seek_entry r (of_nat i) = (True, ?r1)"
    using seek_to_good(1) [OF assms(4) le] by (simp add: order_seek_entry_def Let_def)
  obtain r2 where "order_read_next ?r1 = Inr (es ! i, r2)"
    using order_read_next_ok [of w p ?r1 "es ! i"] assms(1-3,6) rest seek_to_good(1) [OF assms(4) le] by auto
  with seek show ?thesis by blast
qed

text \<open>The two readers at the end of the file.\<close>

lemma order_reader_stuck_at_end:
  assumes "is_rest (hor_file r) = []" "is_good (hor_file r)"
    and "order_has_more r = (b1, r1)" "order_has_more r1 = (b2, r2)"
  shows "\<not> b1" "fst (order_seek_entry r1 0)" "\<not> b2" "\<not> fst (order_seek_entry r2 i)"
  using assms
  by (auto simp: order_has_more_def is_peek_def is_rest_def is_good_def order_seek_entry_def seek_to_def
      is_seekg_def Let_def)

lemma suffix_has_more_recovers:
  assumes "\<not> is_fail (lsr_file r)" "suffix_has_more r = (b, r1)"
  shows "\<not> is_fail (lsr_file r1)"
  using assms
  by (auto simp: suffix_has_more_def is_peek_def is_clear_def split: if_splits option.splits prod.splits)

lemma fs_truncate_ok:
  assumes "fs_is_directory fs dir" "fs_node fs (dir @ [name]) \<noteq> Some Dir"
  shows "\<exists>fs'. fs_truncate fs (dir @ [name]) = Some fs' \<and> fs_node fs' (dir @ [name]) = Some (File [])"
proof (cases "fs_node fs (dir @ [name])")
  case None
  then show ?thesis using assms(1) by (simp add: fs_truncate_def fs_node_append_new)
next
  case (Some n)
  then show ?thesis using assms(2) by (cases n) (simp_all add: fs_truncate_def fs_node_update)
qed

lemma fs_truncate_only:
  assumes "fs_is_directory fs dir" "fs_node fs (dir @ [name]) \<noteq> Some Dir"
  shows "\<exists>fs'. fs_truncate fs (dir @ [name]) = Some fs' \<and> fs_node fs' (dir @ [name]) = Some (File []) \<and>
    (\<forall>r. r \<noteq> dir @ [name] \<longrightarrow> fs_node fs' r = fs_node fs r)"
proof (cases "fs_node fs (dir @ [name])")
  case None
  then show ?thesis using assms(1) by (simp add: fs_truncate_def fs_node_append_new)
next
  case (Some n)
  then show ?thesis using assms(2) by (cases n) (simp_all add: fs_truncate_def fs_node_update)
qed

lemma fs_truncate_wf: "fs_truncate fs q = Some fs' \<Longrightarrow> fs_wf fs \<Longrightarrow> fs_wf fs'"
  by (auto simp: fs_truncate_def fs_wf_append_new fs_wf_update_file split: option.splits node.splits if_splits)

lemma mk_factory_ok:
  assumes "mk_reader_writer_factory N dir w p = Inr fac"
  shows "rwf_path fac = dir" "rwf_pi_bytes_count fac = w" "rwf_ms_prefix_bits_count fac = p"
    "1 \<le> unat w" "unat w \<le> 8" "unat p < 8 * N"
  using assms by (auto simp: mk_reader_writer_factory_def word_less_nat_alt u8_eq_0 split: if_splits)

section \<open>Properties\<close>

text \<open>C34: Through the factory, with a prefix of at most 63 bits: creating the order file anew, appending
entries whose fields fit their widths, and destroying the writer leaves a file that a reader reads back
to exactly those entries, in sequence up to the end of the file and one by one after a seek.\<close>

theorem order_file_roundtrip:
  assumes "mk_reader_writer_factory N dir w p = Inr fac" "unat p \<le> 63"
    and "fs_is_directory fs dir" "fs_node fs (dir @ [''HashesOrder.bin'']) \<noteq> Some Dir"
    and "\<forall>e \<in> set es. order_entry_fits (unat w) (unat p) e"
    and "length es * (unat w + (unat p + 7) div 8) < 2 ^ 63"
  shows "\<exists>fs1 fs2 w2 fs3 w3 rd rd'.
    create_empty_hashes_order_file fs fac = Inr fs1 \<and>
    create_hashes_order_file_writer fs1 fac = Inr (fs2, w2) \<and>
    order_append_all es (fs2, w2) = (fs3, w3) \<and>
    create_hashes_order_file_reader (destroy_order_writer fs3 w3) fac = Inr rd \<and>
    order_read_entries (length es) rd = Inr (es, rd') \<and> \<not> fst (order_has_more rd') \<and>
    (\<forall>i < length es. \<exists>r1 r2. order_seek_entry rd (of_nat i) = (True, r1) \<and> order_read_next r1 = Inr (es ! i, r2))"
proof -
  note fac = mk_factory_ok [OF assms(1)]
  let ?q = "dir @ [''HashesOrder.bin'']"
  obtain fs1 where t: "fs_truncate fs ?q = Some fs1" "fs_node fs1 ?q = Some (File [])"
    using fs_truncate_ok [OF assms(3,4)] by blast
  obtain f where f: "mk_hashes_order_file w p = Inr f" "order_format_ok (unat w) (unat p) f"
    using mk_hashes_order_file_ok [of w p] fac assms(2) by auto
  obtain fs2 s where o: "os_open_app fs1 ?q = (fs2, s)" by force
  let ?w2 = "\<lparr>how_format = f, how_file = s\<rparr>"
  have ok: "order_writer_ok fs2 ?q [] ?w2"
    using os_open_app_content [OF o, of "[]"] os_open_app_spec(1) [OF o] t(2) by (simp add: order_writer_ok_def)
  obtain fs3 w3 where a: "order_append_all es (fs2, ?w2) = (fs3, w3)" by force
  let ?c = "concat (map (order_entry_record f) es)"
  let ?rd = "\<lparr>hor_format = f, hor_file = \<lparr>is_content = ?c, is_pos = 0, is_eof = False, is_fail = False\<rparr>\<rparr>"
  have "fs_node (destroy_order_writer fs3 w3) ?q = Some (File ?c)"
    using destroy_order_writer_node [OF order_append_all_ok [OF ok a]] by simp
  then have rd: "create_hashes_order_file_reader (destroy_order_writer fs3 w3) fac = Inr ?rd"
    by (simp add: create_hashes_order_file_reader_def mk_hashes_order_reader_def fac f is_open_file_def)
  obtain rd' where r: "order_read_entries (length es) ?rd = Inr (es, rd')" "is_good (hor_file rd')"
    "is_rest (hor_file rd') = []"
    using order_read_entries_ok [of "unat w" "unat p" ?rd es "[]"] f(2) assms(2,5)
    by (auto simp: is_good_def is_rest_def)
  have "\<not> fst (order_has_more rd')"
    using r(2,3) by (simp add: order_has_more_def is_peek_def is_rest_def split: prod.splits)
  moreover have "hf_entry_bytes_count f = unat w + (unat p + 7) div 8"
    using f(2) by (simp add: order_format_ok_def)
  then have "\<forall>i < length es. \<exists>r1 r2. order_seek_entry ?rd (of_nat i) = (True, r1) \<and>
      order_read_next r1 = Inr (es ! i, r2)"
    using order_seek_read [of "unat w" "unat p" ?rd es] f(2) assms(2,5,6) by auto
  moreover have "create_empty_hashes_order_file fs fac = Inr fs1"
    using t(1) by (simp add: create_empty_hashes_order_file_def fac)
  moreover have "create_hashes_order_file_writer fs1 fac = Inr (fs2, ?w2)"
    using ok by (simp add: create_hashes_order_file_writer_def mk_hashes_order_writer_def fac f o order_writer_ok_def)
  ultimately show ?thesis using a rd r(1) by blast
qed

theorem order_file_roundtrip_witness:
  "\<exists>fac fs1 fs2 w2 rd. mk_reader_writer_factory 8 [] 3 13 = Inr fac \<and>
    create_hashes_order_file_writer fs1 fac = Inr (fs2, w2) \<and>
    fst (order_seek_entry rd 1)"
proof -
  define fac where "fac = \<lparr>rwf_path = [], rwf_pi_bytes_count = 3, rwf_ms_prefix_bits_count = 13\<rparr>"
  have fac: "mk_reader_writer_factory 8 [] 3 13 = Inr fac" by (simp add: mk_reader_writer_factory_def fac_def)
  define es where "es = [\<lparr>ofe_local_pi = LocalPi 0x123456, ofe_ms_prefix_bits = 0x1F05, ofe_spare_bits = 1\<rparr>,
    \<lparr>ofe_local_pi = LOCAL_PI_NO_MATCH, ofe_ms_prefix_bits = 0x1FFF, ofe_spare_bits = 3\<rparr>]"
  have "\<forall>e \<in> set es. order_entry_fits (unat (3 :: u8)) (unat (13 :: u8)) e"
    by (simp add: es_def order_entry_fits_def)
  from order_file_roundtrip [OF fac _ _ _ this, of "[]"]
  obtain fs1 fs2 w2 rd where W: "create_hashes_order_file_writer fs1 fac = Inr (fs2, w2)"
    "\<forall>i < length es. \<exists>r1 r2. order_seek_entry rd (of_nat i) = (True, r1) \<and> order_read_next r1 = Inr (es ! i, r2)"
    by (auto simp: fs_is_directory_def fs_node_def es_def)
  have "fst (order_seek_entry rd 1)" using W(2) [rule_format, of 1] by (auto simp: es_def)
  with fac W(1) show ?thesis by blast
qed

text \<open>A hashes order file with a prefix of 64 bits, which every constructor accepts, can be written but
not read: the first entry read shifts a 64-bit integer by 64, which is undefined.\<close>

theorem order_reader_64_bits_undefined:
  assumes "9 \<le> N" "1 \<le> unat w" "unat w \<le> 8"
    and "fs_node fs (dir @ [''HashesOrder.bin'']) = Some (File c)" "c \<noteq> []"
  shows "\<exists>fac rd. mk_reader_writer_factory N dir w 64 = Inr fac \<and>
    create_hashes_order_file_reader fs fac = Inr rd \<and> order_read_next rd = Inl Undefined"
proof -
  let ?fac = "\<lparr>rwf_path = dir, rwf_pi_bytes_count = w, rwf_ms_prefix_bits_count = 64\<rparr>"
  obtain f where f: "mk_hashes_order_file w 64 = Inr f" "order_format_ok (unat w) 64 f"
    using mk_hashes_order_file_ok [of w 64] assms(2,3) by auto
  have F: "unat (hf_ms_prefix_bits_count f) = 64" "hf_ms_prefix_bits_bytes_count f > 0" "hf_entry_bytes_count f \<noteq> 0"
    using f(2) by (auto simp: order_format_ok_def word_less_nat_alt)
  let ?s = "\<lparr>is_content = c, is_pos = 0, is_eof = False, is_fail = False\<rparr>"
  have "mk_reader_writer_factory N dir w 64 = Inr ?fac"
    using assms by (auto simp: mk_reader_writer_factory_def word_less_nat_alt u8_eq_0)
  moreover have "create_hashes_order_file_reader fs ?fac = Inr \<lparr>hor_format = f, hor_file = ?s\<rparr>"
    using assms(4) by (simp add: create_hashes_order_file_reader_def mk_hashes_order_reader_def f is_open_file_def)
  moreover have "order_read_next \<lparr>hor_format = f, hor_file = ?s\<rparr> = Inl Undefined"
    using assms(5) F
    by (simp add: order_read_next_def order_has_more_def is_peek_def is_good_def Let_def split: prod.splits)
  ultimately show ?thesis by blast
qed

theorem order_reader_64_bits_undefined_witness:
  "\<exists>fac rd. mk_reader_writer_factory 32 [] 4 64 = Inr fac \<and>
    create_hashes_order_file_reader [([''HashesOrder.bin''], File [1])] fac = Inr rd \<and>
    order_read_next rd = Inl Undefined"
  using order_reader_64_bits_undefined [of 32 4 "[([''HashesOrder.bin''], File [1])]" "[]" "[1]"]
  by (simp add: fs_node_def)

section \<open>Suffix files\<close>

definition suffix_format_ok :: "nat \<Rightarrow> nat \<Rightarrow> nat \<Rightarrow> ls_suffix_file \<Rightarrow> bool" where
  "suffix_format_ok N w p f \<longleftrightarrow> 1 \<le> w \<and> w \<le> 8 \<and> p < 8 * N \<and> N \<le> 64 \<and>
     unat (sf_local_pi_bytes_count f) = w \<and> unat (sf_ls_suffix_bytes_count f) = N - p div 8 \<and>
     sf_suffix_start_idx f = p div 8 \<and> sf_entry_bytes f = N - p div 8 + w"

lemma suffix_bytes_eq: "p < N * 8 \<Longrightarrow> (N * 8 - p + 7) div 8 = N - p div (8 :: nat)"
proof -
  assume p: "p < N * 8"
  define q r where "q = p div 8" and "r = p mod 8"
  have pq: "p = 8 * q + r" "r < 8" by (simp_all add: q_def r_def)
  then have "q < N" using p by linarith
  then have "N * 8 - p + 7 = (7 - r) + 8 * (N - q)" using pq by (simp add: diff_mult_distrib2)
  then have "(N * 8 - p + 7) div 8 = N - q" using pq(2) by simp
  then show ?thesis by (simp add: q_def)
qed

lemma mk_ls_suffix_file_ok:
  assumes "1 \<le> unat w" "unat w \<le> 8" "unat p < 8 * N" "N \<le> 64"
  shows "\<exists>f. mk_ls_suffix_file N w p = Inr f \<and> suffix_format_ok N (unat w) (unat p) f"
proof -
  have eq: "(N * 8 - unat p + 7) div 8 = N - unat p div 8" using assms(3) by (intro suffix_bytes_eq) simp
  have "unat (of_nat (N - unat p div 8) :: u8) = N - unat p div 8"
    using assms(4) by (subst unat_of_nat) simp
  moreover have "N - (N - unat p div 8) = unat p div 8" using assms(3) by linarith
  moreover have "\<not> w > 8" "w \<noteq> 0" using assms by (auto simp: word_less_nat_alt)
  ultimately show ?thesis using assms eq by (auto simp: mk_ls_suffix_file_def suffix_format_ok_def Let_def)
qed

definition suffix_entry_record :: "nat \<Rightarrow> nat \<Rightarrow> hash \<times> local_pi \<Rightarrow> bytes" where
  "suffix_entry_record w p e = drop (p div 8) (fst e) @ le_bytes w (lpi_int (snd e))"

definition suffix_writer_ok :: "fs \<Rightarrow> path \<Rightarrow> bytes \<Rightarrow> ls_suffix_writer \<Rightarrow> bool" where
  "suffix_writer_ok fs q c w \<longleftrightarrow>
     os_ok (lsw_file w) \<and> os_path (lsw_file w) = q \<and> os_content fs (lsw_file w) = Some c"

lemma suffix_append_ok:
  assumes "suffix_writer_ok fs q c wr" "suffix_format_ok N w p (lsw_format wr)" "hash_wf N h"
  shows "\<exists>fs' wr'. suffix_append N fs wr h l = Inr (fs', wr') \<and> lsw_format wr' = lsw_format wr \<and>
    suffix_writer_ok fs' q (c @ suffix_entry_record w p (h, l)) wr'"
proof -
  let ?f = "lsw_format wr"
  have F: "unat (sf_local_pi_bytes_count ?f) = w" "unat (sf_ls_suffix_bytes_count ?f) = N - p div 8"
    "sf_suffix_start_idx ?f = p div 8" "p div 8 + (N - p div 8) = length h" "length h = N"
    using assms(2,3) by (auto simp: suffix_format_ok_def hash_wf_def)
  have sub: "subspan h (p div 8) (N - p div 8) = Inr (drop (p div 8) h)"
    using F(4,5) by (simp add: subspan_Inr)
  obtain fs1 s1 where w1: "os_write fs (lsw_file wr) (drop (p div 8) h) = (fs1, s1)" by force
  obtain fs2 s2 where w2: "os_write fs1 s1 (le_bytes w (lpi_int l)) = (fs2, s2)" by force
  have ok: "os_ok (lsw_file wr)" using assms(1) by (simp add: suffix_writer_ok_def)
  note S1 = os_write_spec [OF w1 ok] and S2 = os_write_spec [OF w2 os_write_spec(3) [OF w1 ok]]
  have "suffix_append N fs wr h l = Inr (fs2, wr\<lparr>lsw_file := s2\<rparr>)"
    by (simp add: suffix_append_def Let_def F sub w1 w2)
  then show ?thesis using S1(1-3) S2(1-3) assms(1)
    by (auto simp: suffix_writer_ok_def suffix_entry_record_def)
qed

abbreviation suffix_append_all ::
  "nat \<Rightarrow> (hash \<times> local_pi) list \<Rightarrow> fs \<times> ls_suffix_writer \<Rightarrow> (fs \<times> ls_suffix_writer) res" where
  "suffix_append_all N es s \<equiv> rfold (\<lambda>(fs, w) (h, l). suffix_append N fs w h l) s es"

lemma suffix_append_all_ok:
  assumes "suffix_writer_ok fs q c wr" "suffix_format_ok N w p (lsw_format wr)"
    and "\<forall>e \<in> set es. hash_wf N (fst e)"
  shows "\<exists>fs' wr'. suffix_append_all N es (fs, wr) = Inr (fs', wr') \<and>
    suffix_writer_ok fs' q (c @ concat (map (suffix_entry_record w p) es)) wr'"
  using assms
proof (induction es arbitrary: fs wr c)
  case Nil
  then show ?case by simp
next
  case (Cons e es)
  obtain h l where e: "e = (h, l)" by force
  obtain fs1 wr1 where a: "suffix_append N fs wr h l = Inr (fs1, wr1)" "lsw_format wr1 = lsw_format wr"
    "suffix_writer_ok fs1 q (c @ suffix_entry_record w p (h, l)) wr1"
    using suffix_append_ok [OF Cons.prems(1,2), of h l] Cons.prems(3) e by auto
  show ?case using Cons.IH [OF a(3)] Cons.prems(2,3) a(1,2) e by simp
qed

lemma destroy_suffix_writer_node:
  "suffix_writer_ok fs q c w \<Longrightarrow> fs_node (destroy_suffix_writer fs w) q = Some (File c)"
proof -
  assume w: "suffix_writer_ok fs q c w"
  obtain fs' s' where f: "os_flush fs (lsw_file w) = (fs', s')" by force
  show ?thesis using os_flush_spec(1-3) [OF f] w
    by (auto simp: destroy_suffix_writer_def f suffix_writer_ok_def os_content_def split: option.splits node.splits)
qed

lemma suffix_read_next_ok:
  assumes f: "suffix_format_ok N w p (lsr_format r)" and h: "hash_wf N h"
    and l: "unat (lpi_int l) < 256 ^ w" and buf: "length buf = N"
    and good: "is_good (lsr_file r)" and rest: "is_rest (lsr_file r) = suffix_entry_record w p (h, l) @ rest"
  shows "\<exists>r'. suffix_read_next N r buf l0 = Inr (True, take (p div 8) buf @ drop (p div 8) h, l, r') \<and>
    lsr_format r' = lsr_format r \<and> is_good (lsr_file r') \<and> is_rest (lsr_file r') = rest"
proof -
  let ?f = "lsr_format r"
  have F: "1 \<le> w" "w \<le> 8" "unat (sf_local_pi_bytes_count ?f) = w"
    "unat (sf_ls_suffix_bytes_count ?f) = N - p div 8" "sf_suffix_start_idx ?f = p div 8"
    "sf_entry_bytes ?f \<noteq> 0" "p div 8 \<le> N" "length h = N"
    using f h by (auto simp: suffix_format_ok_def hash_wf_def)
  obtain s1 where s1: "is_read (lsr_file r) (N - p div 8) = (drop (p div 8) h, s1)" "is_good s1"
    "is_rest s1 = le_bytes w (lpi_int l) @ rest"
    using is_read_full [OF good, of "drop (p div 8) h" "le_bytes w (lpi_int l) @ rest" "N - p div 8"] rest F(8)
    by (auto simp: suffix_entry_record_def)
  obtain s2 where s2: "is_read s1 w = (le_bytes w (lpi_int l), s2)" "is_good s2" "is_rest s2 = rest"
    using is_read_full [OF s1(2,3), of w] by auto
  have wrt: "buf_write (p div 8) (drop (p div 8) h) buf = Inr (take (p div 8) buf @ drop (p div 8) h)"
    using F(7,8) buf by (simp add: buf_write_def)
  have word: "le_word (le_bytes w (lpi_int l)) = lpi_int l" by (rule le_word_le_bytes [OF l F(2)])
  have "lpi_int l AND low_mask (w * 8) = lpi_int l"
    using l F(2) by (simp add: word_unat_eq_iff unat_and_low_mask pow256 mult.commute)
  moreover have "\<not> is_fail (lsr_file r)" using good by (simp add: is_good_def)
  ultimately have "suffix_read_next N r buf l0 =
      Inr (True, take (p div 8) buf @ drop (p div 8) h, l, r\<lparr>lsr_file := s2\<rparr>)"
    using F(6,8) s1(1) s2(1) buf by (simp add: suffix_read_next_def Let_def F(3-5) wrt word)
  then show ?thesis using s2 by simp
qed

lemma suffix_append_other:
  assumes "suffix_append N fs w h l = Inr (fs', w')" "os_ok (lsw_file w)" "q \<noteq> os_path (lsw_file w)"
  shows "fs_node fs' q = fs_node fs q \<and> os_path (lsw_file w') = os_path (lsw_file w) \<and> os_ok (lsw_file w')"
proof -
  let ?n = "le_bytes (unat (sf_local_pi_bytes_count (lsw_format w))) (lpi_int l)"
  obtain sfx where "subspan h (sf_suffix_start_idx (lsw_format w)) (unat (sf_ls_suffix_bytes_count (lsw_format w))) = Inr sfx"
    using assms(1) by (auto simp: suffix_append_def Let_def rbind_eq_Inr split: if_splits)
  moreover obtain fs1 s1 where w1: "os_write fs (lsw_file w) sfx = (fs1, s1)" by force
  moreover obtain fs2 s2 where w2: "os_write fs1 s1 ?n = (fs2, s2)" by force
  ultimately have "fs' = fs2" "w' = w\<lparr>lsw_file := s2\<rparr>"
    using assms(1) by (auto simp: suffix_append_def Let_def split: if_splits)
  note S1 = os_write_spec [OF w1 assms(2)] and S2 = os_write_spec [OF w2 os_write_spec(3) [OF w1 assms(2)]]
  show ?thesis using S1(2) S1(4) [OF assms(3)] S2(2,3) S2(4) [of q] assms(3) \<open>fs' = fs2\<close> \<open>w' = _\<close> by simp
qed

lemma suffix_append_all_other:
  "suffix_append_all N es (fs, w) = Inr (fs', w') \<Longrightarrow> os_ok (lsw_file w) \<Longrightarrow> q \<noteq> os_path (lsw_file w) \<Longrightarrow>
    fs_node fs' q = fs_node fs q \<and> os_path (lsw_file w') = os_path (lsw_file w)"
proof (induction es arbitrary: fs w)
  case (Cons e es)
  obtain h l where e: "e = (h, l)" by force
  obtain fs1 w1 where a: "suffix_append N fs w h l = Inr (fs1, w1)" "suffix_append_all N es (fs1, w1) = Inr (fs', w')"
    using Cons.prems(1) e by (auto simp: rbind_eq_Inr)
  note o = suffix_append_other [OF a(1) Cons.prems(2,3)]
  then show ?case using Cons.IH [OF a(2)] Cons.prems(3) by simp
qed simp

text \<open>Writing a fresh suffix file and reading it back after a seek.\<close>

lemma suffix_file_restored:
  assumes "1 \<le> unat w" "unat w \<le> 8" "unat p < 8 * N" "N \<le> 64"
    and "fs_node fs q = Some (File [])" "\<forall>e \<in> set es. hash_wf N (fst e)"
    and "\<forall>e \<in> set es. unat (lpi_int (snd e)) < 256 ^ unat w"
    and "length es * (N + 8) < 2 ^ 63" "length buf = N"
  shows "\<exists>fs1 w1 fs2 w2 rd. mk_ls_suffix_writer N fs q w p = Inr (fs1, w1) \<and>
    suffix_append_all N es (fs1, w1) = Inr (fs2, w2) \<and>
    mk_ls_suffix_reader N (destroy_suffix_writer fs2 w2) q w p = Inr rd \<and>
    (\<forall>i < length es. \<exists>r1 r2. suffix_seek_entry rd (of_nat i) = (True, r1) \<and>
       suffix_read_next N r1 buf l0 =
         Inr (True, take (unat p div 8) buf @ drop (unat p div 8) (fst (es ! i)), snd (es ! i), r2)) \<and>
    (\<forall>q'. q' \<noteq> q \<longrightarrow> fs_node (destroy_suffix_writer fs2 w2) q' = fs_node fs q')"
proof -
  obtain f where f: "mk_ls_suffix_file N w p = Inr f" "suffix_format_ok N (unat w) (unat p) f"
    using mk_ls_suffix_file_ok [OF assms(1-4)] by blast
  obtain fs1 s where o: "os_open_app fs q = (fs1, s)" by force
  let ?w1 = "\<lparr>lsw_format = f, lsw_file = s\<rparr>"
  have ok: "suffix_writer_ok fs1 q [] ?w1"
    using os_open_app_content [OF o, of "[]"] os_open_app_spec(1) [OF o] assms(5) by (simp add: suffix_writer_ok_def)
  let ?rec = "suffix_entry_record (unat w) (unat p)"
  obtain fs2 w2 where a: "suffix_append_all N es (fs1, ?w1) = Inr (fs2, w2)"
    "suffix_writer_ok fs2 q (concat (map ?rec es)) w2"
    using suffix_append_all_ok [OF ok, of N "unat w" "unat p" es] f(2) assms(6) by auto
  let ?s = "\<lparr>is_content = concat (map ?rec es), is_pos = 0, is_eof = False, is_fail = False\<rparr>"
  let ?rd = "\<lparr>lsr_format = f, lsr_file = ?s\<rparr>"
  let ?k = "sf_entry_bytes f"
  have rd: "mk_ls_suffix_reader N (destroy_suffix_writer fs2 w2) q w p = Inr ?rd"
    using destroy_suffix_writer_node [OF a(2)] by (simp add: mk_ls_suffix_reader_def f is_open_file_def)
  have len: "\<forall>e \<in> set es. length (?rec e) = ?k"
    using f(2) assms(6) by (simp add: suffix_entry_record_def suffix_format_ok_def hash_wf_def)
  have "\<exists>r1 r2. suffix_seek_entry ?rd (of_nat i) = (True, r1) \<and> suffix_read_next N r1 buf l0 =
      Inr (True, take (unat p div 8) buf @ drop (unat p div 8) (fst (es ! i)), snd (es ! i), r2)"
    if i: "i < length es" for i
  proof -
    have "?k \<le> N + 8" using f(2) by (auto simp: suffix_format_ok_def intro!: add_le_mono)
    with i have "i * ?k \<le> length es * (N + 8)" by (intro mult_le_mono) simp_all
    with assms(8) have le: "i * ?k < 2 ^ 63" by linarith
    let ?t = "seek_to ?s (of_nat i * of_nat ?k)"
    have t: "is_good ?t" "is_rest ?t = drop (i * ?k) (concat (map ?rec es))"
      using seek_to_good [of ?s i ?k] le by simp_all
    have "is_rest ?t = ?rec (es ! i) @ concat (map ?rec (drop (Suc i) es))"
      using t(2) drop_concat_records [OF len, of i] Cons_nth_drop_Suc [OF i]
      by (metis concat.simps(2) list.simps(9))
    then have rest: "is_rest ?t = ?rec (fst (es ! i), snd (es ! i)) @ concat (map ?rec (drop (Suc i) es))" by simp
    have "suffix_seek_entry ?rd (of_nat i) = (True, ?rd\<lparr>lsr_file := ?t\<rparr>)"
      using t(1) by (simp add: suffix_seek_entry_def Let_def is_clear_def)
    moreover have "\<exists>r2. suffix_read_next N (?rd\<lparr>lsr_file := ?t\<rparr>) buf l0 =
      Inr (True, take (unat p div 8) buf @ drop (unat p div 8) (fst (es ! i)), snd (es ! i), r2)"
      using suffix_read_next_ok [of N "unat w" "unat p" "?rd\<lparr>lsr_file := ?t\<rparr>" "fst (es ! i)" "snd (es ! i)" buf]
        f(2) assms(6,7,9) i t(1) rest by (auto simp: nth_mem)
    ultimately show ?thesis by blast
  qed
  moreover have "mk_ls_suffix_writer N fs q w p = Inr (fs1, ?w1)"
    using ok by (simp add: mk_ls_suffix_writer_def f o suffix_writer_ok_def)
  moreover have "fs_node (destroy_suffix_writer fs2 w2) q' = fs_node fs q'" if "q' \<noteq> q" for q'
  proof -
    have path: "os_path s = q" "os_ok s" using ok by (simp_all add: suffix_writer_ok_def)
    have "fs_node fs2 q' = fs_node fs1 q'" "os_path (lsw_file w2) = q"
      using suffix_append_all_other [OF a(1), of q'] path that by simp_all
    moreover have "fs_node fs1 q' = fs_node fs q'" by (rule os_open_app_spec(3) [OF o that])
    moreover obtain fs3 s3 where fl: "os_flush fs2 (lsw_file w2) = (fs3, s3)" by force
    ultimately show ?thesis using os_flush_spec(5) [OF fl, of q'] that by (simp add: destroy_suffix_writer_def)
  qed
  ultimately show ?thesis using a(1) rd by blast
qed

text \<open>Appending hashes with their indices to a fresh suffix file and destroying the writer leaves a file
in which a reader, after seeking to any record, restores the index and the bytes of the hash from byte
\<open>p div 8\<close> on, and leaves the lower bytes of the caller's buffer as they were.\<close>

theorem suffix_file_roundtrip:
  assumes "1 \<le> unat w" "unat w \<le> 8" "unat p < 8 * N" "N \<le> 64"
    and "fs_node fs q = Some (File [])" "\<forall>e \<in> set es. hash_wf N (fst e)"
    and "\<forall>e \<in> set es. unat (lpi_int (snd e)) < 256 ^ unat w"
    and "length es * (N + 8) < 2 ^ 63" "length buf = N"
  shows "\<exists>fs1 w1 fs2 w2 rd. mk_ls_suffix_writer N fs q w p = Inr (fs1, w1) \<and>
    suffix_append_all N es (fs1, w1) = Inr (fs2, w2) \<and>
    mk_ls_suffix_reader N (destroy_suffix_writer fs2 w2) q w p = Inr rd \<and>
    (\<forall>i < length es. \<exists>r1 r2. suffix_seek_entry rd (of_nat i) = (True, r1) \<and>
       suffix_read_next N r1 buf l0 =
         Inr (True, take (unat p div 8) buf @ drop (unat p div 8) (fst (es ! i)), snd (es ! i), r2))"
  using suffix_file_restored [OF assms] by blast

theorem suffix_file_roundtrip_witness:
  "\<exists>fs1 w1 rd r1. mk_ls_suffix_writer 2 [([''S''], File [])] [''S''] 1 8 = Inr (fs1, w1) \<and>
     suffix_seek_entry rd 0 = (True, r1)"
proof -
  let ?es = "[([1, 2], LocalPi 5)] :: (hash \<times> local_pi) list"
  have "\<forall>e \<in> set ?es. hash_wf 2 (fst e)" "\<forall>e \<in> set ?es. unat (lpi_int (snd e)) < 256 ^ unat (1 :: u8)"
    by (simp_all add: hash_wf_def)
  from suffix_file_roundtrip [OF _ _ _ _ _ this, of 8 "[([''S''], File [])]" "[''S'']" "[0, 0]" LOCAL_PI_NO_MATCH]
  obtain fs1 w1 rd where W: "mk_ls_suffix_writer 2 [([''S''], File [])] [''S''] 1 8 = Inr (fs1, w1)"
    "\<forall>i < length ?es. \<exists>r1. suffix_seek_entry rd (of_nat i) = (True, r1)"
    by (simp add: fs_node_def) blast
  from W(2) have "\<exists>r1. suffix_seek_entry rd 0 = (True, r1)" by (auto dest: spec [of _ 0])
  with W(1) show ?thesis by blast
qed

text \<open>C36: With a prefix of 8 to 64 bits of a hash of 16 bytes or more, the suffix files drop the lowest bytes
of the hash: for every hash there is another one with the same prefix index whose record is the same,
so neither the file nor its name tells them apart.\<close>

theorem suffix_file_loses_low_bytes:
  assumes "16 \<le> N" "N \<le> 64" "8 \<le> unat p" "unat p \<le> 64" "hash_wf N h"
    and "mk_ls_suffix_writer N fs0 q w p = Inr (fs1, wr)"
  shows "\<exists>g. hash_wf N g \<and> g \<noteq> h \<and> ms_prefix_index N g p = ms_prefix_index N h p \<and>
    (\<forall>fs l. suffix_append N fs wr g l = suffix_append N fs wr h l)"
proof -
  let ?k = "unat p div 8" and ?c = "(unat p + 7) div 8"
  let ?g = "h[0 := h ! 0 + 1]"
  have len: "length h = N" using assms(5) by (simp add: hash_wf_def)
  have g: "hash_wf N ?g" using assms(5) by (simp add: hash_wf_def)
  have "?g ! 0 \<noteq> h ! 0" using len assms(1) by simp
  then have ne: "?g \<noteq> h" by metis
  have drop_eq: "drop k ?g = drop k h" if "0 < k" for k using that by (simp add: drop_update_cancel)
  have "1 \<le> unat w" "unat w \<le> 8"
    using assms(6) by (auto simp: mk_ls_suffix_writer_def mk_ls_suffix_file_def rbind_eq_Inr Let_def word_less_nat_alt u8_eq_0
        split: if_splits)
  then obtain f where f: "mk_ls_suffix_file N w p = Inr f" "suffix_format_ok N (unat w) (unat p) f"
    using mk_ls_suffix_file_ok [of w p N] assms by auto
  have wr: "lsw_format wr = f"
    using assms(6) f(1) by (auto simp: mk_ls_suffix_writer_def split: prod.splits if_splits)
  have F: "unat (sf_ls_suffix_bytes_count f) = N - ?k" "sf_suffix_start_idx f = ?k" "?k \<le> N"
    using f(2) by (auto simp: suffix_format_ok_def)
  have "subspan ?g ?k (N - ?k) = subspan h ?k (N - ?k)"
    using drop_eq [of ?k] assms(3) len F(3) by (simp add: subspan_def)
  then have "\<forall>fs l. suffix_append N fs wr ?g l = suffix_append N fs wr h l"
    using len by (simp add: suffix_append_def wr F Let_def)
  moreover have "ms_prefix_index N ?g p = ms_prefix_index N h p"
  proof -
    have "le_nat x div 2 ^ (8 * N - unat p) = le_nat (drop (N - ?c) x) div 2 ^ (8 * ?c - unat p)"
      if "length x = N" for x
    proof -
      have "unat p \<le> 8 * ?c" by simp
      moreover have "?c \<le> N" using assms(1,4) by simp
      ultimately have eq: "8 * N - unat p = 8 * (N - ?c) + (8 * ?c - unat p)" by (simp add: diff_mult_distrib2)
      have "le_nat (drop (N - ?c) x) = le_nat x div 2 ^ (8 * (N - ?c))"
        using that by (simp add: le_nat_take_drop(2) pow256)
      then show ?thesis unfolding eq power_add div_mult2_eq by (simp only:)
    qed
    moreover have "drop (N - ?c) ?g = drop (N - ?c) h" using assms(1,4) by (intro drop_eq) simp
    ultimately have "le_nat ?g div 2 ^ (8 * N - unat p) = le_nat h div 2 ^ (8 * N - unat p)"
      using len by (metis length_list_update)
    then show ?thesis using assms(1,4) ms_prefix_index_eq [OF g, of p] ms_prefix_index_eq [OF assms(5), of p] by simp
  qed
  ultimately show ?thesis using g ne by blast
qed

theorem suffix_file_loses_low_bytes_witness:
  "\<exists>fs1 wr g. mk_ls_suffix_writer 16 [([''S''], File [])] [''S''] 2 12 = Inr (fs1, wr) \<and>
     g \<noteq> replicate 16 0 \<and> ms_prefix_index 16 g 12 = ms_prefix_index 16 (replicate 16 0) 12"
proof -
  obtain fs1 wr where W: "mk_ls_suffix_writer 16 [([''S''], File [])] [''S''] 2 12 = Inr (fs1, wr)"
    by (simp add: mk_ls_suffix_writer_def mk_ls_suffix_file_def os_open_app_def fs_node_def)
  with suffix_file_loses_low_bytes [OF _ _ _ _ _ W, of "replicate 16 0"] show ?thesis
    by (auto simp: hash_wf_def)
qed

end
