(* ===== verification/Suffix_Factory.thy ===== *)
theory Suffix_Factory
  imports Record_Files
begin

text \<open>
  The functions of \<^verbatim>\<open>apps/wedding_cake/include/reader_writer_factory.hpp\<close> for suffix files: there is
  one file for every prefix, in a tree of folders named by the bytes of the prefix, and the
  functions make the folders as they go.  Each passes its \<open>uint64_t\<close> to a parameter of type
  \<open>MsPrefixIndex\<close>, whose constructor is explicit; the conversion that the calls ask for, and that
  the compiler refuses, is written out here as the constructor.
\<close>

section \<open>The functions\<close>

definition create_empty_ls_suffix_entries_file :: "fs \<Rightarrow> reader_writer_factory \<Rightarrow> u64 \<Rightarrow> fs res" where
  "create_empty_ls_suffix_entries_file fs fac index =
     rbind (make_ms_prefix_path (rwf_path fac) (rwf_ms_prefix_bits_count fac) (MsPrefixIndex index))
       (\<lambda>file_path.
     rbind (fs_create_directories fs (butlast file_path)) (\<lambda>fs1.
     case fs_truncate fs1 file_path of
       None \<Rightarrow> Inl (Runtime_Error ''Failed to create empty LSSuffixEntries file at: '')
     | Some fs2 \<Rightarrow> Inr fs2))"

definition create_ls_suffix_entries_file_writer ::
  "nat \<Rightarrow> fs \<Rightarrow> reader_writer_factory \<Rightarrow> u64 \<Rightarrow> (fs \<times> ls_suffix_writer) res" where
  "create_ls_suffix_entries_file_writer N fs fac index =
     rbind (make_ms_prefix_path (rwf_path fac) (rwf_ms_prefix_bits_count fac) (MsPrefixIndex index))
       (\<lambda>file_path.
     rbind (fs_create_directories fs (butlast file_path)) (\<lambda>fs1.
     mk_ls_suffix_writer N fs1 file_path (rwf_pi_bytes_count fac) (rwf_ms_prefix_bits_count fac)))"

definition create_ls_suffix_entries_file_reader ::
  "nat \<Rightarrow> fs \<Rightarrow> reader_writer_factory \<Rightarrow> u64 \<Rightarrow> ls_suffix_reader res" where
  "create_ls_suffix_entries_file_reader N fs fac index =
     rbind (make_ms_prefix_path (rwf_path fac) (rwf_ms_prefix_bits_count fac) (MsPrefixIndex index))
       (\<lambda>file_path.
     mk_ls_suffix_reader N fs file_path (rwf_pi_bytes_count fac) (rwf_ms_prefix_bits_count fac))"

section \<open>The path of a prefix\<close>

lemma make_ms_prefix_path_shape:
  assumes "unat p \<le> 64"
  shows "\<exists>r. r \<noteq> [] \<and> make_ms_prefix_path dir p i = Inr (dir @ r)
    \<and> length r = (if p = 0 then 1 else 1 + (unat p + 7) div 8)"
proof (cases "p = 0")
  case True
  then show ?thesis by (simp add: make_ms_prefix_path_def)
next
  case False
  have "\<not> p > 64" using assms by (simp add: word_less_nat_alt)
  with False show ?thesis
    by (simp add: make_ms_prefix_path_def Let_def prefix_path_levels_def)
qed

lemma prefix_files_apart:
  assumes "unat p \<le> 64" "unat i mod 2 ^ unat p \<noteq> unat j mod 2 ^ unat p"
    and "make_ms_prefix_path dir p (MsPrefixIndex i) = Inr q" "make_ms_prefix_path dir p (MsPrefixIndex j) = Inr q'"
  shows "q' \<noteq> q" "\<not> prefix q' (butlast q)"
proof -
  have "0 < unat p" using assms(2) by (cases "unat p = 0") auto
  from make_ms_prefix_path_eq_iff [OF this assms(1), of dir "MsPrefixIndex i" "MsPrefixIndex j"]
  show "q' \<noteq> q" using assms(2-4) by auto
  obtain r r' where "q = dir @ r" "q' = dir @ r'" "length r = length r'" "r \<noteq> []"
    using make_ms_prefix_path_shape [OF assms(1), of dir] assms(3,4) by (metis Inr_inject)
  then have "length (butlast q) < length q'" by (cases r) simp_all
  then show "\<not> prefix q' (butlast q)" by (auto dest: prefix_length_le)
qed

section \<open>Properties\<close>

text \<open>C35: Through the factory, for every prefix of at most 64 bits: creating the suffix file of a prefix
  index anew makes its folders, and appending hashes with their indices and destroying the writer
  leaves a file from which a reader, after seeking to any record, restores the index and the bytes
  of the hash from byte \<open>p div 8\<close> on; the suffix files of all other prefixes are left as they were.\<close>

theorem factory_suffix_file_roundtrip:
  assumes "mk_reader_writer_factory N dir w p = Inr fac" "unat p \<le> 64" "N \<le> 64"
    and "make_ms_prefix_path dir p (MsPrefixIndex idx) = Inr q"
    and "fs_wf fs" "\<forall>r. prefix r (butlast q) \<longrightarrow> fs_node fs r = None \<or> fs_node fs r = Some Dir" "fs_node fs q \<noteq> Some Dir"
    and "\<forall>e \<in> set es. hash_wf N (fst e)" "\<forall>e \<in> set es. unat (lpi_int (snd e)) < 256 ^ unat w"
    and "length es * (N + 8) < 2 ^ 63" "length buf = N"
  shows "\<exists>fs1 fs2 w2 fs3 w3 rd.
    create_empty_ls_suffix_entries_file fs fac idx = Inr fs1 \<and>
    create_ls_suffix_entries_file_writer N fs1 fac idx = Inr (fs2, w2) \<and>
    suffix_append_all N es (fs2, w2) = Inr (fs3, w3) \<and>
    create_ls_suffix_entries_file_reader N (destroy_suffix_writer fs3 w3) fac idx = Inr rd \<and>
    (\<forall>i < length es. \<exists>r1 r2. suffix_seek_entry rd (of_nat i) = (True, r1) \<and>
       suffix_read_next N r1 buf l0 =
         Inr (True, take (unat p div 8) buf @ drop (unat p div 8) (fst (es ! i)), snd (es ! i), r2)) \<and>
    (\<forall>j q'. make_ms_prefix_path dir p (MsPrefixIndex j) = Inr q' \<and> unat j mod 2 ^ unat p \<noteq> unat idx mod 2 ^ unat p \<longrightarrow>
       fs_node (destroy_suffix_writer fs3 w3) q' = fs_node fs q')"
proof -
  note fac = mk_factory_ok [OF assms(1)]
  obtain d name where q: "q = d @ [name]" "butlast q = d"
    using make_ms_prefix_path_shape [OF assms(2), of dir "MsPrefixIndex idx"] assms(4)
    by (metis Inr_inject append_butlast_last_id append_is_Nil_conv)
  have "fs_node fs r \<noteq> Some (File c)" if "prefix r d" for r c
    using assms(6) that by (auto simp: q)
  from fs_create_directories_spec [OF assms(5) this] obtain fsd where
    fsd: "fs_create_directories fs d = Inr fsd" "fs_wf fsd"
      "\<And>r. fs_node fsd r = (if prefix r d then Some Dir else fs_node fs r)" by blast
  have d: "fs_is_directory fsd d" "fs_node fsd q \<noteq> Some Dir"
    using fsd(3) assms(7) by (auto simp: fs_is_directory_def q(1) prefix_def)
  obtain fs1 where t: "fs_truncate fsd q = Some fs1" "fs_node fs1 q = Some (File [])"
    "\<And>r. r \<noteq> q \<Longrightarrow> fs_node fs1 r = fs_node fsd r"
    using fs_truncate_only [of fsd d name] d by (auto simp: q(1))
  have wf1: "fs_wf fs1" using fs_truncate_wf [OF t(1) fsd(2)] .
  have dirs: "fs_node fs1 r = Some Dir" if "prefix r d" for r
  proof -
    have "r \<noteq> q" using that by (auto simp: q(1) prefix_def)
    then show ?thesis using t(3) fsd(3) that by simp
  qed
  then have "fs_node fs1 r \<noteq> Some (File c)" if "prefix r d" for r c using that by simp
  from fs_create_directories_spec [OF wf1 this] obtain fse where
    fse: "fs_create_directories fs1 d = Inr fse" "\<And>r. fs_node fse r = (if prefix r d then Some Dir else fs_node fs1 r)"
    by blast
  have same: "fs_node fse r = fs_node fs1 r" for r using fse(2) dirs by simp
  have new: "fs_node fse q = Some (File [])" using same t(2) by simp
  obtain fs2 w2 fs3 w3 rd where R: "mk_ls_suffix_writer N fse q w p = Inr (fs2, w2)"
    "suffix_append_all N es (fs2, w2) = Inr (fs3, w3)"
    "mk_ls_suffix_reader N (destroy_suffix_writer fs3 w3) q w p = Inr rd"
    "\<forall>i < length es. \<exists>r1 r2. suffix_seek_entry rd (of_nat i) = (True, r1) \<and>
       suffix_read_next N r1 buf l0 =
         Inr (True, take (unat p div 8) buf @ drop (unat p div 8) (fst (es ! i)), snd (es ! i), r2)"
    "\<forall>q'. q' \<noteq> q \<longrightarrow> fs_node (destroy_suffix_writer fs3 w3) q' = fs_node fse q'"
    using suffix_file_restored [OF fac(4-6) assms(3) new assms(8-11), of l0] by blast
  have "fs_node (destroy_suffix_writer fs3 w3) q' = fs_node fs q'"
    if "make_ms_prefix_path dir p (MsPrefixIndex j) = Inr q'" "unat j mod 2 ^ unat p \<noteq> unat idx mod 2 ^ unat p" for j q'
    using prefix_files_apart [OF assms(2) _ assms(4) that(1)] that(2) R(5) same t(3) fsd(3) by (auto simp: q(2))
  moreover have "create_empty_ls_suffix_entries_file fs fac idx = Inr fs1"
    using fsd(1) t(1) by (simp add: create_empty_ls_suffix_entries_file_def fac assms(4) q(2))
  moreover have "create_ls_suffix_entries_file_writer N fs1 fac idx = Inr (fs2, w2)"
    using fse(1) R(1) by (simp add: create_ls_suffix_entries_file_writer_def fac assms(4) q(2))
  moreover have "create_ls_suffix_entries_file_reader N (destroy_suffix_writer fs3 w3) fac idx = Inr rd"
    using R(3) by (simp add: create_ls_suffix_entries_file_reader_def fac assms(4))
  ultimately show ?thesis using R(2,4) by blast
qed

theorem factory_suffix_file_roundtrip_witness:
  "\<exists>fac fs1 fs2 w2 rd r1 r2. mk_reader_writer_factory 2 [''d''] 1 8 = Inr fac \<and>
     create_empty_ls_suffix_entries_file [] fac 0xAB = Inr fs1 \<and>
     create_ls_suffix_entries_file_writer 2 fs1 fac 0xAB = Inr (fs2, w2) \<and>
     suffix_seek_entry rd 0 = (True, r1) \<and>
     suffix_read_next 2 r1 [0, 0] LOCAL_PI_NO_MATCH = Inr (True, [0, 2], LocalPi 5, r2)"
proof -
  define fac where "fac = \<lparr>rwf_path = [''d''], rwf_pi_bytes_count = 1, rwf_ms_prefix_bits_count = 8\<rparr>"
  have fac: "mk_reader_writer_factory 2 [''d''] 1 8 = Inr fac" by (simp add: mk_reader_writer_factory_def fac_def)
  obtain r where r: "r \<noteq> []" "make_ms_prefix_path [''d''] 8 (MsPrefixIndex 0xAB) = Inr ([''d''] @ r)"
    using make_ms_prefix_path_shape [of 8 "[''d'']" "MsPrefixIndex 0xAB"] by auto
  have free: "\<forall>q. prefix q (butlast ([''d''] @ r)) \<longrightarrow> fs_node [] q = None \<or> fs_node [] q = Some Dir"
    "fs_node [] ([''d''] @ r) \<noteq> Some Dir"
    by (simp_all add: fs_node_def)
  let ?es = "[([1, 2], LocalPi 5)] :: (hash \<times> local_pi) list"
  have es: "\<forall>e \<in> set ?es. hash_wf 2 (fst e)" "\<forall>e \<in> set ?es. unat (lpi_int (snd e)) < 256 ^ unat (1 :: u8)"
    by (simp_all add: hash_wf_def)
  have small: "unat (8 :: u8) \<le> 64" "(2 :: nat) \<le> 64" "length ?es * (2 + 8) < 2 ^ 63" "length [0 :: u8, 0] = 2" by simp_all
  obtain fs1 fs2 w2 rd where W: "create_empty_ls_suffix_entries_file [] fac 0xAB = Inr fs1"
    "create_ls_suffix_entries_file_writer 2 fs1 fac 0xAB = Inr (fs2, w2)"
    "\<forall>i < length ?es. \<exists>r1 r2. suffix_seek_entry rd (of_nat i) = (True, r1) \<and>
       suffix_read_next 2 r1 [0, 0] LOCAL_PI_NO_MATCH =
         Inr (True, take (unat (8 :: u8) div 8) [0, 0] @ drop (unat (8 :: u8) div 8) (fst (?es ! i)), snd (?es ! i), r2)"
    using factory_suffix_file_roundtrip [OF fac small(1,2) r(2) fs_wf_Nil free es small(3,4), of LOCAL_PI_NO_MATCH] by blast
  from W(3) [rule_format, of 0] obtain r1 r2 where "suffix_seek_entry rd 0 = (True, r1)"
    "suffix_read_next 2 r1 [0, 0] LOCAL_PI_NO_MATCH = Inr (True, [0, 2], LocalPi 5, r2)" by auto
  with fac W(1,2) show ?thesis by blast
qed

end
