(* ===== verification/Manifest_Log.thy ===== *)
theory Manifest_Log
  imports File_System
begin

text \<open>
  \<^verbatim>\<open>include/evolving_disk_state_old/manifest_engine.hpp\<close>, \<^verbatim>\<open>slice_context.hpp\<close> and
  \<^verbatim>\<open>type_states.hpp\<close>: the transaction log of a state folder, the work slices that write data
  files under it, and the recovery that cuts the data files back to the last commit that the
  log holds.  The iteration order of an \<open>unordered_map\<close> is that of an association list.
  File names are single path components.

  The lemmas relate the bytes of the log to the records written (\<open>log_record\<close>), show what
  replaying any prefix of them yields, and what recovery leaves in the folder.
\<close>

section \<open>The transaction log\<close>

definition REC_DECLARATION :: u8 where
  "REC_DECLARATION = 0x01"

definition REC_COMMIT :: u8 where
  "REC_COMMIT = 0x02"

definition COMMIT_MAGIC :: u32 where
  "COMMIT_MAGIC = 0x434F4D54"

definition name_bytes :: "string \<Rightarrow> bytes" where
  "name_bytes name = map (\<lambda>c. of_nat (of_char c)) name"

definition bytes_name :: "bytes \<Rightarrow> string" where
  "bytes_name bs = map (\<lambda>b. char_of (unat b)) bs"

text \<open>\<open>me_out\<close> is the log stream once it is open.\<close>

record manifest_engine =
  me_state_dir :: path
  me_manifest_path :: path
  me_out :: "ofstream option"

definition mk_manifest_engine :: "path \<Rightarrow> manifest_engine" where
  "mk_manifest_engine state_dir =
     \<lparr>me_state_dir = state_dir, me_manifest_path = state_dir @ [''manifest.tx''], me_out = None\<rparr>"

definition ensure_manifest_open :: "fs \<Rightarrow> manifest_engine \<Rightarrow> fs \<times> manifest_engine" where
  "ensure_manifest_open fs me =
     (case me_out me of
        Some s \<Rightarrow> (fs, me)
      | None \<Rightarrow> (case os_open_app fs (me_manifest_path me) of (fs', s) \<Rightarrow>
          if os_ok s then (fs', me\<lparr>me_out := Some s\<rparr>) else (fs', me)))"

text \<open>Consecutive writes to the log stream; a stream that is not open drops them.\<close>

definition log_write :: "fs \<times> manifest_engine \<Rightarrow> bytes \<Rightarrow> fs \<times> manifest_engine" where
  "log_write d bs =
     (case d of (fs, me) \<Rightarrow>
      case me_out me of
        None \<Rightarrow> (fs, me)
      | Some s \<Rightarrow> (case os_write fs s bs of (fs', s') \<Rightarrow> (fs', me\<lparr>me_out := Some s'\<rparr>)))"

definition record_microstep_declaration ::
  "fs \<times> manifest_engine \<Rightarrow> string \<Rightarrow> u64 \<Rightarrow> fs \<times> manifest_engine" where
  "record_microstep_declaration d filename target_offset =
     (let d0 = ensure_manifest_open (fst d) (snd d);
          len = of_nat (length filename) :: u8;
          d1 = log_write d0 [REC_DECLARATION];
          d2 = log_write d1 [len];
          d3 = log_write d2 (take (unat len) (name_bytes filename))
      in log_write d3 (le_bytes 8 target_offset))"

definition flush_handle :: "ofstream \<Rightarrow> fs \<times> ofstream list \<Rightarrow> fs \<times> ofstream list" where
  "flush_handle handle s =
     (case s of (fs, handles) \<Rightarrow>
      if os_ok handle then (case os_flush fs handle of (fs', h) \<Rightarrow> (fs', handles @ [h]))
      else (fs, handles @ [handle]))"

text \<open>\<open>flush_directory_handles\<close> has an empty body.\<close>

definition commit_work_slice ::
  "fs \<times> manifest_engine \<Rightarrow> u32 \<Rightarrow> ofstream list \<Rightarrow> (fs \<times> manifest_engine) \<times> ofstream list" where
  "commit_work_slice d slice_id open_handles =
     (case fold flush_handle open_handles (fst d, []) of (fs1, handles) \<Rightarrow>
      let d0 = ensure_manifest_open fs1 (snd d);
          d1 = log_write d0 [REC_COMMIT];
          d2 = log_write d1 (le_bytes 4 (ucast COMMIT_MAGIC));
          d3 = log_write d2 (le_bytes 4 (ucast slice_id))
      in ((case d3 of (fs3, me3) \<Rightarrow>
             (case me_out me3 of
                None \<Rightarrow> (fs3, me3)
              | Some s \<Rightarrow> (case os_flush fs3 s of (fs4, s') \<Rightarrow> (fs4, me3\<lparr>me_out := Some s'\<rparr>)))),
          handles))"

section \<open>Recovery\<close>

text \<open>
  The body of a declaration: a short read leaves zeros in the length, in the rest of the name
  and in the rest of the offset.
\<close>

definition read_declaration :: "ifstream \<Rightarrow> string \<times> u64 \<times> ifstream" where
  "read_declaration s =
     (case is_read s 1 of (len_bytes, s1) \<Rightarrow>
      let len = (if len_bytes = [] then 0 else unat (hd len_bytes)) in
      case is_read s1 len of (got, s2) \<Rightarrow>
      let fname = bytes_name (got @ replicate (len - length got) 0) in
      case is_read s2 8 of (offset_bytes, s3) \<Rightarrow>
      (fname, le_word offset_bytes, s3))"

definition read_commit :: "ifstream \<Rightarrow> u32 \<times> ifstream" where
  "read_commit s =
     (case is_read s 4 of (magic_bytes, s1) \<Rightarrow>
      case is_read s1 4 of (slice_id_bytes, s2) \<Rightarrow>
      (ucast (le_word magic_bytes), s2))"

definition commit_pending :: "(string \<times> u64) list \<Rightarrow> (string \<times> u64) list \<Rightarrow> (string \<times> u64) list" where
  "commit_pending pending committed = fold (\<lambda>(fname, n) c. AList.update fname n c) pending committed"

lemma is_read_advances:
  "is_read s n = (got, s') \<Longrightarrow> is_content s' = is_content s \<and> is_pos s \<le> is_pos s'"
  by (auto simp: is_read_def Let_def split: if_splits)

lemma read_declaration_advances:
  "read_declaration s = (fname, n, s') \<Longrightarrow> is_content s' = is_content s \<and> is_pos s \<le> is_pos s'"
  by (auto simp: read_declaration_def Let_def split: prod.splits dest!: is_read_advances)

lemma read_commit_advances:
  "read_commit s = (magic, s') \<Longrightarrow> is_content s' = is_content s \<and> is_pos s \<le> is_pos s'"
  by (auto simp: read_commit_def split: prod.splits dest!: is_read_advances)

lemma is_peek_read_advances:
  assumes "is_peek s = (Some c, s0)" "is_read s0 1 = (t, s1)"
  shows "is_content s1 = is_content s" "is_pos s1 = Suc (is_pos s)" "is_pos s < length (is_content s)"
  using assms by (auto simp: is_peek_def is_read_def Let_def split: if_splits)

lemma record_read_decreases:
  assumes "(Some c, s0) = is_peek s" "(t, s1) = is_read s0 1"
  shows "(fname, n, s2) = read_declaration s1 \<Longrightarrow>
      length (is_content s2) - is_pos s2 < length (is_content s) - is_pos s"
    and "(magic, s2) = read_commit s1 \<Longrightarrow>
      length (is_content s2) - is_pos s2 < length (is_content s) - is_pos s"
proof -
  note 1 = is_peek_read_advances [OF assms(1) [symmetric] assms(2) [symmetric]]
  show "length (is_content s2) - is_pos s2 < length (is_content s) - is_pos s"
    if "(fname, n, s2) = read_declaration s1"
    using 1 read_declaration_advances [OF that [symmetric]] by (simp, linarith)
  show "length (is_content s2) - is_pos s2 < length (is_content s) - is_pos s"
    if "(magic, s2) = read_commit s1"
    using 1 read_commit_advances [OF that [symmetric]] by (simp, linarith)
qed

function replay ::
  "ifstream \<Rightarrow> (string \<times> u64) list \<Rightarrow> (string \<times> u64) list \<Rightarrow> (string \<times> u64) list" where
  "replay s pending_lengths last_committed_lengths =
     (case is_peek s of
        (None, s0) \<Rightarrow> last_committed_lengths
      | (Some c, s0) \<Rightarrow>
         (case is_read s0 1 of (rec_type, s1) \<Rightarrow>
          if is_fail s1 then last_committed_lengths
          else if rec_type = [REC_DECLARATION] then
            (case read_declaration s1 of (fname, offset, s2) \<Rightarrow>
               replay s2 (AList.update fname offset pending_lengths) last_committed_lengths)
          else if rec_type = [REC_COMMIT] then
            (case read_commit s1 of (magic, s2) \<Rightarrow>
               replay s2 pending_lengths
                 (if magic = COMMIT_MAGIC then commit_pending pending_lengths last_committed_lengths
                  else last_committed_lengths))
          else last_committed_lengths))"
  by pat_completeness auto
termination
  by (relation "measure (\<lambda>(s, p, c). length (is_content s) - is_pos s)")
     (auto intro: record_read_decreases simp del: One_nat_def)

declare replay.simps [simp del]

definition fs_resize_file :: "fs \<Rightarrow> path \<Rightarrow> u64 \<Rightarrow> fs res" where
  "fs_resize_file fs p n =
     (case fs_node fs p of
        Some (File c) \<Rightarrow>
          Inr (AList.update p (File (take (unat n) c @ replicate (unat n - length c) 0)) fs)
      | _ \<Rightarrow> Inl Filesystem_Error)"

definition truncate_committed :: "path \<Rightarrow> fs \<Rightarrow> string \<times> u64 \<Rightarrow> fs res" where
  "truncate_committed state_dir fs entry =
     (let target = state_dir @ [fst entry] in
      if fs_exists fs target then fs_resize_file fs target (snd entry) else Inr fs)"

definition recover_state_directory :: "fs \<Rightarrow> path \<Rightarrow> fs res" where
  "recover_state_directory fs state_dir =
     (let tx_file = state_dir @ [''manifest.tx''] in
      if \<not> fs_exists fs tx_file then Inr fs
      else case is_open_file fs tx_file of
        None \<Rightarrow> Inr fs
      | Some s \<Rightarrow> rfold (truncate_committed state_dir) fs (replay s [] []))"

section \<open>Work slices\<close>

text \<open>
  An open data file, and whether this stream wrote to it.  The position of a stream in append
  mode is the end of the file after a write; before the first write it is up to the
  implementation, and \<open>app_pos\<close> gives it for the size of the file.
\<close>

record slice_stream =
  ss_stream :: ofstream
  ss_written :: bool

record slice_context =
  sc_state_dir :: path
  sc_slice_id :: u32
  sc_open_files :: "(string \<times> slice_stream) list"

definition mk_slice_context :: "path \<Rightarrow> u32 \<Rightarrow> slice_context" where
  "mk_slice_context state_dir slice_id =
     \<lparr>sc_state_dir = state_dir, sc_slice_id = slice_id, sc_open_files = []\<rparr>"

definition slice_open :: "string \<Rightarrow> fs \<times> slice_context \<Rightarrow> fs \<times> slice_context" where
  "slice_open fname s =
     (case s of (fs, sc) \<Rightarrow>
      if map_of (sc_open_files sc) fname \<noteq> None then (fs, sc)
      else (case os_open_app fs (sc_state_dir sc @ [fname]) of (fs', stream) \<Rightarrow>
        (fs', sc\<lparr>sc_open_files := sc_open_files sc @
                  [(fname, \<lparr>ss_stream = stream, ss_written = False\<rparr>)]\<rparr>)))"

text \<open>
  The action of a microstep is the list of the writes it makes through the handles it was
  given; \<open>files.at\<close> throws for a name that is not one of them.
\<close>

definition slice_write ::
  "string list \<Rightarrow> fs \<times> slice_context \<Rightarrow> string \<times> bytes \<Rightarrow> (fs \<times> slice_context) res" where
  "slice_write filenames s w =
     (case s of (fs, sc) \<Rightarrow>
      if fst w \<notin> set filenames then Inl (Logic_Error ''unordered_map::at'')
      else case map_of (sc_open_files sc) (fst w) of
        None \<Rightarrow> Inl (Logic_Error ''unordered_map::at'')
      | Some h \<Rightarrow> (case os_write fs (ss_stream h) (snd w) of (fs', stream) \<Rightarrow>
          Inr (fs', sc\<lparr>sc_open_files := AList.update (fst w)
                         \<lparr>ss_stream = stream, ss_written = True\<rparr> (sc_open_files sc)\<rparr>)))"

definition microstep ::
  "string list \<Rightarrow> (string \<times> bytes) list \<Rightarrow> fs \<times> slice_context \<Rightarrow> (fs \<times> slice_context) res" where
  "microstep filenames action s = rfold (slice_write filenames) (fold slice_open filenames s) action"

definition os_tellp :: "(nat \<Rightarrow> nat) \<Rightarrow> fs \<Rightarrow> slice_stream \<Rightarrow> u64" where
  "os_tellp app_pos fs h =
     (if \<not> os_ok (ss_stream h) then NOT 0
      else case os_content fs (ss_stream h) of
        None \<Rightarrow> NOT 0
      | Some c \<Rightarrow> of_nat (if ss_written h then length c else app_pos (length c)))"

definition declare_file ::
  "(nat \<Rightarrow> nat) \<Rightarrow> string \<times> slice_stream \<Rightarrow> (fs \<times> manifest_engine) \<times> (string \<times> slice_stream) list
    \<Rightarrow> (fs \<times> manifest_engine) \<times> (string \<times> slice_stream) list" where
  "declare_file app_pos f s =
     (case s of ((fs, me), files) \<Rightarrow>
      case os_flush fs (ss_stream (snd f)) of (fs1, stream) \<Rightarrow>
      let h = (snd f)\<lparr>ss_stream := stream\<rparr>;
          final_pos = os_tellp app_pos fs1 h
      in (record_microstep_declaration (fs1, me) (fst f) final_pos, files @ [(fst f, h)]))"

text \<open>The destructor; closing the flushed streams changes nothing on disk.\<close>

definition destroy_slice_context ::
  "(nat \<Rightarrow> nat) \<Rightarrow> fs \<times> manifest_engine \<Rightarrow> slice_context \<Rightarrow> fs \<times> manifest_engine" where
  "destroy_slice_context app_pos d sc =
     (case fold (declare_file app_pos) (sc_open_files sc) (d, []) of (d1, files) \<Rightarrow>
      case commit_work_slice d1 (sc_slice_id sc) (map (ss_stream \<circ> snd) files) of
        ((fs2, me2), handles) \<Rightarrow>
          (fold (\<lambda>h fs. fst (os_flush fs h)) handles fs2, me2))"

section \<open>The workers\<close>

text \<open>\<open>HashEntry\<close> has four bytes of padding after its two members.\<close>

record hash_entry =
  he_hash :: u64
  he_presentation_index :: u32

definition hash_entry_bytes :: "bytes \<Rightarrow> hash_entry \<Rightarrow> bytes" where
  "hash_entry_bytes padding e =
     le_bytes 8 (he_hash e) @ le_bytes 4 (ucast (he_presentation_index e)) @ padding"

definition filling_execute_work_slice ::
  "bytes \<Rightarrow> hash_entry \<Rightarrow> fs \<times> slice_context \<Rightarrow> (fs \<times> slice_context) res" where
  "filling_execute_work_slice padding entry s =
     microstep [''raw_hashes.dat''] [(''raw_hashes.dat'', hash_entry_bytes padding entry)] s"

definition sprinkling_execute_work_slice :: "fs \<times> slice_context \<Rightarrow> (fs \<times> slice_context) res" where
  "sprinkling_execute_work_slice s =
     microstep [''sprinkles_stage1.bf'', ''sprinkles_stage2.bf'']
       [(''sprinkles_stage1.bf'', name_bytes ''STAGE1_DATA''),
        (''sprinkles_stage2.bf'', name_bytes ''STAGE2_DATA'')] s"

section \<open>The records of a log\<close>

datatype log_record = Declaration string u64 | Commit u32

fun log_bytes :: "log_record \<Rightarrow> bytes" where
  "log_bytes (Declaration fname n) =
     REC_DECLARATION # of_nat (length fname) # name_bytes fname @ le_bytes 8 n"
| "log_bytes (Commit slice_id) =
     REC_COMMIT # le_bytes 4 (ucast COMMIT_MAGIC) @ le_bytes 4 (ucast slice_id)"

fun record_wf :: "log_record \<Rightarrow> bool" where
  "record_wf (Declaration fname n) = (length fname < 256)"
| "record_wf (Commit slice_id) = True"

abbreviation whole_log :: "log_record list \<Rightarrow> bytes" where
  "whole_log recs \<equiv> concat (map log_bytes recs)"

text \<open>Declarations wait in \<open>pending\<close>, and stay there, until a commit copies all of them.\<close>

fun apply_record ::
  "log_record \<Rightarrow> (string \<times> u64) list \<times> (string \<times> u64) list
    \<Rightarrow> (string \<times> u64) list \<times> (string \<times> u64) list" where
  "apply_record (Declaration fname n) (pending, committed) = (AList.update fname n pending, committed)"
| "apply_record (Commit slice_id) (pending, committed) = (pending, commit_pending pending committed)"

definition committed_by :: "log_record list \<Rightarrow> (string \<times> u64) list" where
  "committed_by recs = snd (fold apply_record recs ([], []))"

text \<open>
  The records that count when only the first \<open>k\<close> bytes of a log reached the disk: the complete
  ones, and a commit that is complete up to its magic number.
\<close>

fun is_commit :: "log_record \<Rightarrow> bool" where
  "is_commit (Declaration fname n) = False"
| "is_commit (Commit slice_id) = True"

fun surviving :: "nat \<Rightarrow> log_record list \<Rightarrow> log_record list" where
  "surviving k [] = []"
| "surviving k (r # rs) =
     (if length (log_bytes r) \<le> k then r # surviving (k - length (log_bytes r)) rs
      else if is_commit r \<and> 5 \<le> k then [r] else [])"

lemma bytes_name_bytes [simp]: "bytes_name (name_bytes fname) = fname"
proof -
  have "char_of (unat (of_nat (of_char c) :: u8)) = c" for c
  proof -
    have "(of_char c :: nat) < 256" by (metis mod_less_divisor of_char_mod_256 zero_less_numeral)
    then have "unat (of_nat (of_char c) :: u8) = of_char c" by (simp add: unat_of_nat)
    then show ?thesis by simp
  qed
  then show ?thesis by (simp add: bytes_name_def name_bytes_def comp_def)
qed

lemma length_name_bytes [simp]: "length (name_bytes fname) = length fname"
  by (simp add: name_bytes_def)

lemma is_read_good:
  assumes "is_good s" "n \<le> length (is_rest s)"
  shows "\<exists>s'. is_read s n = (take n (is_rest s), s') \<and> is_good s' \<and> is_rest s' = drop n (is_rest s)"
  using is_read_full [OF assms(1), of "take n (is_rest s)" "drop n (is_rest s)" n] assms(2) by simp

lemma is_read_short:
  assumes "is_good s" "length (is_rest s) < n"
  shows "\<exists>s'. is_read s n = (is_rest s, s') \<and> is_fail s'"
  using assms by (simp add: is_read_def is_rest_def Let_def)

lemma is_read_fail:
  assumes "is_fail s"
  shows "\<exists>s'. is_read s n = ([], s') \<and> is_fail s'"
  using assms by (simp add: is_read_def is_good_def)

lemma replay_fail: "is_fail s \<Longrightarrow> replay s pend com = com"
  by (simp add: replay.simps [of s] is_peek_def is_good_def)

lemma replay_end: "is_good s \<Longrightarrow> is_rest s = [] \<Longrightarrow> replay s pend com = com"
  by (simp add: replay.simps [of s] is_peek_def is_rest_def)

text \<open>The type byte of a record.\<close>

lemma replay_type:
  assumes "is_good s" "is_rest s = b # rest"
  shows "\<exists>s1. is_good s1 \<and> is_rest s1 = rest \<and> replay s pend com =
    (if b = REC_DECLARATION then
       (case read_declaration s1 of (fname, offset, s2) \<Rightarrow> replay s2 (AList.update fname offset pend) com)
     else if b = REC_COMMIT then
       (case read_commit s1 of (magic, s2) \<Rightarrow>
          replay s2 pend (if magic = COMMIT_MAGIC then commit_pending pend com else com))
     else com)"
proof -
  have "is_pos s < length (is_content s)" using assms(2) by (cases "is_pos s < length (is_content s)") (auto simp: is_rest_def)
  then have peek: "is_peek s = (Some (is_content s ! is_pos s), s)" using assms(1) by (simp add: is_peek_def)
  obtain s1 where s1: "is_read s 1 = ([b], s1)" "is_good s1" "is_rest s1 = rest"
    using is_read_good [OF assms(1), of 1] assms(2) by auto
  then have "replay s pend com =
    (if b = REC_DECLARATION then
       (case read_declaration s1 of (fname, offset, s2) \<Rightarrow> replay s2 (AList.update fname offset pend) com)
     else if b = REC_COMMIT then
       (case read_commit s1 of (magic, s2) \<Rightarrow>
          replay s2 pend (if magic = COMMIT_MAGIC then commit_pending pend com else com))
     else com)"
    by (subst replay.simps) (simp add: peek is_good_def)
  with s1 show ?thesis by blast
qed

lemma le_word_le_bytes_ucast: "le_word (le_bytes 4 (ucast (w :: u32))) = ucast w"
proof (rule le_word_le_bytes)
  have "unat w < 2 ^ 32" using unsigned_less [of w, where ?'a = nat] by simp
  then show "unat (ucast w :: u64) < 256 ^ 4" by (simp add: unsigned_ucast_eq take_bit_nat_eq_self)
qed simp

lemma ucast_magic: "(ucast (ucast (w :: u32) :: u64) :: u32) = w"
  by (intro bit_word_eqI) (simp add: bit_simps)

lemma read_declaration_complete:
  assumes "is_good s" "length fname < 256"
    and "is_rest s = of_nat (length fname) # name_bytes fname @ le_bytes 8 n @ rest"
  shows "\<exists>s'. read_declaration s = (fname, n, s') \<and> is_good s' \<and> is_rest s' = rest"
proof -
  have len: "unat (of_nat (length fname) :: u8) = length fname" using assms(2) by (simp add: unat_of_nat)
  obtain s1 where s1: "is_read s 1 = ([of_nat (length fname)], s1)" "is_good s1"
    "is_rest s1 = name_bytes fname @ le_bytes 8 n @ rest"
    using is_read_good [OF assms(1), of 1] assms(3) by auto
  obtain s2 where s2: "is_read s1 (length fname) = (name_bytes fname, s2)" "is_good s2"
    "is_rest s2 = le_bytes 8 n @ rest"
    using is_read_full [OF s1(2,3), of "length fname"] by auto
  obtain s3 where s3: "is_read s2 8 = (le_bytes 8 n, s3)" "is_good s3" "is_rest s3 = rest"
    using is_read_full [OF s2(2,3), of 8] by auto
  have "unat n < 256 ^ 8" using unsigned_less [of n, where ?'a = nat] by simp
  then have "le_word (le_bytes 8 n) = n" by (intro le_word_le_bytes) simp_all
  then show ?thesis using s1(1) s2(1) s3 by (simp add: read_declaration_def len Let_def)
qed

lemma read_declaration_torn:
  assumes "is_good s" "length fname < 256" "j < length fname + 9"
    and "is_rest s = take j (of_nat (length fname) # name_bytes fname @ le_bytes 8 n)"
  shows "\<exists>f n' s'. read_declaration s = (f, n', s') \<and> is_fail s'"
proof -
  have len: "unat (of_nat (length fname) :: u8) = length fname" using assms(2) by (simp add: unat_of_nat)
  obtain t1 s1 where s1: "is_read s 1 = (t1, s1)" by force
  let ?len = "if t1 = [] then 0 else unat (hd t1)"
  obtain t2 s2 where s2: "is_read s1 ?len = (t2, s2)" by force
  obtain t3 s3 where s3: "is_read s2 8 = (t3, s3)" by force
  have "is_fail s3"
  proof (cases j)
    case 0
    then have "is_fail s1" using is_read_short [OF assms(1), of 1] assms(4) s1 by auto
    then have "is_fail s2" using is_read_fail [of s1 ?len] unfolding s2 by blast
    then show ?thesis using is_read_fail [of s2 8] s3 by auto
  next
    case (Suc i)
    have rest: "is_rest s = of_nat (length fname) # take i (name_bytes fname @ le_bytes 8 n)"
      using assms(4) Suc by simp
    have S1: "t1 = [of_nat (length fname)]" "is_good s1" "is_rest s1 = take i (name_bytes fname @ le_bytes 8 n)"
      using is_read_good [OF assms(1), of 1] rest s1 by auto
    have l: "?len = length fname" using S1(1) len by simp
    show ?thesis
    proof (cases "i < length fname")
      case True
      then have "is_fail s2" using is_read_short [OF S1(2), of "length fname"] S1(3) s2 l by auto
      then show ?thesis using is_read_fail [of s2 8] s3 by auto
    next
      case False
      then have S2: "is_good s2" "is_rest s2 = take (i - length fname) (le_bytes 8 n)"
        using is_read_good [OF S1(2), of "length fname"] S1(3) s2 l by auto
      have "length (is_rest s2) < 8" using S2(2) assms(3) Suc False by simp
      then show ?thesis using is_read_short [OF S2(1), of 8] s3 by auto
    qed
  qed
  then show ?thesis using s1 s2 s3 by (simp add: read_declaration_def Let_def)
qed

lemma read_commit_complete:
  assumes "is_good s" "is_rest s = le_bytes 4 (ucast COMMIT_MAGIC) @ le_bytes 4 (ucast slice_id) @ rest"
  shows "\<exists>s'. read_commit s = (COMMIT_MAGIC, s') \<and> is_good s' \<and> is_rest s' = rest"
proof -
  obtain s1 where s1: "is_read s 4 = (le_bytes 4 (ucast COMMIT_MAGIC), s1)" "is_good s1"
    "is_rest s1 = le_bytes 4 (ucast slice_id) @ rest"
    using is_read_full [OF assms, of 4] by auto
  obtain s2 where s2: "is_read s1 4 = (le_bytes 4 (ucast slice_id), s2)" "is_good s2" "is_rest s2 = rest"
    using is_read_full [OF s1(2,3), of 4] by auto
  show ?thesis using s1(1) s2 by (simp add: read_commit_def le_word_le_bytes_ucast ucast_magic)
qed

lemma read_commit_torn:
  assumes "is_good s" "j < 8"
    and "is_rest s = take j (le_bytes 4 (ucast COMMIT_MAGIC) @ le_bytes 4 (ucast slice_id))"
  shows "\<exists>magic s'. read_commit s = (magic, s') \<and> is_fail s' \<and> (magic = COMMIT_MAGIC \<longleftrightarrow> 4 \<le> j)"
proof -
  obtain t1 s1 where s1: "is_read s 4 = (t1, s1)" by force
  obtain t2 s2 where s2: "is_read s1 4 = (t2, s2)" by force
  show ?thesis
  proof (cases "j < 4")
    case True
    have S1: "t1 = take j (le_bytes 4 (ucast COMMIT_MAGIC))" "is_fail s1"
      using is_read_short [OF assms(1), of 4] assms(3) True s1 by auto
    have "is_fail s2" using is_read_fail [OF S1(2), of 4] s2 by auto
    have "le_nat t1 < 256 ^ length t1" by (rule le_nat_less)
    also have "(256 :: nat) ^ length t1 \<le> 256 ^ 3" using True S1(1) by (intro power_increasing) auto
    finally have "unat (le_word t1) < 2 ^ 24" using True S1(1) by (simp add: unat_le_word)
    then have "unat (ucast (le_word t1) :: u32) < 2 ^ 24"
      by (simp add: unsigned_ucast_eq take_bit_nat_eq_self)
    then have "ucast (le_word t1) \<noteq> COMMIT_MAGIC" by (auto simp: COMMIT_MAGIC_def)
    then show ?thesis using True s1 s2 \<open>is_fail s2\<close> by (simp add: read_commit_def)
  next
    case False
    have S1: "t1 = le_bytes 4 (ucast COMMIT_MAGIC)" "is_good s1" "is_rest s1 = take (j - 4) (le_bytes 4 (ucast slice_id))"
      using is_read_good [OF assms(1), of 4] assms(3) False s1 by auto
    have "length (is_rest s1) < 4" using S1(3) assms(2) by simp
    then have "is_fail s2" using is_read_short [OF S1(2), of 4] s2 by auto
    then show ?thesis using False s1 s2 S1(1) by (simp add: read_commit_def le_word_le_bytes_ucast ucast_magic)
  qed
qed

lemma replay_declaration:
  assumes "is_good s" "is_rest s = REC_DECLARATION # rest"
  shows "\<exists>s1. is_good s1 \<and> is_rest s1 = rest \<and> replay s pend com =
    (case read_declaration s1 of (fname, offset, s2) \<Rightarrow> replay s2 (AList.update fname offset pend) com)"
  using replay_type [OF assms, of pend com] by simp

lemma replay_commit:
  assumes "is_good s" "is_rest s = REC_COMMIT # rest"
  shows "\<exists>s1. is_good s1 \<and> is_rest s1 = rest \<and> replay s pend com =
    (case read_commit s1 of (magic, s2) \<Rightarrow>
       replay s2 pend (if magic = COMMIT_MAGIC then commit_pending pend com else com))"
  using replay_type [OF assms, of pend com] by (simp add: REC_COMMIT_def REC_DECLARATION_def)

lemma replay_record:
  assumes "is_good s" "record_wf r" "is_rest s = log_bytes r @ rest"
  shows "\<exists>s'. is_good s' \<and> is_rest s' = rest \<and>
    replay s pend com = (case apply_record r (pend, com) of (pend', com') \<Rightarrow> replay s' pend' com')"
proof (cases r)
  case (Declaration fname n)
  obtain s1 where s1: "is_good s1" "is_rest s1 = of_nat (length fname) # name_bytes fname @ le_bytes 8 n @ rest"
    "replay s pend com = (case read_declaration s1 of (fname, offset, s2) \<Rightarrow>
       replay s2 (AList.update fname offset pend) com)"
    using replay_declaration [OF assms(1), of "of_nat (length fname) # name_bytes fname @ le_bytes 8 n @ rest" pend com]
      assms(3) Declaration by auto
  with read_declaration_complete [OF s1(1) _ s1(2)] assms(2) Declaration show ?thesis by fastforce
next
  case (Commit slice_id)
  obtain s1 where s1: "is_good s1" "is_rest s1 = le_bytes 4 (ucast COMMIT_MAGIC) @ le_bytes 4 (ucast slice_id) @ rest"
    "replay s pend com = (case read_commit s1 of (magic, s2) \<Rightarrow>
       replay s2 pend (if magic = COMMIT_MAGIC then commit_pending pend com else com))"
    using replay_commit [OF assms(1), of "le_bytes 4 (ucast COMMIT_MAGIC) @ le_bytes 4 (ucast slice_id) @ rest" pend com]
      assms(3) Commit by auto
  with read_commit_complete [OF s1(1,2)] Commit show ?thesis by fastforce
qed

lemma replay_torn:
  assumes "is_good s" "record_wf r" "k < length (log_bytes r)" "is_rest s = take k (log_bytes r)"
  shows "replay s pend com = (if is_commit r \<and> 5 \<le> k then commit_pending pend com else com)"
proof (cases k)
  case 0
  then show ?thesis using assms by (simp add: replay_end)
next
  case (Suc j)
  show ?thesis
  proof (cases r)
    case (Declaration fname n)
    obtain s1 where s1: "is_good s1" "is_rest s1 = take j (of_nat (length fname) # name_bytes fname @ le_bytes 8 n)"
      "replay s pend com = (case read_declaration s1 of (fname, offset, s2) \<Rightarrow>
         replay s2 (AList.update fname offset pend) com)"
      using replay_declaration [OF assms(1), of "take j (of_nat (length fname) # name_bytes fname @ le_bytes 8 n)" pend com]
        assms(4) Declaration Suc by auto
    have "j < length fname + 9" "length fname < 256" using assms(2,3) Declaration Suc by auto
    then obtain f n' s' where "read_declaration s1 = (f, n', s')" "is_fail s'"
      using read_declaration_torn [OF s1(1) _ _ s1(2)] by blast
    then show ?thesis using s1(3) Declaration by (simp add: replay_fail)
  next
    case (Commit slice_id)
      obtain s1 where s1: "is_good s1"
      "is_rest s1 = take j (le_bytes 4 (ucast COMMIT_MAGIC) @ le_bytes 4 (ucast slice_id))"
      "replay s pend com = (case read_commit s1 of (magic, s2) \<Rightarrow>
         replay s2 pend (if magic = COMMIT_MAGIC then commit_pending pend com else com))"
      using replay_commit [OF assms(1), of "take j (le_bytes 4 (ucast COMMIT_MAGIC) @ le_bytes 4 (ucast slice_id))" pend com]
        assms(4) Commit Suc by auto
    have "j < 8" using assms(3) Commit Suc by simp
    then obtain magic s' where "read_commit s1 = (magic, s')" "is_fail s'" "magic = COMMIT_MAGIC \<longleftrightarrow> 4 \<le> j"
      using read_commit_torn [OF s1(1) _ s1(2)] by blast
    then show ?thesis using s1(3) Commit Suc by (simp add: replay_fail)
  qed
qed

lemma replay_prefix:
  assumes "is_good s" "\<forall>r \<in> set recs. record_wf r" "is_rest s = take k (whole_log recs)"
  shows "replay s pend com = snd (fold apply_record (surviving k recs) (pend, com))"
  using assms
proof (induction recs arbitrary: s k pend com)
  case Nil
  then show ?case by (simp add: replay_end)
next
  case (Cons r recs)
  show ?case
  proof (cases "length (log_bytes r) \<le> k")
    case True
    then have rest: "is_rest s = log_bytes r @ take (k - length (log_bytes r)) (whole_log recs)"
      using Cons.prems(3) by simp
    obtain pend' com' where a: "apply_record r (pend, com) = (pend', com')" by force
    obtain s' where s': "is_good s'" "is_rest s' = take (k - length (log_bytes r)) (whole_log recs)"
      "replay s pend com = replay s' pend' com'"
      using replay_record [OF Cons.prems(1) _ rest, of pend com] Cons.prems(2) a by auto
    have "replay s' pend' com' = snd (fold apply_record (surviving (k - length (log_bytes r)) recs) (pend', com'))"
      by (rule Cons.IH) (use s' Cons.prems(2) in auto)
    with s'(3) True a show ?thesis by simp
  next
    case False
    then have "replay s pend com = (if is_commit r \<and> 5 \<le> k then commit_pending pend com else com)"
      using Cons.prems by (intro replay_torn) auto
    with False show ?thesis by (cases r) auto
  qed
qed

section \<open>What recovery leaves\<close>

lemma distinct_commit_pending:
  "distinct (map fst com) \<Longrightarrow> distinct (map fst (commit_pending pend com))"
  unfolding commit_pending_def by (induction pend arbitrary: com) (auto simp: distinct_update)

lemma distinct_committed:
  "distinct (map fst com) \<Longrightarrow> distinct (map fst (snd (fold apply_record recs (pend, com))))"
proof (induction recs arbitrary: pend com)
  case Nil
  then show ?case by simp
next
  case (Cons r recs)
  then show ?case by (cases r) (auto intro: distinct_commit_pending)
qed

definition resized :: "u64 \<Rightarrow> bytes \<Rightarrow> bytes" where
  "resized n c = take (unat n) c @ replicate (unat n - length c) 0"

lemma truncate_committed_ok:
  assumes "fs_node fs (dir @ [fname]) \<noteq> Some Dir"
  shows "\<exists>fs'. truncate_committed dir fs (fname, n) = Inr fs' \<and>
    (\<forall>q. fs_node fs' q = (case fs_node fs q of
       Some (File c) \<Rightarrow> Some (File (if q = dir @ [fname] then resized n c else c)) | x \<Rightarrow> x))"
proof (cases "fs_node fs (dir @ [fname])")
  case None
  then have "truncate_committed dir fs (fname, n) = Inr fs" by (simp add: truncate_committed_def fs_exists_def)
  moreover have "fs_node fs q = (case fs_node fs q of
       Some (File c) \<Rightarrow> Some (File (if q = dir @ [fname] then resized n c else c)) | x \<Rightarrow> x)" for q
    using None by (cases "q = dir @ [fname]") (auto split: option.splits node.splits)
  ultimately show ?thesis by blast
next
  case (Some nd)
  then obtain c where c: "fs_node fs (dir @ [fname]) = Some (File c)" using assms by (cases nd) auto
  then have "truncate_committed dir fs (fname, n) =
      Inr (AList.update (dir @ [fname]) (File (resized n c)) fs)"
    by (simp add: truncate_committed_def fs_exists_def fs_resize_file_def resized_def)
  moreover have "fs_node (AList.update (dir @ [fname]) (File (resized n c)) fs) q = (case fs_node fs q of
       Some (File c) \<Rightarrow> Some (File (if q = dir @ [fname] then resized n c else c)) | x \<Rightarrow> x)" for q
    using c by (auto simp: fs_node_update split: option.splits node.splits)
  ultimately show ?thesis by blast
qed

lemma truncate_all_ok:
  assumes "distinct (map fst com)" "\<forall>f \<in> fst ` set com. fs_node fs (dir @ [f]) \<noteq> Some Dir"
  shows "\<exists>fs'. rfold (truncate_committed dir) fs com = Inr fs' \<and>
    (\<forall>f c n. map_of com f = Some n \<and> fs_node fs (dir @ [f]) = Some (File c) \<longrightarrow>
       fs_node fs' (dir @ [f]) = Some (File (resized n c))) \<and>
    (\<forall>q. (\<forall>f \<in> fst ` set com. q \<noteq> dir @ [f]) \<or> fs_node fs q = None \<or> fs_node fs q = Some Dir \<longrightarrow>
       fs_node fs' q = fs_node fs q)"
  using assms
proof (induction com arbitrary: fs)
  case Nil
  then show ?case by simp
next
  case (Cons e com)
  obtain f n where e: "e = (f, n)" by force
  obtain fs1 where t: "truncate_committed dir fs (f, n) = Inr fs1"
    and fs1: "\<And>q. fs_node fs1 q = (case fs_node fs q of
       Some (File c) \<Rightarrow> Some (File (if q = dir @ [f] then resized n c else c)) | x \<Rightarrow> x)"
    using truncate_committed_ok [of fs dir f n] Cons.prems(2) e by auto
  have dirs: "\<forall>g \<in> fst ` set com. fs_node fs1 (dir @ [g]) \<noteq> Some Dir"
    using Cons.prems(2) by (auto simp: fs1 split: option.splits node.splits)
  have fresh: "f \<notin> fst ` set com" "distinct (map fst com)" using Cons.prems(1) e by auto
  obtain fs' where R: "rfold (truncate_committed dir) fs1 com = Inr fs'"
    "\<And>g c m. map_of com g = Some m \<Longrightarrow> fs_node fs1 (dir @ [g]) = Some (File c) \<Longrightarrow>
       fs_node fs' (dir @ [g]) = Some (File (resized m c))"
    "\<And>q. (\<forall>g \<in> fst ` set com. q \<noteq> dir @ [g]) \<or> fs_node fs1 q = None \<or> fs_node fs1 q = Some Dir \<Longrightarrow>
       fs_node fs' q = fs_node fs1 q"
    using Cons.IH [OF fresh(2) dirs] by blast
  have A: "fs_node fs' (dir @ [g]) = Some (File (resized m c))"
    if "map_of (e # com) g = Some m" "fs_node fs (dir @ [g]) = Some (File c)" for g c m
  proof (cases "g = f")
    case True
    then have "fs_node fs1 (dir @ [g]) = Some (File (resized m c))" using that e by (simp add: fs1)
    moreover have "fs_node fs' (dir @ [g]) = fs_node fs1 (dir @ [g])"
      using fresh(1) True by (intro R(3)) auto
    ultimately show ?thesis by simp
  next
    case False
    then show ?thesis using that e by (intro R(2)) (simp_all add: fs1)
  qed
  have B: "fs_node fs' q = fs_node fs q"
    if "(\<forall>g \<in> fst ` set (e # com). q \<noteq> dir @ [g]) \<or> fs_node fs q = None \<or> fs_node fs q = Some Dir" for q
  proof -
    have "fs_node fs1 q = fs_node fs q" using that e by (auto simp: fs1 split: option.splits node.splits)
    moreover from this have "fs_node fs' q = fs_node fs1 q" using that by (intro R(3)) auto
    ultimately show ?thesis by simp
  qed
  show ?case using t R(1) A B e by (intro exI [of _ fs']) auto
qed

lemma recover_prefix:
  assumes "fs_node fs (dir @ [''manifest.tx'']) = Some (File (take k (whole_log recs)))"
    and "\<forall>r \<in> set recs. record_wf r"
  shows "recover_state_directory fs dir =
    rfold (truncate_committed dir) fs (committed_by (surviving k recs))"
  using assms replay_prefix [of "\<lparr>is_content = take k (whole_log recs), is_pos = 0, is_eof = False, is_fail = False\<rparr>" recs k]
  by (simp add: recover_state_directory_def fs_exists_def is_open_file_def committed_by_def is_good_def is_rest_def)

section \<open>What a work slice writes\<close>

text \<open>Two file systems that agree but for the file at \<open>p\<close>.\<close>

definition same_but :: "path \<Rightarrow> fs \<Rightarrow> fs \<Rightarrow> bool" where
  "same_but p fs fs' \<longleftrightarrow> (\<forall>q. q \<noteq> p \<longrightarrow> fs_node fs' q = fs_node fs q)"

lemma same_but_refl [simp]: "same_but p fs fs"
  by (simp add: same_but_def)

lemma same_but_trans: "same_but p a b \<Longrightarrow> same_but p b c \<Longrightarrow> same_but p a c"
  by (simp add: same_but_def)

text \<open>The log will hold \<open>L\<close> once its stream is flushed.\<close>

definition log_holds :: "fs \<times> manifest_engine \<Rightarrow> bytes \<Rightarrow> bool" where
  "log_holds d L \<longleftrightarrow> (case d of (fs, me) \<Rightarrow>
     case me_out me of
       None \<Rightarrow> fs_node fs (me_manifest_path me) = Some (File L) \<or>
         fs_node fs (me_manifest_path me) = None \<and> fs_is_directory fs (butlast (me_manifest_path me)) \<and> L = []
     | Some s \<Rightarrow> os_ok s \<and> os_path s = me_manifest_path me \<and> os_content fs s = Some L)"

definition log_open :: "fs \<times> manifest_engine \<Rightarrow> bytes \<Rightarrow> bool" where
  "log_open d L \<longleftrightarrow> me_out (snd d) \<noteq> None \<and> log_holds d L"

lemma ensure_manifest_open_ok:
  assumes "log_holds (fs, me) L" "ensure_manifest_open fs me = (fs', me')"
  shows "log_open (fs', me') L" "me_manifest_path me' = me_manifest_path me"
    "same_but (me_manifest_path me) fs fs'"
proof -
  obtain fs1 s where o: "os_open_app fs (me_manifest_path me) = (fs1, s)" by force
  note O = os_open_app_spec [OF o]
  have "os_ok s" "os_content fs1 s = Some L" if "me_out me = None"
    using os_open_app_content [OF o, of L] assms(1) that by (auto simp: log_holds_def)
  then show "log_open (fs', me') L" "me_manifest_path me' = me_manifest_path me"
    "same_but (me_manifest_path me) fs fs'"
    using assms o O(1,3)
    by (auto simp: ensure_manifest_open_def log_open_def log_holds_def same_but_def split: option.splits if_splits)
qed

lemma log_write_ok:
  assumes "log_open (fs, me) L" "log_write (fs, me) bs = (fs', me')"
  shows "log_open (fs', me') (L @ bs)" "me_manifest_path me' = me_manifest_path me"
    "same_but (me_manifest_path me) fs fs'"
proof -
  obtain s where s: "me_out me = Some s" "os_ok s" "os_path s = me_manifest_path me" "os_content fs s = Some L"
    using assms(1) by (auto simp: log_open_def log_holds_def)
  obtain fs1 s1 where w: "os_write fs s bs = (fs1, s1)" by force
  show "log_open (fs', me') (L @ bs)" "me_manifest_path me' = me_manifest_path me"
    "same_but (me_manifest_path me) fs fs'"
    using os_write_spec(1-4) [OF w s(2)] assms(2) s w
    by (auto simp: log_write_def log_open_def log_holds_def same_but_def)
qed

lemma record_declaration_ok:
  assumes "log_holds (fs, me) L" "length fname < 256"
    and "record_microstep_declaration (fs, me) fname n = (fs', me')"
  shows "log_open (fs', me') (L @ log_bytes (Declaration fname n))"
    "me_manifest_path me' = me_manifest_path me" "same_but (me_manifest_path me) fs fs'"
proof -
  have len: "unat (of_nat (length fname) :: u8) = length fname" using assms(2) by (simp add: unat_of_nat)
  obtain fs0 me0 where d0: "ensure_manifest_open fs me = (fs0, me0)" by force
  note D0 = ensure_manifest_open_ok [OF assms(1) d0]
  obtain fs1 me1 where d1: "log_write (fs0, me0) [REC_DECLARATION] = (fs1, me1)" by force
  note D1 = log_write_ok [OF D0(1) d1]
  obtain fs2 me2 where d2: "log_write (fs1, me1) [of_nat (length fname)] = (fs2, me2)" by force
  note D2 = log_write_ok [OF D1(1) d2]
  obtain fs3 me3 where d3: "log_write (fs2, me2) (name_bytes fname) = (fs3, me3)" by force
  note D3 = log_write_ok [OF D2(1) d3]
  have d4: "log_write (fs3, me3) (le_bytes 8 n) = (fs', me')"
    using assms(3) d0 d1 d2 d3 by (simp add: record_microstep_declaration_def Let_def len)
  note D4 = log_write_ok [OF D3(1) d4]
  show "log_open (fs', me') (L @ log_bytes (Declaration fname n))" using D4(1) by simp
  show "me_manifest_path me' = me_manifest_path me" using D0(2) D1(2) D2(2) D3(2) D4(2) by simp
  show "same_but (me_manifest_path me) fs fs'"
    using D0(2,3) D1(2,3) D2(2,3) D3(2,3) D4(2,3) by (auto simp: same_but_def)
qed

text \<open>The open files of a slice: streams on different files of the folder, and what they will hold.\<close>

definition slice_file_ok :: "path \<Rightarrow> fs \<Rightarrow> string \<times> slice_stream \<Rightarrow> bytes \<Rightarrow> bool" where
  "slice_file_ok dir fs f c \<longleftrightarrow>
     length (fst f) < 256 \<and> fst f \<noteq> ''manifest.tx'' \<and> os_path (ss_stream (snd f)) = dir @ [fst f] \<and>
     os_ok (ss_stream (snd f)) \<and> ss_written (snd f) \<and> os_content fs (ss_stream (snd f)) = Some c"

lemma os_content_cong:
  "fs_node fs' (os_path s) = fs_node fs (os_path s) \<Longrightarrow> os_content fs' s = os_content fs s"
  by (simp add: os_content_def)

lemma declare_file_ok:
  assumes log: "log_holds (fs, me) L" "me_manifest_path me = dir @ [''manifest.tx'']"
    and fok: "slice_file_ok dir fs f c"
    and step: "declare_file app_pos f ((fs, me), files) = ((fs', me'), files')"
  shows "log_open (fs', me') (L @ log_bytes (Declaration (fst f) (of_nat (length c))))"
    and "me_manifest_path me' = me_manifest_path me"
    and "\<exists>h. files' = files @ [(fst f, h)] \<and> os_pending (ss_stream h) = [] \<and> os_path (ss_stream h) = dir @ [fst f]"
    and "fs_node fs' (dir @ [fst f]) = Some (File c)"
    and "\<forall>q. q \<noteq> dir @ [fst f] \<and> q \<noteq> dir @ [''manifest.tx''] \<longrightarrow> fs_node fs' q = fs_node fs q"
proof -
  obtain fs1 s where fl: "os_flush fs (ss_stream (snd f)) = (fs1, s)" by force
  note F = os_flush_spec [OF fl]
  have S: "length (fst f) < 256" "fst f \<noteq> ''manifest.tx''" "os_path (ss_stream (snd f)) = dir @ [fst f]"
    "os_ok (ss_stream (snd f))" "ss_written (snd f)" "os_content fs (ss_stream (snd f)) = Some c"
    using fok unfolding slice_file_ok_def by blast+
  let ?h = "(snd f)\<lparr>ss_stream := s\<rparr>"
  have tell: "os_tellp app_pos fs1 ?h = of_nat (length c)" using F(1,4) S by (simp add: os_tellp_def)
  have node: "fs_node fs1 (dir @ [fst f]) = Some (File c)"
    using F(1-3) S by (auto simp: os_content_def split: option.splits node.splits)
  have log1: "log_holds (fs1, me) L"
  proof -
    have "fs_node fs1 (dir @ [''manifest.tx'']) = fs_node fs (dir @ [''manifest.tx''])"
      using F(5) [of "dir @ [''manifest.tx'']"] S(2,3) by simp
    with log F(7) show ?thesis
      by (auto simp: log_holds_def os_content_def split: option.splits)
  qed
  have rec: "record_microstep_declaration (fs1, me) (fst f) (of_nat (length c)) = (fs', me')"
    "files' = files @ [(fst f, ?h)]"
    using step fl tell by (simp_all add: declare_file_def Let_def)
  note R = record_declaration_ok [OF log1 S(1) rec(1)]
  show "log_open (fs', me') (L @ log_bytes (Declaration (fst f) (of_nat (length c))))" by (rule R(1))
  show "me_manifest_path me' = me_manifest_path me" by (rule R(2))
  show "\<exists>h. files' = files @ [(fst f, h)] \<and> os_pending (ss_stream h) = [] \<and> os_path (ss_stream h) = dir @ [fst f]"
    using rec(2) F(2,3) S(3) by simp
  show "fs_node fs' (dir @ [fst f]) = Some (File c)"
    using R(3) node S(2) log(2) by (simp add: same_but_def)
  show "\<forall>q. q \<noteq> dir @ [fst f] \<and> q \<noteq> dir @ [''manifest.tx''] \<longrightarrow> fs_node fs' q = fs_node fs q"
    using R(3) F(5) S(3) log(2) by (simp add: same_but_def)
qed

lemma log_open_holds: "log_open d L \<Longrightarrow> log_holds d L"
  by (simp add: log_open_def)

lemma declare_files_ok:
  assumes "log_holds (fs, me) L" "me_manifest_path me = dir @ [''manifest.tx'']"
    and "distinct (map fst fls)" "list_all2 (slice_file_ok dir fs) fls cs"
    and "\<forall>h \<in> ss_stream ` snd ` set files. os_pending h = []"
    and "fold (declare_file app_pos) fls ((fs, me), files) = ((fs', me'), files')"
  shows "log_holds (fs', me')
      (L @ whole_log (map2 (\<lambda>f c. Declaration (fst f) (of_nat (length c))) fls cs)) \<and>
    me_manifest_path me' = me_manifest_path me \<and>
    (\<forall>h \<in> ss_stream ` snd ` set files'. os_pending h = []) \<and>
    list_all2 (\<lambda>f c. fs_node fs' (dir @ [fst f]) = Some (File c)) fls cs \<and>
    (\<forall>q. q \<notin> (\<lambda>f. dir @ [fst f]) ` set fls \<and> q \<noteq> dir @ [''manifest.tx''] \<longrightarrow> fs_node fs' q = fs_node fs q)"
  using assms
proof (induction fls arbitrary: fs me files L cs)
  case Nil
  then show ?case by simp
next
  case (Cons f fls)
  obtain c cs' where cs: "cs = c # cs'" "slice_file_ok dir fs f c" "list_all2 (slice_file_ok dir fs) fls cs'"
    using Cons.prems(4) by (cases cs) auto
  obtain fs1 me1 files1 where step: "declare_file app_pos f ((fs, me), files) = ((fs1, me1), files1)" by (metis prod.exhaust)
  note D = declare_file_ok [OF Cons.prems(1,2) cs(2) step]
  have path: "me_manifest_path me1 = dir @ [''manifest.tx'']" using D(2) Cons.prems(2) by simp
  have keep: "list_all2 (slice_file_ok dir fs1) fls cs'"
  proof (rule list.rel_mono_strong [OF cs(3)])
    fix g y assume g: "g \<in> set fls" "slice_file_ok dir fs g y"
    then have "fst g \<noteq> fst f" using Cons.prems(3) by (auto simp: image_iff)
    then have "fs_node fs1 (dir @ [fst g]) = fs_node fs (dir @ [fst g])"
      using D(5) g(2) by (simp add: slice_file_ok_def)
    with g(2) os_content_cong [of fs1 "ss_stream (snd g)" fs] show "slice_file_ok dir fs1 g y"
      by (simp add: slice_file_ok_def)
  qed
  have pend: "\<forall>h \<in> ss_stream ` snd ` set files1. os_pending h = []"
  proof -
    obtain h where "files1 = files @ [(fst f, h)]" "os_pending (ss_stream h) = []" using D(3) by blast
    then have "ss_stream ` snd ` set files1 = insert (ss_stream h) (ss_stream ` snd ` set files)" by simp
    then show ?thesis using Cons.prems(5) \<open>os_pending (ss_stream h) = []\<close> by (simp only: ball_simps)
  qed
  have tail: "fold (declare_file app_pos) fls ((fs1, me1), files1) = ((fs', me'), files')"
    using Cons.prems(6) step by simp
  have dist: "distinct (map fst fls)" "\<forall>g \<in> set fls. fst g \<noteq> fst f" using Cons.prems(3) by (auto simp: image_iff)
  note IH = Cons.IH [OF log_open_holds [OF D(1)] path dist(1) keep pend tail]
  have other: "\<forall>q. q \<notin> (\<lambda>f. dir @ [fst f]) ` set fls \<and> q \<noteq> dir @ [''manifest.tx''] \<longrightarrow>
      fs_node fs' q = fs_node fs1 q" using IH by blast
  have "dir @ [fst f] \<notin> (\<lambda>f. dir @ [fst f]) ` set fls" "dir @ [fst f] \<noteq> dir @ [''manifest.tx'']"
    using dist(2) cs(2) by (auto simp: slice_file_ok_def image_iff)
  then have "fs_node fs' (dir @ [fst f]) = Some (File c)" using other D(4) by metis
  with IH D(2,5) cs(1) show ?case by auto
qed

text \<open>The commit, and the whole destructor.\<close>

lemma os_flush_idle: "os_pending s = [] \<Longrightarrow> os_flush fs s = (fs', s') \<Longrightarrow> fs_node fs' q = fs_node fs q \<and> s' = s"
  by (auto simp: os_flush_def fs_append_node split: option.splits node.splits)

lemma flush_handles_idle:
  assumes "\<forall>h \<in> set hs. os_pending h = []" "fold flush_handle hs (fs, acc) = (fs', hs')"
  shows "fs_node fs' q = fs_node fs q" "hs' = acc @ hs"
proof -
  have "fs_node fs' q = fs_node fs q \<and> hs' = acc @ hs"
  using assms
proof (induction hs arbitrary: fs acc)
  case (Cons h hs)
  obtain fs1 acc1 where f: "flush_handle h (fs, acc) = (fs1, acc1)" by force
  then have "fs_node fs1 q = fs_node fs q \<and> acc1 = acc @ [h]"
    using Cons.prems(1) os_flush_idle [of h fs] by (auto simp: flush_handle_def split: if_splits prod.splits)
  moreover have "fold flush_handle hs (fs1, acc1) = (fs', hs')" using Cons.prems(2) f by simp
  ultimately show ?case using Cons.IH [of fs1 acc1] Cons.prems(1) by auto
qed auto
  then show "fs_node fs' q = fs_node fs q" "hs' = acc @ hs" by auto
qed

lemma close_handles_idle:
  "\<forall>h \<in> set hs. os_pending h = [] \<Longrightarrow> fs_node (fold (\<lambda>h fs. fst (os_flush fs h)) hs fs) q = fs_node fs q"
proof (induction hs arbitrary: fs)
  case (Cons h hs)
  obtain fs1 s1 where "os_flush fs h = (fs1, s1)" by force
  then show ?case using Cons os_flush_idle [of h fs fs1 s1 q] by simp
qed simp

lemma log_holds_cong:
  "(\<And>q. fs_node fs' q = fs_node fs q) \<Longrightarrow> log_holds (fs', me) L = log_holds (fs, me) L"
  by (simp add: log_holds_def os_content_def fs_is_directory_def cong: option.case_cong)

lemma commit_work_slice_ok:
  assumes "log_holds (fs, me) L" "\<forall>h \<in> set hs. os_pending h = []"
    and "commit_work_slice (fs, me) slice_id hs = ((fs', me'), hs')"
  shows "fs_node fs' (me_manifest_path me) = Some (File (L @ log_bytes (Commit slice_id)))"
    "same_but (me_manifest_path me) fs fs'" "hs' = hs" "log_open (fs', me') (L @ log_bytes (Commit slice_id))"
    "me_manifest_path me' = me_manifest_path me"
proof -
  obtain fsf hsf where f: "fold flush_handle hs (fs, []) = (fsf, hsf)" by force
  note F = flush_handles_idle [OF assms(2) f]
  have log: "log_holds (fsf, me) L" using assms(1) log_holds_cong [of fsf fs me L] F(1) by simp
  obtain fs0 me0 where d0: "ensure_manifest_open fsf me = (fs0, me0)" by force
  note D0 = ensure_manifest_open_ok [OF log d0]
  obtain fs1 me1 where d1: "log_write (fs0, me0) [REC_COMMIT] = (fs1, me1)" by force
  note D1 = log_write_ok [OF D0(1) d1]
  obtain fs2 me2 where d2: "log_write (fs1, me1) (le_bytes 4 (ucast COMMIT_MAGIC)) = (fs2, me2)" by force
  note D2 = log_write_ok [OF D1(1) d2]
  obtain fs3 me3 where d3: "log_write (fs2, me2) (le_bytes 4 (ucast slice_id)) = (fs3, me3)" by force
  note D3 = log_write_ok [OF D2(1) d3]
  obtain s where s: "me_out me3 = Some s" "os_ok s" "os_path s = me_manifest_path me3"
    "os_content fs3 s = Some (L @ log_bytes (Commit slice_id))"
    using D3(1) by (auto simp: log_open_def log_holds_def)
  obtain fs4 s4 where fl: "os_flush fs3 s = (fs4, s4)" by force
  note FL = os_flush_spec [OF fl]
  have res: "fs' = fs4" "me' = me3\<lparr>me_out := Some s4\<rparr>" "hs' = hsf"
    using assms(3) f d0 d1 d2 d3 s(1) fl by (simp_all add: commit_work_slice_def Let_def)
  have path: "me_manifest_path me3 = me_manifest_path me" using D0(2) D1(2) D2(2) D3(2) by simp
  show "fs_node fs' (me_manifest_path me) = Some (File (L @ log_bytes (Commit slice_id)))"
    using FL(1-3) s(3,4) path res(1) by (auto simp: os_content_def split: option.splits node.splits)
  show "same_but (me_manifest_path me) fs fs'"
    using D0(2,3) D1(2,3) D2(2,3) D3(2,3) FL(5) s(3) F(1) res(1) by (auto simp: same_but_def)
  show "hs' = hs" using F(2) res(3) by simp
  show "log_open (fs', me') (L @ log_bytes (Commit slice_id))"
    using FL(1,3,4) s path res by (auto simp: log_open_def log_holds_def)
  show "me_manifest_path me' = me_manifest_path me" using path res(2) by simp
qed

lemma destroy_slice_context_ok:
  assumes "log_holds (fs, me) L" "me_manifest_path me = dir @ [''manifest.tx'']"
    and "distinct (map fst (sc_open_files sc))" "list_all2 (slice_file_ok dir fs) (sc_open_files sc) cs"
    and "destroy_slice_context app_pos (fs, me) sc = (fs', me')"
  defines "L' \<equiv> L @ whole_log (map2 (\<lambda>f c. Declaration (fst f) (of_nat (length c))) (sc_open_files sc) cs
      @ [Commit (sc_slice_id sc)])"
  shows "fs_node fs' (dir @ [''manifest.tx'']) = Some (File L')"
    and "list_all2 (\<lambda>f c. fs_node fs' (dir @ [fst f]) = Some (File c)) (sc_open_files sc) cs"
    and "\<forall>q. q \<notin> (\<lambda>f. dir @ [fst f]) ` set (sc_open_files sc) \<and> q \<noteq> dir @ [''manifest.tx''] \<longrightarrow>
      fs_node fs' q = fs_node fs q"
proof -
  obtain fs1 me1 files where d: "fold (declare_file app_pos) (sc_open_files sc) ((fs, me), []) = ((fs1, me1), files)"
    by (metis prod.exhaust)
  note D = declare_files_ok [OF assms(1-4) _ d, simplified]
  let ?hs = "map (ss_stream \<circ> snd) files"
  obtain fs2 me2 hs where c: "commit_work_slice (fs1, me1) (sc_slice_id sc) ?hs = ((fs2, me2), hs)"
    by (metis prod.exhaust)
  have pend: "\<forall>h \<in> set ?hs. os_pending h = []" using D by auto
  note C = commit_work_slice_ok [OF D [THEN conjunct1] pend c]
  have fs': "fs_node fs' q = fs_node fs2 q" for q
    using assms(5) d c C(3) close_handles_idle [OF pend, of fs2 q] by (simp add: destroy_slice_context_def)
  have path: "me_manifest_path me1 = dir @ [''manifest.tx'']" using D assms(2) by simp
  show "fs_node fs' (dir @ [''manifest.tx'']) = Some (File L')"
    using C(1) by (simp add: fs' path L'_def)
  have names: "fst f \<noteq> ''manifest.tx''" if "f \<in> set (sc_open_files sc)" for f
    using assms(4) that by (auto simp: list_all2_conv_all_nth in_set_conv_nth slice_file_ok_def)
  have nodes: "list_all2 (\<lambda>f c. fs_node fs1 (dir @ [fst f]) = Some (File c)) (sc_open_files sc) cs"
    using D by blast
  show "list_all2 (\<lambda>f c. fs_node fs' (dir @ [fst f]) = Some (File c)) (sc_open_files sc) cs"
    by (rule list.rel_mono_strong [OF nodes])
       (use C(2) names in \<open>auto simp: fs' same_but_def path\<close>)
  show "\<forall>q. q \<notin> (\<lambda>f. dir @ [fst f]) ` set (sc_open_files sc) \<and> q \<noteq> dir @ [''manifest.tx''] \<longrightarrow>
      fs_node fs' q = fs_node fs q"
    using C(2) D by (auto simp: fs' same_but_def path)
qed

section \<open>The crash after a commit\<close>

lemma take_whole_log:
  "take (length (whole_log a) + j) (whole_log (a @ b)) = whole_log a @ take j (whole_log b)"
  by simp

lemma surviving_append:
  "surviving (length (whole_log a) + j) (a @ b) = a @ surviving j b"
  by (induction a) auto

lemma surviving_declarations:
  assumes "\<forall>r \<in> set ds. \<not> is_commit r" "j < length (whole_log ds) + 5"
  shows "\<forall>r \<in> set (surviving j (ds @ [Commit i])). \<not> is_commit r"
  using assms
proof (induction ds arbitrary: j)
  case (Cons d ds)
  then have "\<forall>r \<in> set (surviving (j - length (log_bytes d)) (ds @ [Commit i])). \<not> is_commit r"
    if "length (log_bytes d) \<le> j" using that by (intro Cons.IH) auto
  then show ?case using Cons.prems(1) by auto
qed auto

lemma committed_declarations:
  "\<forall>r \<in> set ds. \<not> is_commit r \<Longrightarrow> snd (fold apply_record ds (pend, com)) = com"
proof (induction ds arbitrary: pend)
  case (Cons r ds)
  then show ?case by (cases r) auto
qed simp

lemma map_of_commit_pending:
  "map_of (commit_pending pend com) f = (case map_of (rev pend) f of None \<Rightarrow> map_of com f | Some n \<Rightarrow> Some n)"
proof (induction pend arbitrary: com)
  case (Cons e pend)
  then show ?case
    by (cases e) (auto simp: commit_pending_def update_conv' map_add_def split: option.splits)
qed (simp add: commit_pending_def)

lemma pending_distinct:
  "distinct (map fst pend) \<Longrightarrow> distinct (map fst (fst (fold apply_record recs (pend, com))))"
proof (induction recs arbitrary: pend com)
  case (Cons r recs)
  then show ?case by (cases r) (auto simp: distinct_update)
qed simp

lemma map_of_rev_distinct: "distinct (map fst xs) \<Longrightarrow> map_of (rev xs) = map_of xs"
  by (metis distinct_rev map_of_eqI map_of_inject_set rev_map set_rev)

text \<open>The declarations of a slice, folded into the pending lengths.\<close>

abbreviation slice_declarations :: "(string \<times> slice_stream) list \<Rightarrow> bytes list \<Rightarrow> log_record list" where
  "slice_declarations fls cs \<equiv> map2 (\<lambda>f c. Declaration (fst f) (of_nat (length c))) fls cs"

lemma fold_declarations:
  assumes "distinct (map fst fls)" "length fls = length cs"
  shows "snd (fold apply_record (slice_declarations fls cs) (pend, com)) = com"
    and "f \<notin> fst ` set fls \<Longrightarrow>
      map_of (fst (fold apply_record (slice_declarations fls cs) (pend, com))) f = map_of pend f"
    and "i < length fls \<Longrightarrow>
      map_of (fst (fold apply_record (slice_declarations fls cs) (pend, com))) (fst (fls ! i)) =
        Some (of_nat (length (cs ! i)))"
proof -
  have other: "f \<notin> fst ` set fls \<Longrightarrow> length fls = length cs \<Longrightarrow>
      map_of (fst (fold apply_record (slice_declarations fls cs) (pend, com))) f = map_of pend f"
    for f fls cs and pend :: "(string \<times> u64) list"
  proof (induction fls arbitrary: cs pend)
    case (Cons g fls)
    then show ?case by (cases cs) (auto simp: update_conv')
  qed simp
  show "snd (fold apply_record (slice_declarations fls cs) (pend, com)) = com"
    using assms(2) by (intro committed_declarations) (auto simp: set_zip)
  show "f \<notin> fst ` set fls \<Longrightarrow>
      map_of (fst (fold apply_record (slice_declarations fls cs) (pend, com))) f = map_of pend f"
    using other assms(2) by blast
  show "map_of (fst (fold apply_record (slice_declarations fls cs) (pend, com))) (fst (fls ! i)) =
        Some (of_nat (length (cs ! i)))" if "i < length fls"
    using assms that
  proof (induction fls arbitrary: cs i pend)
    case (Cons g fls)
    then obtain c cs' where cs: "cs = c # cs'" by (cases cs) auto
    show ?case
    proof (cases i)
      case 0
      have "fst g \<notin> fst ` set fls" using Cons.prems(1) by (auto simp: image_iff)
      with 0 cs Cons.prems(2) other [of "fst g" fls cs'] show ?thesis by (auto simp: update_conv')
    next
      case (Suc j)
      with cs Cons.prems Cons.IH [of cs' j] show ?thesis by simp
    qed
  qed simp
qed

lemma committed_by_slice:
  assumes "distinct (map fst fls)" "length fls = length cs" "i < length fls"
  shows "map_of (committed_by (recs @ slice_declarations fls cs @ [Commit k])) (fst (fls ! i)) =
    Some (of_nat (length (cs ! i)))"
proof -
  obtain pend com where p: "fold apply_record recs ([], []) = (pend, com)" by force
  have dp: "distinct (map fst pend)" using pending_distinct [of "[]" recs "[]"] p by simp
  obtain pend' com' where q: "fold apply_record (slice_declarations fls cs) (pend, com) = (pend', com')" by force
  have "distinct (map fst pend')" using pending_distinct [OF dp] q by (metis fst_conv)
  moreover have "map_of pend' (fst (fls ! i)) = Some (of_nat (length (cs ! i)))"
    using fold_declarations(3) [OF assms(1,2), of i pend com] assms(3) q by simp
  ultimately show ?thesis
    using p q by (simp add: committed_by_def map_of_commit_pending map_of_rev_distinct)
qed

lemma resized_prefix: "length c < 2 ^ 64 \<Longrightarrow> resized (of_nat (length c)) (c @ rest) = c"
  by (simp add: resized_def unat_of_nat)

section \<open>Properties\<close>

definition log_stream :: "bytes \<Rightarrow> ifstream" where
  "log_stream bs = \<lparr>is_content = bs, is_pos = 0, is_eof = False, is_fail = False\<rparr>"

text \<open>C17: however many bytes of the log reached the disk, replaying them ends, and yields the lengths
  that the complete records of that prefix commit: a torn declaration changes nothing, and
  a torn commit counts exactly when its magic number is complete.
\<close>

theorem replay_torn_log:
  assumes "\<forall>r \<in> set recs. record_wf r"
  shows "replay (log_stream (take k (whole_log recs))) [] [] = committed_by (surviving k recs)"
  using assms replay_prefix [of "log_stream (take k (whole_log recs))" recs k]
  by (simp add: log_stream_def committed_by_def is_good_def is_rest_def)

theorem replay_torn_log_witness:
  "replay (log_stream (take 47 (whole_log
      [Declaration ''a'' 3, Commit 0, Declaration ''b'' 7, Declaration ''a'' 9, Commit 1]))) [] [] =
    [(''a'', 9), (''b'', 7)]"
proof -
  have "\<forall>r \<in> set [Declaration ''a'' 3, Commit 0, Declaration ''b'' 7, Declaration ''a'' 9, Commit 1]. record_wf r"
    by simp
  from replay_torn_log [OF this, of 47] show ?thesis
    by (simp add: committed_by_def commit_pending_def)
qed

text \<open>The proof of the crash recovery, stated once for the folder and for the orchestrator that boots it.\<close>

lemma recovery_after_commit:
  assumes log: "log_holds (fs, me) (whole_log recs)" "\<forall>r \<in> set recs. record_wf r"
      "me_manifest_path me = dir @ [''manifest.tx'']"
    and slice: "distinct (map fst (sc_open_files sc))"
      "list_all2 (slice_file_ok dir fs) (sc_open_files sc) cs" "\<forall>c \<in> set cs. length c < 2 ^ 64"
    and destroyed: "destroy_slice_context app_pos (fs, me) sc = (fs1, me1)"
      "fs_node fs1 (dir @ [''manifest.tx'']) = Some (File L)"
    and crash_log: "fs_node fs2 (dir @ [''manifest.tx'']) = Some (File (L @ take j (whole_log (ds @ [Commit i]))))"
      "\<forall>r \<in> set ds. \<not> is_commit r \<and> record_wf r" "j < length (whole_log ds) + 5"
    and crash_data: "list_all2 (\<lambda>f c. \<exists>rest. fs_node fs2 (dir @ [fst f]) = Some (File (c @ rest))) (sc_open_files sc) cs"
      "\<forall>f. fs_node fs2 (dir @ [f]) \<noteq> Some Dir"
  shows "\<exists>fs3. recover_state_directory fs2 dir = Inr fs3 \<and>
    list_all2 (\<lambda>f c. fs_node fs3 (dir @ [fst f]) = Some (File c)) (sc_open_files sc) cs"
proof -
  let ?fls = "sc_open_files sc"
  let ?slice = "recs @ slice_declarations ?fls cs @ [Commit (sc_slice_id sc)]"
  have len: "length ?fls = length cs" using slice(2) by (rule list_all2_lengthD)
  have L: "L = whole_log ?slice"
    using destroy_slice_context_ok(1) [OF log(1,3) slice(1,2) destroyed(1)] destroyed(2) by simp
  have wf: "\<forall>r \<in> set (?slice @ ds @ [Commit i]). record_wf r"
    using log(2) crash_log(2) slice(2) by (auto simp: set_zip list_all2_conv_all_nth slice_file_ok_def)
  have "fs_node fs2 (dir @ [''manifest.tx'']) =
      Some (File (take (length (whole_log ?slice) + j) (whole_log (?slice @ ds @ [Commit i]))))"
    using crash_log(1) by (simp only: L take_whole_log)
  from recover_prefix [OF this wf]
  moreover have "committed_by (?slice @ surviving j (ds @ [Commit i])) = committed_by ?slice"
    using committed_declarations [OF surviving_declarations [OF _ crash_log(3)]] crash_log(2)
    by (cases "fold apply_record ?slice ([], [])") (simp add: committed_by_def)
  ultimately have rec: "recover_state_directory fs2 dir = rfold (truncate_committed dir) fs2 (committed_by ?slice)"
    by (simp only: surviving_append)
  have dist: "distinct (map fst (committed_by ?slice))"
    using distinct_committed [of "[]" ?slice "[]"] by (simp add: committed_by_def)
  obtain fs3 where fs3: "rfold (truncate_committed dir) fs2 (committed_by ?slice) = Inr fs3"
    "\<And>f c n. map_of (committed_by ?slice) f = Some n \<Longrightarrow> fs_node fs2 (dir @ [f]) = Some (File c) \<Longrightarrow>
       fs_node fs3 (dir @ [f]) = Some (File (resized n c))"
    using truncate_all_ok [OF dist, of fs2 dir] crash_data(2) by blast
  have "fs_node fs3 (dir @ [fst (?fls ! m)]) = Some (File (cs ! m))" if m: "m < length ?fls" for m
  proof -
    obtain rest where "fs_node fs2 (dir @ [fst (?fls ! m)]) = Some (File (cs ! m @ rest))"
      using crash_data(1) m by (auto simp: list_all2_conv_all_nth)
    from fs3(2) [OF committed_by_slice [OF slice(1) len m] this] show ?thesis
      using slice(3) m len by (simp add: resized_prefix)
  qed
  then show ?thesis using rec fs3(1) len by (auto simp: list_all2_conv_all_nth)
qed

text \<open>C16: when a work slice is destroyed, its commit can be recovered.  Let the log hold complete records
  only (no torn tail of an earlier crash) when the slice ends, and let every file of the slice have
  been written through its stream.  Whatever a later slice then appended to the data files and to
  the log, as long as its commit record is torn before the end of the magic number, recovery
  succeeds and gives every file of the committed slice exactly the content it had at the commit.
\<close>

theorem recovery_restores_commit:
  assumes log: "log_holds (fs, me) (whole_log recs)" "\<forall>r \<in> set recs. record_wf r"
      "me_manifest_path me = dir @ [''manifest.tx'']"
    and slice: "distinct (map fst (sc_open_files sc))"
      "list_all2 (slice_file_ok dir fs) (sc_open_files sc) cs" "\<forall>c \<in> set cs. length c < 2 ^ 64"
    and destroyed: "destroy_slice_context app_pos (fs, me) sc = (fs1, me1)"
      "fs_node fs1 (dir @ [''manifest.tx'']) = Some (File L)"
    and crash_log: "fs_node fs2 (dir @ [''manifest.tx'']) = Some (File (L @ take j (whole_log (ds @ [Commit i]))))"
      "\<forall>r \<in> set ds. \<not> is_commit r \<and> record_wf r" "j < length (whole_log ds) + 5"
    and crash_data: "list_all2 (\<lambda>f c. \<exists>rest. fs_node fs2 (dir @ [fst f]) = Some (File (c @ rest))) (sc_open_files sc) cs"
      "\<forall>f. fs_node fs2 (dir @ [f]) \<noteq> Some Dir"
  shows "\<exists>fs3. recover_state_directory fs2 dir = Inr fs3 \<and>
    list_all2 (\<lambda>f c. fs_node fs3 (dir @ [fst f]) = Some (File c)) (sc_open_files sc) cs"
  using assms by (rule recovery_after_commit)

text \<open>A slice of the filling worker, then a crash in a second slice that wrote part of an entry.\<close>

definition demo_entry :: bytes where
  "demo_entry = hash_entry_bytes [0, 0, 0, 0] \<lparr>he_hash = 7, he_presentation_index = 5\<rparr>"

lemma length_demo_entry [simp]: "length demo_entry = 16"
  by (simp add: demo_entry_def hash_entry_bytes_def)

definition demo_slice :: "fs \<times> slice_context" where
  "demo_slice = (case filling_execute_work_slice [0, 0, 0, 0] \<lparr>he_hash = 7, he_presentation_index = 5\<rparr>
     ([([''d''], Dir)], mk_slice_context [''d''] 0) of Inr s \<Rightarrow> s | Inl e \<Rightarrow> ([], mk_slice_context [] 0))"

definition demo_log :: bytes where
  "demo_log = whole_log [Declaration ''raw_hashes.dat'' 16, Commit 0] @
     take 12 (whole_log ([Declaration ''raw_hashes.dat'' 19] @ [Commit 1]))"

definition demo_crash :: fs where
  "demo_crash = [([''d''], Dir), ([''d'', ''raw_hashes.dat''], File (demo_entry @ [9, 9, 9])),
     ([''d'', ''manifest.tx''], File demo_log)]"

lemma demo_slice_files:
  "list_all2 (slice_file_ok [''d''] (fst demo_slice)) (sc_open_files (snd demo_slice)) [demo_entry]"
  "distinct (map fst (sc_open_files (snd demo_slice)))"
  "log_holds (fst demo_slice, mk_manifest_engine [''d'']) (whole_log [])"
  by code_simp+

lemma demo_destroyed:
  "fs_node (fst (destroy_slice_context id (fst demo_slice, mk_manifest_engine [''d'']) (snd demo_slice)))
     ([''d''] @ [''manifest.tx'']) = Some (File (whole_log [Declaration ''raw_hashes.dat'' 16, Commit 0]))"
  by code_simp

lemma demo_crashed:
  "list_all2 (\<lambda>f c. \<exists>rest. fs_node demo_crash ([''d''] @ [fst f]) = Some (File (c @ rest)))
     (sc_open_files (snd demo_slice)) [demo_entry]"
proof -
  have "map fst (sc_open_files (snd demo_slice)) = [''raw_hashes.dat'']" by code_simp
  then show ?thesis by (auto simp: demo_crash_def fs_node_def)
qed

theorem recovery_restores_commit_witness:
  "\<exists>fs3. recover_state_directory demo_crash [''d''] = Inr fs3 \<and>
    list_all2 (\<lambda>f c. fs_node fs3 ([''d''] @ [fst f]) = Some (File c))
      (sc_open_files (snd demo_slice)) [demo_entry]"
proof (rule recovery_restores_commit [OF demo_slice_files(3) _ _ demo_slice_files(2,1)
      _ prod.collapse [symmetric] demo_destroyed, where ds = "[Declaration ''raw_hashes.dat'' 19]" and i = 1 and j = 12])
  show "fs_node demo_crash ([''d''] @ [''manifest.tx'']) =
     Some (File (whole_log [Declaration ''raw_hashes.dat'' 16, Commit 0] @
        take 12 (whole_log ([Declaration ''raw_hashes.dat'' 19] @ [Commit 1]))))"
    by (simp only: demo_log_def [symmetric]) (simp add: demo_crash_def fs_node_def)
  show "\<forall>f. fs_node demo_crash ([''d''] @ [f]) \<noteq> Some Dir" by (auto simp: demo_crash_def fs_node_def)
qed (simp_all add: mk_manifest_engine_def demo_crashed [simplified])

section \<open>Where recovery falls short\<close>

text \<open>
  Recovery does not cut the log itself: one torn byte left by a crash hides every record that
  later slices append to it, so a later, complete commit is lost.
\<close>

lemma replay_misaligned:
  assumes "is_good s" "is_rest s = REC_COMMIT # bs" "8 < length bs"
    and "ucast (le_word (take 4 bs)) \<noteq> COMMIT_MAGIC" "bs ! 8 \<noteq> REC_DECLARATION" "bs ! 8 \<noteq> REC_COMMIT"
  shows "replay s pend com = com"
proof -
  obtain s1 where s1: "is_good s1" "is_rest s1 = bs" "replay s pend com =
      (case read_commit s1 of (magic, s2) \<Rightarrow>
         replay s2 pend (if magic = COMMIT_MAGIC then commit_pending pend com else com))"
    using replay_commit [OF assms(1,2)] by blast
  have le: "4 \<le> length bs - 4" using assms(3) by linarith
  obtain s2 where s2: "is_read s1 4 = (take 4 bs, s2)" "is_good s2" "is_rest s2 = drop 4 bs"
    using is_read_good [OF s1(1), of 4] s1(2) assms(3) by auto
  obtain s3 where s3: "is_read s2 4 = (take 4 (drop 4 bs), s3)" "is_good s3" "is_rest s3 = drop 8 bs"
    using is_read_good [OF s2(2), of 4] s2(3) le by auto
  have "is_rest s3 = bs ! 8 # drop 9 bs" using s3(3) assms(3) by (simp add: Cons_nth_drop_Suc [of 8 bs, simplified])
  from replay_type [OF s3(2) this, of pend com] assms(5,6) have "replay s3 pend com = com" by auto
  then show ?thesis using s1(3) s2(1) s3(1) assms(4) by (simp add: read_commit_def)
qed

lemma torn_tail_hides_later_commits:
  "replay (log_stream (whole_log [Declaration ''a'' 2, Commit 0] @ take 1 (log_bytes (Commit 1)) @
     whole_log [Declaration ''a'' 3, Commit 2])) [] [] = [(''a'', 2)]"
proof -
  let ?bs = "whole_log [Declaration ''a'' 3, Commit 2]"
  let ?s = "log_stream (whole_log [Declaration ''a'' 2, Commit 0] @ REC_COMMIT # ?bs)"
  obtain s1 where s1: "is_good s1" "is_rest s1 = log_bytes (Commit 0) @ REC_COMMIT # ?bs"
    "replay ?s [] [] = replay s1 [(''a'', 2)] []"
    using replay_record [of ?s "Declaration ''a'' 2" "log_bytes (Commit 0) @ REC_COMMIT # ?bs" "[]" "[]"]
    by (auto simp: log_stream_def is_good_def is_rest_def)
  obtain s2 where s2: "is_good s2" "is_rest s2 = REC_COMMIT # ?bs"
    "replay s1 [(''a'', 2)] [] = replay s2 [(''a'', 2)] [(''a'', 2)]"
    using replay_record [OF s1(1) _ s1(2), of "[(''a'', 2)]" "[]"] by (auto simp: commit_pending_def)
  have "take 4 ?bs = [1, 1, 97, 3]" "?bs ! 8 = 0"
    by (simp_all add: name_bytes_def le_bytes_def REC_DECLARATION_def upt_rec)
  moreover have "ucast (le_word [1, 1, 97, 3]) \<noteq> COMMIT_MAGIC"
    by (simp add: le_word_def COMMIT_MAGIC_def)
  ultimately have "ucast (le_word (take 4 ?bs)) \<noteq> COMMIT_MAGIC \<and> ?bs ! 8 \<noteq> REC_DECLARATION \<and> ?bs ! 8 \<noteq> REC_COMMIT"
    by (simp only: REC_DECLARATION_def REC_COMMIT_def) simp
  then have "replay s2 [(''a'', 2)] [(''a'', 2)] = [(''a'', 2)]"
    by (intro replay_misaligned [OF s2(1,2)]) simp_all
  then show ?thesis using s1(3) s2(3) by simp
qed

text \<open>
  A commit commits every length declared so far, also the length that a slice lost in a crash
  had declared: recovery then grows that file with zeros.
\<close>

lemma stale_declaration_is_committed:
  fixes log :: bytes
  defines "log \<equiv> whole_log [Declaration ''a'' 2, Commit 0, Declaration ''a'' 5, Declaration ''b'' 1, Commit 2]"
  shows "recover_state_directory
     [([''d''], Dir), ([''d'', ''a''], File [7, 8]), ([''d'', ''b''], File [9]), ([''d'', ''manifest.tx''], File log)]
     [''d''] =
   Inr [([''d''], Dir), ([''d'', ''a''], File [7, 8, 0, 0, 0]), ([''d'', ''b''], File [9]),
        ([''d'', ''manifest.tx''], File log)]"
proof -
  let ?fs = "[([''d''], Dir), ([''d'', ''a''], File [7, 8]), ([''d'', ''b''], File [9]), ([''d'', ''manifest.tx''], File log)]"
  let ?recs = "[Declaration ''a'' 2, Commit 0, Declaration ''a'' 5, Declaration ''b'' 1, Commit 2]"
  have "fs_node ?fs ([''d''] @ [''manifest.tx'']) = Some (File (take (length log) (whole_log ?recs)))"
    by (simp only: log_def take_all order.refl) (simp add: fs_node_def)
  then have "recover_state_directory ?fs [''d''] =
      rfold (truncate_committed [''d'']) ?fs (committed_by (surviving (length log) ?recs))"
    by (rule recover_prefix) simp
  then show ?thesis
    by (simp add: log_def committed_by_def commit_pending_def truncate_committed_def fs_exists_def
        fs_resize_file_def fs_node_def numeral_3_eq_3)
qed

end
