(* ===== verification/Pipeline_Buffer.thy ===== *)
theory Pipeline_Buffer
  imports Prelude
begin

text \<open>
  \<^verbatim>\<open>include/evolving_disk_state_old/pipeline_buffer.hpp\<close> and \<^verbatim>\<open>external_feeder.hpp\<close>: the bounded
  buffer between two stages of the older pipeline, and the single slot that feeds its first stage.

  The operations come first as one thread runs them (a wait whose predicate is false is
  \<open>Blocked\<close>, a timed wait then returns), and then as steps of any number of threads.  The
  section between taking the shared lock and the decision to wipe, and the wipe itself, are
  separate critical sections of the code, and separate steps here.
\<close>

section \<open>The operations of one thread\<close>

record 'a output_buffer =
  capacity :: nat
  contents :: "'a list"

definition mk_output_buffer :: "nat \<Rightarrow> 'a output_buffer" where
  "mk_output_buffer n = \<lparr>capacity = n, contents = []\<rparr>"

definition has_space :: "'a output_buffer \<Rightarrow> bool" where
  "has_space b \<longleftrightarrow> length (contents b) < capacity b"

definition is_full :: "'a output_buffer \<Rightarrow> bool" where
  "is_full b \<longleftrightarrow> length (contents b) \<ge> capacity b"

definition push_back_as_provider :: "'a \<Rightarrow> 'a output_buffer \<Rightarrow> 'a output_buffer res" where
  "push_back_as_provider item b =
     (if \<not> has_space b then Inl Blocked else Inr (b\<lparr>contents := contents b @ [item]\<rparr>))"

definition with_contents_as_reader :: "('a list \<Rightarrow> 'r) \<Rightarrow> 'a output_buffer \<Rightarrow> 'r" where
  "with_contents_as_reader visitor b = visitor (contents b)"

definition wipe_if_full :: "'a output_buffer \<Rightarrow> bool \<times> 'a output_buffer" where
  "wipe_if_full b = (if is_full b then (True, b\<lparr>contents := []\<rparr>) else (False, b))"

text \<open>The result is false when the timed wait ends without a full buffer.\<close>

definition with_full_contents_as_consumer_maybe_wipe ::
    "('a list \<Rightarrow> bool) \<Rightarrow> 'a output_buffer \<Rightarrow> bool \<times> 'a output_buffer" where
  "with_full_contents_as_consumer_maybe_wipe consumer_lambda b =
     (if \<not> is_full b then (False, b)
      else let should_wipe = consumer_lambda (contents b)
           in if should_wipe then wipe_if_full b else (False, b))"

definition try_process_full_batch ::
    "('a list \<Rightarrow> bool) \<Rightarrow> 'a output_buffer \<Rightarrow> bool \<times> 'a output_buffer" where
  "try_process_full_batch consumer_lambda b =
     (if length (contents b) < capacity b then (False, b)
      else let should_wipe = consumer_lambda (contents b)
           in (True, if should_wipe then snd (wipe_if_full b) else b))"

definition buffer_empty :: "'a output_buffer \<Rightarrow> bool" where
  "buffer_empty b \<longleftrightarrow> contents b = []"

section \<open>The external feeder\<close>

text \<open>
  The slot hands its item to the first tier during \<open>insert_data\<close> and is empty afterwards.  The
  tier is a template parameter of the code: \<open>notify\<close> is its
  \<open>notify_input_buffer_full_and_ready\<close>, which is given the feeder and may call back into it, and
  \<open>'w\<close> the state it changes.
\<close>

type_synonym 'd external_feeder = "'d option"

definition with_slot_as_consumer_maybe_wipe ::
    "('d \<Rightarrow> 'w \<Rightarrow> bool \<times> 'w) \<Rightarrow> 'd external_feeder \<times> 'w \<Rightarrow> 'd external_feeder \<times> 'w" where
  "with_slot_as_consumer_maybe_wipe consumer_lambda s =
     (case s of (slot, w) \<Rightarrow>
      case slot of
        None \<Rightarrow> (slot, w)
      | Some d \<Rightarrow> (case consumer_lambda d w of (wipe, w') \<Rightarrow> (if wipe then None else slot, w')))"

definition insert_data ::
    "('d external_feeder \<times> 'w \<Rightarrow> 'd external_feeder \<times> 'w) option \<Rightarrow> 'd
      \<Rightarrow> 'd external_feeder \<times> 'w \<Rightarrow> 'd external_feeder \<times> 'w" where
  "insert_data tier0 data s =
     (let s1 = (Some data, snd s);
          s2 = (case tier0 of None \<Rightarrow> s1 | Some notify \<Rightarrow> notify s1)
      in (None, snd s2))"

section \<open>Interleaved threads\<close>

text \<open>
  Where a thread can stand between two critical sections: \<open>Consuming timed\<close> runs the lambda with
  the shared lock held, \<open>Wiping timed\<close> has released it and will take the exclusive one.  The flag
  tells the timed consumer from \<open>try_process_full_batch\<close>.
\<close>

datatype 'a ob_pc =
    Ob_Idle
  | Push_Wait 'a
  | Visit_Start | Visiting
  | Full_Wait bool | Consuming bool | Wiping bool

text \<open>
  \<open>pushed\<close>, \<open>accepted\<close> and \<open>cleared\<close> record what happened: the items pushed, the batches for
  which a consumer lambda returned true, and the contents that were wiped.
\<close>

record 'a pipeline =
  buffer :: "'a output_buffer"
  ob_pc :: "nat \<Rightarrow> 'a ob_pc"
  pushed :: "'a list"
  accepted :: "'a list list"
  cleared :: "'a list list"

fun holds_shared :: "'a ob_pc \<Rightarrow> bool" where
  "holds_shared Visiting = True"
| "holds_shared (Consuming timed) = True"
| "holds_shared p = False"

fun is_consumer :: "'a ob_pc \<Rightarrow> bool" where
  "is_consumer (Full_Wait timed) = True"
| "is_consumer (Consuming timed) = True"
| "is_consumer (Wiping timed) = True"
| "is_consumer p = False"

definition no_shared :: "'a pipeline \<Rightarrow> bool" where
  "no_shared s \<longleftrightarrow> (\<forall>t. \<not> holds_shared (ob_pc s t))"

definition at :: "nat \<Rightarrow> 'a ob_pc \<Rightarrow> 'a pipeline \<Rightarrow> 'a pipeline" where
  "at t p s = s\<lparr>ob_pc := (ob_pc s)(t := p)\<rparr>"

text \<open>
  The exclusive lock is taken and released within a step, so it is free between steps; it needs
  that nobody holds the shared one.  The flag \<open>many\<close> says whether a consumer may start while
  another one is running; the code does not prevent it.
\<close>

inductive ob_step :: "bool \<Rightarrow> 'a pipeline \<Rightarrow> 'a pipeline \<Rightarrow> bool" for many where
  call_push: "ob_pc s t = Ob_Idle \<Longrightarrow> ob_step many s (at t (Push_Wait x) s)"
| call_visit: "ob_pc s t = Ob_Idle \<Longrightarrow> ob_step many s (at t Visit_Start s)"
| call_consume: "ob_pc s t = Ob_Idle \<Longrightarrow> many \<or> (\<forall>u. \<not> is_consumer (ob_pc s u)) \<Longrightarrow>
    ob_step many s (at t (Full_Wait timed) s)"
| push: "ob_pc s t = Push_Wait x \<Longrightarrow> no_shared s \<Longrightarrow> push_back_as_provider x (buffer s) = Inr b \<Longrightarrow>
    ob_step many s (at t Ob_Idle (s\<lparr>buffer := b, pushed := pushed s @ [x]\<rparr>))"
| visit: "ob_pc s t = Visit_Start \<Longrightarrow> ob_step many s (at t Visiting s)"
| visited: "ob_pc s t = Visiting \<Longrightarrow> ob_step many s (at t Ob_Idle s)"
| found_full: "ob_pc s t = Full_Wait timed \<Longrightarrow> is_full (buffer s) \<Longrightarrow>
    ob_step many s (at t (Consuming timed) s)"
| not_full: "ob_pc s t = Full_Wait timed \<Longrightarrow> \<not> is_full (buffer s) \<Longrightarrow> ob_step many s (at t Ob_Idle s)"
| keeps: "ob_pc s t = Consuming timed \<Longrightarrow> ob_step many s (at t Ob_Idle s)"
| accepts: "ob_pc s t = Consuming timed \<Longrightarrow>
    ob_step many s (at t (Wiping timed) (s\<lparr>accepted := accepted s @ [contents (buffer s)]\<rparr>))"
| wipe: "ob_pc s t = Wiping timed \<Longrightarrow> no_shared s \<Longrightarrow> wipe_if_full (buffer s) = (True, b) \<Longrightarrow>
    ob_step many s (at t Ob_Idle (s\<lparr>buffer := b, cleared := cleared s @ [contents (buffer s)]\<rparr>))"
| wipe_late: "ob_pc s t = Wiping timed \<Longrightarrow> no_shared s \<Longrightarrow> wipe_if_full (buffer s) = (False, b) \<Longrightarrow>
    ob_step many s (at t Ob_Idle (s\<lparr>buffer := b\<rparr>))"

definition ob_start :: "nat \<Rightarrow> 'a pipeline" where
  "ob_start n = \<lparr>buffer = mk_output_buffer n, ob_pc = (\<lambda>t. Ob_Idle), pushed = [], accepted = [], cleared = []\<rparr>"

inductive ob_reachable :: "nat \<Rightarrow> bool \<Rightarrow> 'a pipeline \<Rightarrow> bool" for n many where
  reach_start: "ob_reachable n many (ob_start n)"
| reach_step: "ob_reachable n many s \<Longrightarrow> ob_step many s s' \<Longrightarrow> ob_reachable n many s'"

lemma at_simps [simp]:
  "ob_pc (at t p s) u = (if u = t then p else ob_pc s u)" "buffer (at t p s) = buffer s"
  "pushed (at t p s) = pushed s" "accepted (at t p s) = accepted s" "cleared (at t p s) = cleared s"
  by (simp_all add: at_def)

section \<open>Invariants\<close>

text \<open>Whatever the threads do, the buffer and the wiped batches hold what was pushed, in order.\<close>

definition ob_stream_inv :: "nat \<Rightarrow> 'a pipeline \<Rightarrow> bool" where
  "ob_stream_inv n s \<longleftrightarrow> capacity (buffer s) = n \<and> length (contents (buffer s)) \<le> n \<and>
     pushed s = concat (cleared s) @ contents (buffer s) \<and> (\<forall>b \<in> set (cleared s). length b = n)"

fun is_wiper :: "'a ob_pc \<Rightarrow> bool" where
  "is_wiper (Wiping timed) = True"
| "is_wiper p = False"

fun has_seen_full :: "'a ob_pc \<Rightarrow> bool" where
  "has_seen_full (Consuming timed) = True"
| "has_seen_full (Wiping timed) = True"
| "has_seen_full p = False"

text \<open>With one consumer at a time the batch it wipes is the batch its lambda accepted.\<close>

definition ob_consumer_inv :: "'a pipeline \<Rightarrow> bool" where
  "ob_consumer_inv s \<longleftrightarrow>
     (\<forall>t u. is_consumer (ob_pc s t) \<longrightarrow> is_consumer (ob_pc s u) \<longrightarrow> t = u) \<and>
     (\<forall>t. has_seen_full (ob_pc s t) \<longrightarrow> is_full (buffer s)) \<and>
     accepted s = cleared s @ (if \<exists>t. is_wiper (ob_pc s t) then [contents (buffer s)] else [])"

lemma wiper_consumer [simp]: "is_wiper p \<Longrightarrow> is_consumer p" and seen_consumer [simp]: "has_seen_full p \<Longrightarrow> is_consumer p"
  and wiper_seen: "is_wiper p \<Longrightarrow> has_seen_full p"
  by (cases p; simp)+

lemma push_spec:
  "push_back_as_provider x b = Inr b' \<longleftrightarrow> has_space b \<and> b' = b\<lparr>contents := contents b @ [x]\<rparr>"
  by (auto simp: push_back_as_provider_def)

lemma ob_stream_step:
  "ob_step many s s' \<Longrightarrow> ob_stream_inv n s \<Longrightarrow> ob_stream_inv n s'"
  by (cases rule: ob_step.cases)
     (auto simp: ob_stream_inv_def push_spec has_space_def wipe_if_full_def is_full_def split: if_splits)

text \<open>A thread that is not about to wipe may go to any place outside the consumers.\<close>

lemma ob_consumer_at:
  assumes "ob_consumer_inv s" "\<not> is_wiper (ob_pc s t)" "\<not> is_consumer p"
  shows "ob_consumer_inv (at t p s)"
proof -
  have "(\<exists>u. is_wiper (ob_pc (at t p s) u)) \<longleftrightarrow> (\<exists>u. is_wiper (ob_pc s u))"
    using assms(2,3) wiper_consumer by (metis at_simps(1))
  moreover have "\<not> has_seen_full p" using assms(3) seen_consumer by blast
  ultimately show ?thesis using assms(1,3) unfolding ob_consumer_inv_def by simp blast
qed

lemma ob_consumer_step:
  assumes "ob_step False s s'" "ob_consumer_inv s"
  shows "ob_consumer_inv s'"
proof -
  have uniq: "\<And>t u. is_consumer (ob_pc s t) \<Longrightarrow> is_consumer (ob_pc s u) \<Longrightarrow> t = u"
    and full: "\<And>t. has_seen_full (ob_pc s t) \<Longrightarrow> is_full (buffer s)"
    and acc: "accepted s = cleared s @ (if \<exists>t. is_wiper (ob_pc s t) then [contents (buffer s)] else [])"
    using assms(2) unfolding ob_consumer_inv_def by blast+
  have none: "\<not> is_wiper (ob_pc s u)" if "is_consumer (ob_pc s t)" "\<not> is_wiper (ob_pc s t)" for t u
    using uniq [OF that(1), of u] that(2) wiper_consumer by blast
  show ?thesis
    using assms(1)
  proof cases
    case (call_consume t timed)
    then have "\<not> is_wiper (ob_pc s u)" for u using wiper_consumer by blast
    then show ?thesis using call_consume full acc
      unfolding ob_consumer_inv_def by (auto split: if_splits)
  next
    case (push t x b)
    then have "\<not> is_full (buffer s)" by (auto simp: push_spec has_space_def is_full_def)
    then have "\<not> has_seen_full (ob_pc s u) \<and> \<not> is_wiper (ob_pc s u)" for u using full wiper_seen by blast
    then show ?thesis using push acc uniq
      unfolding ob_consumer_inv_def by (auto split: if_splits)
  next
    case (found_full t timed)
    then show ?thesis using full acc uniq none [of t] unfolding ob_consumer_inv_def by (auto split: if_splits)
  next
    case (accepts t timed)
    then have "is_full (buffer s)" using full [of t] by simp
    then show ?thesis using accepts full acc uniq none [of t] unfolding ob_consumer_inv_def by (auto split: if_splits)
  next
    case (wipe t timed b)
    have others: "\<not> is_consumer (ob_pc s u) \<and> \<not> is_wiper (ob_pc s u) \<and> \<not> has_seen_full (ob_pc s u)" if "u \<noteq> t" for u
      using uniq [of t u] that wipe(2) wiper_consumer seen_consumer by auto
    have "is_wiper (ob_pc s t)" using wipe(2) by simp
    then have "accepted s = cleared s @ [contents (buffer s)]" using acc by auto
    then have "accepted s' = cleared s'" using wipe(1) by simp
    moreover have "\<not> is_consumer (ob_pc s' u) \<and> \<not> is_wiper (ob_pc s' u) \<and> \<not> has_seen_full (ob_pc s' u)" for u
      using wipe(1) others [of u] by simp
    ultimately show ?thesis unfolding ob_consumer_inv_def by simp
  next
    case (wipe_late t timed b)
    then show ?thesis using full [of t] by (simp add: wipe_if_full_def)
  qed (use assms(2) in \<open>simp_all add: ob_consumer_at\<close>)
qed

lemma ob_stream_reachable: "ob_reachable n many s \<Longrightarrow> ob_stream_inv n s"
proof (induction rule: ob_reachable.induct)
  case reach_start
  show ?case by (simp add: ob_stream_inv_def ob_start_def mk_output_buffer_def)
next
  case (reach_step s s')
  then show ?case by (blast intro: ob_stream_step)
qed

lemma ob_consumer_reachable: "ob_reachable n False s \<Longrightarrow> ob_consumer_inv s"
proof (induction rule: ob_reachable.induct)
  case reach_start
  show ?case by (simp add: ob_consumer_inv_def ob_start_def)
next
  case (reach_step s s')
  then show ?case by (blast intro: ob_consumer_step)
qed

section \<open>Progress\<close>

text \<open>
  No deadlock: while some thread is inside an operation that does not wait for space in a full
  buffer, a thread that is inside an operation can move.
\<close>

fun waits_for_space :: "'a output_buffer \<Rightarrow> 'a ob_pc \<Rightarrow> bool" where
  "waits_for_space b (Push_Wait x) = (\<not> has_space b)"
| "waits_for_space b p = False"

lemma shared_moves:
  "holds_shared (ob_pc s t) \<Longrightarrow> \<exists>s'. ob_step many s s' \<and> ob_pc s' t = Ob_Idle"
proof (cases "ob_pc s t")
  case Visiting
  then show ?thesis by (intro exI [of _ "at t Ob_Idle s"]) (simp add: ob_step.visited)
next
  case (Consuming timed)
  then show ?thesis by (intro exI [of _ "at t Ob_Idle s"]) (simp add: ob_step.keeps)
qed auto

lemma unshared_moves:
  assumes "no_shared s" "ob_pc s t \<noteq> Ob_Idle" "\<not> waits_for_space (buffer s) (ob_pc s t)"
  shows "\<exists>s'. ob_step many s s' \<and> ob_pc s' t \<noteq> ob_pc s t"
proof (cases "ob_pc s t")
  case (Push_Wait x)
  then have "push_back_as_provider x (buffer s) = Inr (buffer s\<lparr>contents := contents (buffer s) @ [x]\<rparr>)"
    using assms(3) by (simp add: push_spec)
  from ob_step.push [OF Push_Wait assms(1) this, of many] Push_Wait show ?thesis by (intro exI conjI) auto
next
  case Visit_Start
  from ob_step.visit [OF this, of many] Visit_Start show ?thesis by (intro exI conjI) auto
next
  case (Full_Wait timed)
  show ?thesis
  proof (cases "is_full (buffer s)")
    case True
    from ob_step.found_full [OF Full_Wait this, of many] Full_Wait show ?thesis by (intro exI conjI) auto
  next
    case False
    from ob_step.not_full [OF Full_Wait this, of many] Full_Wait show ?thesis by (intro exI conjI) auto
  qed
next
  case (Wiping timed)
  obtain wiped b where w: "wipe_if_full (buffer s) = (wiped, b)" by force
  show ?thesis
  proof (cases wiped)
    case True
    from ob_step.wipe [OF Wiping assms(1), of b many] w True Wiping show ?thesis by (intro exI conjI) auto
  next
    case False
    from ob_step.wipe_late [OF Wiping assms(1), of b many] w False Wiping show ?thesis by (intro exI conjI) auto
  qed
qed (use assms in \<open>auto simp: no_shared_def dest: spec [of _ t]\<close>)

lemma pipeline_never_deadlocks:
  assumes "ob_pc s t \<noteq> Ob_Idle" "\<not> waits_for_space (buffer s) (ob_pc s t)"
  shows "\<exists>u s'. ob_pc s u \<noteq> Ob_Idle \<and> ob_step many s s' \<and> ob_pc s' u \<noteq> ob_pc s u"
proof (cases "no_shared s")
  case True
  then show ?thesis using unshared_moves [OF _ assms, of many] assms(1) by blast
next
  case False
  then obtain u where u: "holds_shared (ob_pc s u)" by (auto simp: no_shared_def)
  then have "ob_pc s u \<noteq> Ob_Idle" by auto
  with shared_moves [OF u, of many] show ?thesis by metis
qed

section \<open>The operations are runs of the steps\<close>

text \<open>A run of one thread, the others standing still.\<close>

inductive ob_steps :: "bool \<Rightarrow> 'a pipeline \<Rightarrow> 'a pipeline \<Rightarrow> bool" for many where
  ob_refl: "ob_steps many s s"
| ob_next: "ob_step many s s' \<Longrightarrow> ob_steps many s' s'' \<Longrightarrow> ob_steps many s s''"

lemma ob_steps_reachable: "ob_steps many s s' \<Longrightarrow> ob_reachable n many s \<Longrightarrow> ob_reachable n many s'"
  by (induction rule: ob_steps.induct) (auto intro: ob_reachable.reach_step)

lemma ob_steps1: "ob_step many s s' \<Longrightarrow> ob_steps many s s'"
  by (rule ob_steps.ob_next [OF _ ob_steps.ob_refl])

definition quiet :: "'a pipeline \<Rightarrow> bool" where
  "quiet s \<longleftrightarrow> (\<forall>t. ob_pc s t = Ob_Idle)"

lemma quiet_free: "quiet s \<Longrightarrow> no_shared s"
  by (simp add: quiet_def no_shared_def)

lemma push_is_run:
  assumes "quiet s" "push_back_as_provider x (buffer s) = Inr b"
  shows "\<exists>s'. ob_steps many s s' \<and> quiet s' \<and> buffer s' = b \<and>
    pushed s' = pushed s @ [x] \<and> accepted s' = accepted s"
proof -
  let ?s1 = "at t (Push_Wait x) s"
  let ?s2 = "at t Ob_Idle (?s1\<lparr>buffer := b, pushed := pushed s @ [x]\<rparr>)"
  have "ob_step many s ?s1" using assms(1) by (intro ob_step.call_push) (simp add: quiet_def)
  moreover have "ob_step many ?s1 ?s2"
    using assms ob_step.push [of ?s1 t x b many] by (simp add: no_shared_def quiet_def)
  moreover have "quiet ?s2" using assms(1) by (simp add: quiet_def)
  ultimately show ?thesis by (intro exI [of _ ?s2]) (simp add: ob_steps.intros)
qed

lemma consume_is_run:
  assumes "quiet s" "with_full_contents_as_consumer_maybe_wipe f (buffer s) = (result, b)"
  shows "\<exists>s'. ob_steps many s s' \<and> quiet s' \<and> buffer s' = b \<and>
    accepted s' = accepted s @ (if is_full (buffer s) \<and> f (contents (buffer s)) then [contents (buffer s)] else [])"
proof -
  let ?s1 = "at t (Full_Wait True) s"
  have s1: "ob_step many s ?s1" using assms(1) by (intro ob_step.call_consume) (simp_all add: quiet_def)
  show ?thesis
  proof (cases "is_full (buffer s)")
    case False
    then have "ob_step many ?s1 (at t Ob_Idle ?s1)" by (intro ob_step.not_full [of _ _ True]) simp_all
    from ob_next [OF s1 ob_steps1 [OF this]] show ?thesis using False assms
      by (intro exI [of _ "at t Ob_Idle ?s1"])
         (auto simp: with_full_contents_as_consumer_maybe_wipe_def quiet_def)
  next
    case True
    let ?s2 = "at t (Consuming True) ?s1"
    have s2: "ob_step many ?s1 ?s2" using True by (intro ob_step.found_full) simp_all
    show ?thesis
    proof (cases "f (contents (buffer s))")
      case False
      have "ob_step many ?s2 (at t Ob_Idle ?s2)" by (intro ob_step.keeps [of _ _ True]) simp
      from ob_next [OF s1 ob_next [OF s2 ob_steps1 [OF this]]] show ?thesis using False True assms
        by (intro exI [of _ "at t Ob_Idle ?s2"])
           (auto simp: with_full_contents_as_consumer_maybe_wipe_def Let_def quiet_def)
    next
      case accepted: True
      let ?s3 = "at t (Wiping True) (?s2\<lparr>accepted := accepted s @ [contents (buffer s)]\<rparr>)"
      let ?s4 = "at t Ob_Idle (?s3\<lparr>buffer := b, cleared := cleared s @ [contents (buffer s)]\<rparr>)"
      have s3: "ob_step many ?s2 ?s3" using ob_step.accepts [of ?s2 t True many] by simp
      have w: "wipe_if_full (buffer s) = (True, b)"
        using True accepted assms(2) by (auto simp: with_full_contents_as_consumer_maybe_wipe_def wipe_if_full_def)
      have s4: "ob_step many ?s3 ?s4"
        using ob_step.wipe [of ?s3 t True b many] w assms(1) by (simp add: no_shared_def quiet_def)
      from ob_next [OF s1 ob_next [OF s2 ob_next [OF s3 ob_steps1 [OF s4]]]]
      show ?thesis using accepted True assms(1)
        by (intro exI [of _ ?s4]) (auto simp: quiet_def)
    qed
  qed
qed

section \<open>Properties\<close>

text \<open>C20: with one consumer at a time, and any number of providers and readers, in every reachable
  state the pushed items are the accepted batches, in order and each of exactly the capacity,
  followed by what is still in the buffer (of which a consumer about to wipe has already
  accepted everything): no item is lost, repeated or reordered, and the buffer never overflows.\<close>

theorem single_consumer_takes_each_item_once:
  assumes "ob_reachable n False s"
  shows "length (contents (buffer s)) \<le> n \<and> (\<forall>b \<in> set (accepted s). length b = n) \<and>
    pushed s = concat (accepted s) @ (if \<exists>t. is_wiper (ob_pc s t) then [] else contents (buffer s))"
  using ob_stream_reachable [OF assms] ob_consumer_reachable [OF assms]
  by (auto simp: ob_stream_inv_def ob_consumer_inv_def is_full_def dest: wiper_seen)

lemma mk_output_buffer_simps [simp]:
  "capacity (mk_output_buffer n) = n" "contents (mk_output_buffer n) = []"
  by (simp_all add: mk_output_buffer_def)

lemma ob_start_simps [simp]:
  "buffer (ob_start n) = mk_output_buffer n" "quiet (ob_start n)" "accepted (ob_start n) = []"
  "cleared (ob_start n) = []" "ob_pc (ob_start n) t = Ob_Idle"
  by (simp_all add: ob_start_def quiet_def)

lemma fill_and_consume:
  "\<exists>s. ob_reachable 1 False s \<and> accepted s = [[7 :: nat]]"
proof -
  let ?b = "(mk_output_buffer 1)\<lparr>contents := [7 :: nat]\<rparr>"
  have "push_back_as_provider 7 (buffer (ob_start 1)) = Inr ?b"
    by (simp add: push_spec has_space_def)
  from push_is_run [OF _ this, of False] obtain s where s: "ob_steps False (ob_start 1) s" "quiet s"
    "buffer s = ?b" "accepted s = []"
    by auto
  have "with_full_contents_as_consumer_maybe_wipe (\<lambda>b. True) (buffer s) = (True, mk_output_buffer 1)"
    by (simp add: s(3) with_full_contents_as_consumer_maybe_wipe_def wipe_if_full_def is_full_def mk_output_buffer_def)
  from consume_is_run [OF s(2) this, of False] obtain s' where "ob_steps False s s'" "accepted s' = [[7]]"
    by (auto simp: s(3,4) is_full_def)
  then show ?thesis using s(1) by (blast intro: ob_steps_reachable ob_reachable.reach_start)
qed

theorem single_consumer_takes_each_item_once_witness:
  "\<exists>s. ob_reachable 1 False s \<and> accepted s = [[7 :: nat]] \<and> length (contents (buffer s)) \<le> 1 \<and>
    pushed s = concat (accepted s) @ (if \<exists>t. is_wiper (ob_pc s t) then [] else contents (buffer s))"
  using fill_and_consume single_consumer_takes_each_item_once by blast

text \<open>
  With two consumers the guarantee is gone: both can be shown the same full batch, and the slower
  one then wipes a batch that was refilled in between and that no lambda has seen.
\<close>

lemma two_consumers_lose_an_item:
  "\<exists>s. ob_reachable 1 True s \<and> pushed s = [7, 8 :: nat] \<and> accepted s = [[7], [7]] \<and>
    cleared s = [[7], [8]] \<and> quiet s"
proof -
  let ?b = "\<lambda>xs :: nat list. (mk_output_buffer 1)\<lparr>contents := xs\<rparr>"
  let ?s0 = "ob_start 1 :: nat pipeline"
  let ?s1 = "at 0 (Push_Wait 7) ?s0"
  let ?s2 = "at 0 Ob_Idle (?s1\<lparr>buffer := ?b [7], pushed := [7]\<rparr>)"
  let ?s3 = "at 1 (Full_Wait True) ?s2"
  let ?s4 = "at 2 (Full_Wait False) ?s3"
  let ?s5 = "at 1 (Consuming True) ?s4"
  let ?s6 = "at 2 (Consuming False) ?s5"
  let ?s7 = "at 1 (Wiping True) (?s6\<lparr>accepted := [[7]]\<rparr>)"
  let ?s8 = "at 2 (Wiping False) (?s7\<lparr>accepted := [[7], [7]]\<rparr>)"
  let ?s9 = "at 1 Ob_Idle (?s8\<lparr>buffer := ?b [], cleared := [[7]]\<rparr>)"
  let ?s10 = "at 0 (Push_Wait 8) ?s9"
  let ?s11 = "at 0 Ob_Idle (?s10\<lparr>buffer := ?b [8], pushed := [7, 8]\<rparr>)"
  let ?s12 = "at 2 Ob_Idle (?s11\<lparr>buffer := ?b [], cleared := [[7], [8]]\<rparr>)"
  note defs = push_spec has_space_def is_full_def wipe_if_full_def no_shared_def mk_output_buffer_def ob_start_def
  have 1: "ob_step True ?s0 ?s1" by (rule ob_step.call_push) simp
  have 2: "ob_step True ?s1 ?s2" using ob_step.push [of ?s1 0 7 "?b [7]" True] by (simp add: defs)
  have 3: "ob_step True ?s2 ?s3" by (rule ob_step.call_consume) simp_all
  have 4: "ob_step True ?s3 ?s4" by (rule ob_step.call_consume) simp_all
  have 5: "ob_step True ?s4 ?s5" by (rule ob_step.found_full) (simp_all add: is_full_def)
  have 6: "ob_step True ?s5 ?s6" by (rule ob_step.found_full) (simp_all add: is_full_def)
  have 7: "ob_step True ?s6 ?s7" using ob_step.accepts [of ?s6 1 True True] by (simp add: defs)
  have 8: "ob_step True ?s7 ?s8" using ob_step.accepts [of ?s7 2 False True] by (simp add: defs)
  have 9: "ob_step True ?s8 ?s9" using ob_step.wipe [of ?s8 1 True "?b []" True] by (simp add: defs)
  have 10: "ob_step True ?s9 ?s10" by (rule ob_step.call_push) simp
  have 11: "ob_step True ?s10 ?s11" using ob_step.push [of ?s10 0 8 "?b [8]" True] by (simp add: defs)
  have 12: "ob_step True ?s11 ?s12" using ob_step.wipe [of ?s11 2 False "?b []" True] by (simp add: defs)
  have "ob_reachable 1 True ?s12"
    by (intro ob_reachable.reach_step [OF _ 12] ob_reachable.reach_step [OF _ 11]
        ob_reachable.reach_step [OF _ 10] ob_reachable.reach_step [OF _ 9] ob_reachable.reach_step [OF _ 8]
        ob_reachable.reach_step [OF _ 7] ob_reachable.reach_step [OF _ 6] ob_reachable.reach_step [OF _ 5]
        ob_reachable.reach_step [OF _ 4] ob_reachable.reach_step [OF _ 3] ob_reachable.reach_step [OF _ 2]
        ob_reachable.reach_step [OF _ 1] ob_reachable.reach_start)
  then show ?thesis by (intro exI [of _ ?s12]) (simp add: quiet_def)
qed

text \<open>
  What a caller of the two consuming operations can tell from the result: the timed one returns
  true exactly when it wiped; the other one also returns true for a batch that was refused.
\<close>

lemma consumer_results:
  "with_full_contents_as_consumer_maybe_wipe f b =
     (let w = is_full b \<and> f (contents b) in (w, if w then b\<lparr>contents := []\<rparr> else b))"
  "try_process_full_batch f b =
     (is_full b, if is_full b \<and> f (contents b) then b\<lparr>contents := []\<rparr> else b)"
  by (auto simp: with_full_contents_as_consumer_maybe_wipe_def try_process_full_batch_def wipe_if_full_def is_full_def)

text \<open>
  The feeder does not wait for its tier: a tier that is not connected, or that does not accept
  the item during the notification, never sees it again.
\<close>

lemma feeder_slot_always_empty: "fst (insert_data tier0 data s) = None"
  by (simp add: insert_data_def Let_def)

lemma unconnected_feeder_drops: "insert_data None data (slot, w) = (None, w)"
  by (simp add: insert_data_def)

lemma feeder_offers_once:
  "insert_data (Some (with_slot_as_consumer_maybe_wipe f)) data (slot, w) = (None, snd (f data w))"
  by (simp add: insert_data_def with_slot_as_consumer_maybe_wipe_def split: prod.split)

end
