(* ===== verification/Tier_Orchestrator.thy ===== *)
theory Tier_Orchestrator
  imports Manifest_Log Pipeline_Buffer
begin

text \<open>
  \<^verbatim>\<open>include/evolving_disk_state_old/tier_orchestrator.hpp\<close>: the state of a sack is the state
  folder that exists in it; booting detects it, recovers the folder and opens its manifest, and a
  transition finishes the folder and creates the next one.

  The disk is the file system with the permission bits that were set, and whether the process is
  privileged.  A process that is not, the owner of all the folders, needs the search bit of every
  folder on the way to a name it looks up, and the write bit of the folder in which it makes or
  removes an entry; without them the calls of the standard library throw.
\<close>

section \<open>The disk\<close>

record disk =
  d_fs :: fs
  d_modes :: "(path \<times> nat) list"
  d_privileged :: bool

text \<open>A folder whose mode was not set has 0755; the owner's write bit is 0200, the search bit 0100.\<close>

definition mode_of :: "disk \<Rightarrow> path \<Rightarrow> nat" where
  "mode_of d p = (case map_of (d_modes d) p of Some m \<Rightarrow> m | None \<Rightarrow> 493)"

definition may_search :: "disk \<Rightarrow> path \<Rightarrow> bool" where
  "may_search d p \<longleftrightarrow> d_privileged d \<or> odd (mode_of d p div 64)"

definition may_write :: "disk \<Rightarrow> path \<Rightarrow> bool" where
  "may_write d p \<longleftrightarrow> d_privileged d \<or> odd (mode_of d p div 128)"

definition may_reach :: "disk \<Rightarrow> path \<Rightarrow> bool" where
  "may_reach d p \<longleftrightarrow> (\<forall>k < length p. may_search d (take k p))"

definition disk_exists :: "disk \<Rightarrow> path \<Rightarrow> bool res" where
  "disk_exists d p = (if \<not> may_reach d p then Inl Filesystem_Error else Inr (fs_exists (d_fs d) p))"

definition fs_remove :: "fs \<Rightarrow> path \<Rightarrow> fs res" where
  "fs_remove fs p =
     (case fs_node fs p of
        None \<Rightarrow> Inr fs
      | Some (File c) \<Rightarrow> Inr (AList.delete p fs)
      | Some Dir \<Rightarrow>
          if \<exists>e \<in> set fs. strict_prefix p (fst e) then Inl Filesystem_Error else Inr (AList.delete p fs))"

definition disk_remove :: "disk \<Rightarrow> path \<Rightarrow> disk res" where
  "disk_remove d p =
     (if \<not> may_reach d p \<or> (fs_exists (d_fs d) p \<and> \<not> may_write d (butlast p)) then Inl Filesystem_Error
      else rbind (fs_remove (d_fs d) p) (\<lambda>fs1. Inr (d\<lparr>d_fs := fs1\<rparr>)))"

definition fs_permissions :: "disk \<Rightarrow> path \<Rightarrow> nat \<Rightarrow> disk res" where
  "fs_permissions d p mode =
     (if \<not> may_reach d p \<or> \<not> fs_exists (d_fs d) p then Inl Filesystem_Error
      else Inr (d\<lparr>d_modes := AList.update p mode (d_modes d)\<rparr>))"

text \<open>A new folder gets the default mode; a folder that exists is left as it is.\<close>

definition disk_create_directory :: "disk \<Rightarrow> path \<Rightarrow> disk res" where
  "disk_create_directory d p =
     (if \<not> may_reach d p \<or> (\<not> fs_exists (d_fs d) p \<and> \<not> may_write d (butlast p)) then Inl Filesystem_Error
      else rbind (fs_create_directory (d_fs d) p) (\<lambda>fs1.
        Inr (d\<lparr>d_fs := fs1,
                d_modes := (if fs_exists (d_fs d) p then d_modes d else AList.delete p (d_modes d))\<rparr>)))"

section \<open>The orchestrator\<close>

datatype state_kind = Origin | Filling | Sprinkling | Product

definition filling_folder :: string where
  "filling_folder = ''FillingSack''"

definition sprinkling_folder :: string where
  "sprinkling_folder = ''SprinklingSack''"

definition product_folder :: string where
  "product_folder = ''Product''"

record orchestrator =
  sack_dir :: path
  active_dir :: path
  current_state :: state_kind
  the_manifest :: "manifest_engine option"

definition mk_orchestrator :: "path \<Rightarrow> orchestrator" where
  "mk_orchestrator dir =
     \<lparr>sack_dir = dir, active_dir = [], current_state = Origin, the_manifest = None\<rparr>"

text \<open>Destroying an engine closes its log stream, which writes what is still pending.\<close>

definition destroy_manifest_engine :: "manifest_engine option \<Rightarrow> fs \<Rightarrow> fs" where
  "destroy_manifest_engine m fs =
     (case m of None \<Rightarrow> fs
      | Some me \<Rightarrow> (case me_out me of None \<Rightarrow> fs | Some s \<Rightarrow> fst (os_flush fs s)))"

text \<open>Recovery begins with the question whether the log exists, and stays in the folder of the log.\<close>

definition recover_on_disk :: "disk \<Rightarrow> path \<Rightarrow> disk res" where
  "recover_on_disk d dir =
     rbind (disk_exists d (dir @ [''manifest.tx''])) (\<lambda>_.
     rbind (recover_state_directory (d_fs d) dir) (\<lambda>fs1. Inr (d\<lparr>d_fs := fs1\<rparr>)))"

definition boot_and_recover :: "disk \<times> orchestrator \<Rightarrow> (disk \<times> orchestrator) res" where
  "boot_and_recover w =
     (let d = fst w; ob = snd w; sack = sack_dir ob in
      rbind (disk_exists d (sack @ [product_folder])) (\<lambda>product.
      if product then Inr (d, ob\<lparr>current_state := Product\<rparr>)
      else
        rbind (disk_exists d (sack @ [sprinkling_folder])) (\<lambda>sprinkling.
        rbind (if sprinkling then Inr (ob\<lparr>current_state := Sprinkling, active_dir := sack @ [sprinkling_folder]\<rparr>)
               else rbind (disk_exists d (sack @ [filling_folder])) (\<lambda>filling.
                 Inr (if filling then ob\<lparr>current_state := Filling, active_dir := sack @ [filling_folder]\<rparr>
                      else ob\<lparr>current_state := Origin, active_dir := sack\<rparr>))) (\<lambda>ob1.
        if current_state ob1 = Origin then Inr (d, ob1)
        else rbind (recover_on_disk d (active_dir ob1)) (\<lambda>d1.
          Inr (d1\<lparr>d_fs := destroy_manifest_engine (the_manifest ob1) (d_fs d1)\<rparr>,
               ob1\<lparr>the_manifest := Some (mk_manifest_engine (active_dir ob1))\<rparr>))))))"

text \<open>What \<open>finalize_current_state\<close> does to the disk, in order; read for all is mode 0444.\<close>

definition finalize_steps :: "orchestrator \<Rightarrow> path \<Rightarrow> (disk \<Rightarrow> disk res) list" where
  "finalize_steps ob next_dir =
     [\<lambda>d. disk_remove d (active_dir ob @ [''manifest.tx'']),
      \<lambda>d. if active_dir ob \<noteq> sack_dir ob then fs_permissions d (active_dir ob) 292 else Inr d,
      \<lambda>d. disk_create_directory d next_dir]"

definition run_steps :: "(disk \<Rightarrow> disk res) list \<Rightarrow> disk \<Rightarrow> disk res" where
  "run_steps fs d = rfold (\<lambda>d f. f d) d fs"

definition finalize_current_state ::
    "path \<Rightarrow> disk \<times> orchestrator \<Rightarrow> (disk \<times> orchestrator) res" where
  "finalize_current_state next_dir w =
     rbind (run_steps (finalize_steps (snd w) next_dir) (fst w)) (\<lambda>d.
       let ob = snd w in
       Inr (d\<lparr>d_fs := destroy_manifest_engine (the_manifest ob) (d_fs d)\<rparr>,
            ob\<lparr>active_dir := next_dir,
               the_manifest := (if last next_dir \<noteq> product_folder
                                then Some (mk_manifest_engine next_dir) else None)\<rparr>))"

definition transition_to_next_state :: "disk \<times> orchestrator \<Rightarrow> (disk \<times> orchestrator) res" where
  "transition_to_next_state w =
     (let sack = sack_dir (snd w) in
      case current_state (snd w) of
        Filling \<Rightarrow> rbind (finalize_current_state (sack @ [sprinkling_folder]) w) (\<lambda>(d, ob).
          Inr (d, ob\<lparr>current_state := Sprinkling\<rparr>))
      | Sprinkling \<Rightarrow> rbind (finalize_current_state (sack @ [product_folder]) w) (\<lambda>(d, ob).
          Inr (d, ob\<lparr>current_state := Product\<rparr>))
      | _ \<Rightarrow> Inr w)"

section \<open>Waiting until everything is settled\<close>

definition settled :: "'a output_buffer \<Rightarrow> int \<Rightarrow> bool" where
  "settled ob in_flight_count \<longleftrightarrow> buffer_empty ob \<and> in_flight_count = 0"

definition wait_for_settled :: "'a output_buffer \<Rightarrow> int \<Rightarrow> unit res" where
  "wait_for_settled ob in_flight_count = (if settled ob in_flight_count then Inr () else Inl Blocked)"

text \<open>
  The same with one waiting thread and one worker.  The waiter holds \<open>settle_mutex_\<close> from its
  look at the predicate until it sleeps; the worker changes the count, and notifies, without it.
\<close>

datatype waiter_pc = Looking | Going_To_Sleep | Asleep | Returned

datatype worker_pc = Resting | Working | Finished

record 'a settling =
  s_buffer :: "'a output_buffer"
  s_count :: int
  s_waiter :: waiter_pc
  s_worker :: worker_pc

definition notify_work_completed :: "waiter_pc \<Rightarrow> waiter_pc" where
  "notify_work_completed p = (if p = Asleep then Looking else p)"

inductive settle_step :: "'a settling \<Rightarrow> 'a settling \<Rightarrow> bool" where
  look_settled: "s_waiter s = Looking \<Longrightarrow> wait_for_settled (s_buffer s) (s_count s) = Inr () \<Longrightarrow>
    settle_step s (s\<lparr>s_waiter := Returned\<rparr>)"
| look_busy: "s_waiter s = Looking \<Longrightarrow> wait_for_settled (s_buffer s) (s_count s) = Inl Blocked \<Longrightarrow>
    settle_step s (s\<lparr>s_waiter := Going_To_Sleep\<rparr>)"
| sleep: "s_waiter s = Going_To_Sleep \<Longrightarrow> settle_step s (s\<lparr>s_waiter := Asleep\<rparr>)"
| work_slice: "s_worker s = Working \<Longrightarrow> try_process_full_batch f (s_buffer s) = (r, b) \<Longrightarrow>
    settle_step s (s\<lparr>s_buffer := b, s_count := s_count s - 1, s_worker := Finished\<rparr>)"
| work_notify: "s_worker s = Finished \<Longrightarrow>
    settle_step s (s\<lparr>s_waiter := notify_work_completed (s_waiter s), s_worker := Resting\<rparr>)"

inductive settle_steps :: "'a settling \<Rightarrow> 'a settling \<Rightarrow> bool" where
  settle_refl: "settle_steps s s"
| settle_next: "settle_step s s' \<Longrightarrow> settle_steps s' s'' \<Longrightarrow> settle_steps s s''"

inductive_cases settle_step_cases: "settle_step s s'"

text \<open>
  The wake-up can be lost: the worker finishes and notifies between the waiter's look and its
  sleep.  Everything is settled then, and no step of either thread is left.
\<close>

lemma settled_waiter_sleeps_on:
  assumes "s_waiter s = Looking" "s_worker s = Working" "s_count s = 1"
    "contents (s_buffer s) = xs" "capacity (s_buffer s) = length xs"
  shows "\<exists>s'. settle_steps s s' \<and> settled (s_buffer s') (s_count s') \<and> s_waiter s' = Asleep \<and>
    \<not> (\<exists>s''. settle_step s' s'')"
proof -
  let ?b = "(s_buffer s)\<lparr>contents := []\<rparr>"
  let ?s1 = "s\<lparr>s_waiter := Going_To_Sleep\<rparr>"
  let ?s2 = "?s1\<lparr>s_buffer := ?b, s_count := 0, s_worker := Finished\<rparr>"
  let ?s3 = "?s2\<lparr>s_waiter := Going_To_Sleep, s_worker := Resting\<rparr>"
  let ?s4 = "?s3\<lparr>s_waiter := Asleep\<rparr>"
  have 1: "settle_step s ?s1" using assms by (intro settle_step.look_busy) (simp_all add: wait_for_settled_def settled_def)
  have 2: "settle_step ?s1 ?s2"
    using assms settle_step.work_slice [of ?s1 "\<lambda>b. True" True ?b] by (simp add: consumer_results is_full_def)
  have 3: "settle_step ?s2 ?s3"
    using settle_step.work_notify [of ?s2] by (simp add: notify_work_completed_def)
  have 4: "settle_step ?s3 ?s4" by (intro settle_step.sleep) simp
  have "settle_steps s ?s4"
    by (intro settle_next [OF 1] settle_next [OF 2] settle_next [OF 3] settle_next [OF 4] settle_refl)
  moreover have "\<not> (\<exists>s''. settle_step ?s4 s'')" by (auto elim!: settle_step_cases)
  ultimately show ?thesis by (intro exI [of _ ?s4]) (simp add: settled_def buffer_empty_def)
qed

section \<open>Well-formed sacks\<close>

definition state_on_disk :: "fs \<Rightarrow> path \<Rightarrow> state_kind" where
  "state_on_disk fs sack =
     (if fs_exists fs (sack @ [product_folder]) then Product
      else if fs_exists fs (sack @ [sprinkling_folder]) then Sprinkling
      else if fs_exists fs (sack @ [filling_folder]) then Filling else Origin)"

fun folder_of :: "path \<Rightarrow> state_kind \<Rightarrow> path" where
  "folder_of sack Origin = sack"
| "folder_of sack Filling = sack @ [filling_folder]"
| "folder_of sack Sprinkling = sack @ [sprinkling_folder]"
| "folder_of sack Product = sack @ [product_folder]"

fun next_state :: "state_kind \<Rightarrow> state_kind" where
  "next_state Filling = Sprinkling"
| "next_state Sprinkling = Product"
| "next_state s = s"

fun evolving :: "state_kind \<Rightarrow> bool" where
  "evolving Filling = True"
| "evolving Sprinkling = True"
| "evolving s = False"

definition engine_wf :: "path \<Rightarrow> manifest_engine \<Rightarrow> bool" where
  "engine_wf dir me \<longleftrightarrow> me_state_dir me = dir \<and> me_manifest_path me = dir @ [''manifest.tx''] \<and>
     (\<forall>s. me_out me = Some s \<longrightarrow> os_path s = me_manifest_path me)"

text \<open>The process may look up, make and remove entries in the folder.\<close>

definition unlocked :: "disk \<Rightarrow> path \<Rightarrow> bool" where
  "unlocked d p \<longleftrightarrow> may_reach d p \<and> may_search d p \<and> may_write d p"

text \<open>
  The state on disk and in memory agree, the state folders are directories, exactly an evolving
  sack has an engine, for its own folder, whose manifest is not a directory, and neither the sack
  nor its active folder is locked.
\<close>

definition orchestrator_wf :: "disk \<times> orchestrator \<Rightarrow> bool" where
  "orchestrator_wf w \<longleftrightarrow> (case w of (d, ob) \<Rightarrow>
     fs_wf (d_fs d) \<and> fs_is_directory (d_fs d) (sack_dir ob) \<and>
     (\<forall>k c. fs_node (d_fs d) (folder_of (sack_dir ob) k) \<noteq> Some (File c)) \<and>
     (evolving (current_state ob) \<longrightarrow> fs_node (d_fs d) (active_dir ob @ [''manifest.tx'']) \<noteq> Some Dir) \<and>
     current_state ob = state_on_disk (d_fs d) (sack_dir ob) \<and>
     (evolving (current_state ob) \<longrightarrow> active_dir ob = folder_of (sack_dir ob) (current_state ob)) \<and>
     unlocked d (sack_dir ob) \<and> (evolving (current_state ob) \<longrightarrow> unlocked d (active_dir ob)) \<and>
     (case the_manifest ob of None \<Rightarrow> \<not> evolving (current_state ob)
      | Some me \<Rightarrow> evolving (current_state ob) \<and> engine_wf (active_dir ob) me))"

lemma folder_names [simp]:
  "filling_folder \<noteq> sprinkling_folder" "sprinkling_folder \<noteq> filling_folder"
  "filling_folder \<noteq> product_folder" "product_folder \<noteq> filling_folder"
  "sprinkling_folder \<noteq> product_folder" "product_folder \<noteq> sprinkling_folder"
  by (simp_all add: filling_folder_def sprinkling_folder_def product_folder_def)

lemma fs_node_delete: "p \<noteq> [] \<Longrightarrow> fs_node (AList.delete p fs) q = (if q = p then None else fs_node fs q)"
  by (simp add: fs_node_def delete_conv')

lemma fs_remove_file:
  assumes "fs_wf fs" "fs_node fs p \<noteq> Some Dir"
  shows "\<exists>fs'. fs_remove fs p = Inr fs' \<and> fs_wf fs' \<and> (\<forall>q. fs_node fs' q = (if q = p then None else fs_node fs q))"
proof (cases "fs_node fs p")
  case None
  then show ?thesis using assms(1) by (auto simp: fs_remove_def)
next
  case (Some n)
  then obtain c where c: "fs_node fs p = Some (File c)" using assms(2) by (cases n) auto
  then have p: "p \<noteq> []" by auto
  have "fs_is_directory (AList.delete p fs) d" if "fs_is_directory fs d" for d
    using that c p by (auto simp: fs_is_directory_def fs_node_delete)
  then have "fs_wf (AList.delete p fs)"
    using assms(1) AList.dom_delete_subset [of p fs] unfolding fs_wf_def by (blast intro: AList.distinct_delete)
  then show ?thesis using c p by (simp add: fs_remove_def fs_node_delete)
qed

section \<open>Permissions\<close>

lemma may_reach_snoc: "may_reach d (p @ [x]) \<longleftrightarrow> may_reach d p \<and> may_search d p"
  unfolding may_reach_def by (auto simp: less_Suc_eq)

lemma unlockedD: "unlocked d p \<Longrightarrow> may_reach d p \<and> may_search d p \<and> may_write d p"
  by (simp add: unlocked_def)

lemma unlocked_reach: "unlocked d p \<Longrightarrow> may_reach d (p @ [x])"
  by (simp add: unlocked_def may_reach_snoc)

text \<open>What a process may do in a folder depends on the modes of the folder and those above it.\<close>

lemma unlocked_frame:
  assumes "\<And>q. length q \<le> length p \<Longrightarrow> map_of (d_modes d') q = map_of (d_modes d) q"
    and "d_privileged d' = d_privileged d"
  shows "unlocked d' p = unlocked d p"
proof -
  have "mode_of d' (take k p) = mode_of d (take k p)" "mode_of d' p = mode_of d p" for k
    using assms(1) by (simp_all add: mode_of_def)
  then show ?thesis by (simp add: unlocked_def may_reach_def may_search_def may_write_def assms(2))
qed

section \<open>Finishing a folder\<close>

definition finished_fs :: "path \<Rightarrow> path \<Rightarrow> fs \<Rightarrow> fs \<Rightarrow> bool" where
  "finished_fs log next_dir fs fs' \<longleftrightarrow> fs_wf fs' \<and>
     (\<forall>q. fs_node fs' q = (if q = log then None else if q = next_dir then Some Dir else fs_node fs q))"

lemma folder_of_simps [simp]:
  "evolving k \<Longrightarrow> folder_of sack k \<noteq> sack" "evolving k \<Longrightarrow> folder_of sack (next_state k) \<noteq> folder_of sack k"
  "evolving k \<Longrightarrow> butlast (folder_of sack (next_state k)) = sack"
  "evolving k \<Longrightarrow> folder_of sack (next_state k) \<noteq> folder_of sack k @ [f]"
  by (cases k; simp)+

lemma orchestrator_wfD:
  assumes "orchestrator_wf (d, ob)"
  shows "fs_wf (d_fs d)" "fs_is_directory (d_fs d) (sack_dir ob)"
    "fs_node (d_fs d) (folder_of (sack_dir ob) k) \<noteq> Some (File c)"
    "evolving (current_state ob) \<Longrightarrow> fs_node (d_fs d) (active_dir ob @ [''manifest.tx'']) \<noteq> Some Dir"
    "current_state ob = state_on_disk (d_fs d) (sack_dir ob)"
    "evolving (current_state ob) \<Longrightarrow> active_dir ob = folder_of (sack_dir ob) (current_state ob)"
    "the_manifest ob = Some me \<Longrightarrow> engine_wf (active_dir ob) me"
    "evolving (current_state ob) \<longleftrightarrow> the_manifest ob \<noteq> None"
    "unlocked d (sack_dir ob)" "evolving (current_state ob) \<Longrightarrow> unlocked d (active_dir ob)"
  using assms by (auto simp: orchestrator_wf_def split: option.splits)

lemma evolving_folders:
  assumes "evolving (state_on_disk fs sack)"
    "\<And>k c. fs_node fs (folder_of sack k) \<noteq> Some (File c)"
  shows "fs_node fs (folder_of sack (state_on_disk fs sack)) = Some Dir"
    "fs_node fs (folder_of sack (next_state (state_on_disk fs sack))) = None"
proof -
  show "fs_node fs (folder_of sack (next_state (state_on_disk fs sack))) = None"
    using assms(1) by (auto simp: state_on_disk_def fs_exists_def split: if_splits)
  have "fs_node fs (folder_of sack (state_on_disk fs sack)) \<noteq> None"
    using assms(1) by (auto simp: state_on_disk_def fs_exists_def split: if_splits)
  then obtain n where "fs_node fs (folder_of sack (state_on_disk fs sack)) = Some n" by auto
  with assms(2) show "fs_node fs (folder_of sack (state_on_disk fs sack)) = Some Dir" by (cases n) auto
qed

lemma folder_below: "k \<noteq> Origin \<Longrightarrow> folder_of sack k = sack @ [last (folder_of sack k)]"
  by (cases k) simp_all

text \<open>
  The disk after each of the three steps.  The first two do nothing a second time, except that an
  unprivileged process cannot look for the log again once the folder is locked.
\<close>

lemma finalize_steps_ok:
  assumes "orchestrator_wf (d, ob)" "evolving (current_state ob)"
  defines "next_dir \<equiv> folder_of (sack_dir ob) (next_state (current_state ob))"
  obtains r p c d1 d2 d3 where "finalize_steps ob next_dir = [r, p, c]"
    "r d = Inr d1" "p d1 = Inr d2" "c d2 = Inr d3" "r d1 = Inr d1" "p d2 = Inr d2"
    "r d2 = (if d_privileged d then Inr d2 else Inl Filesystem_Error)"
    "\<forall>q. fs_node (d_fs d1) q = (if q = active_dir ob @ [''manifest.tx''] then None else fs_node (d_fs d) q)"
    "d_fs d2 = d_fs d1" "finished_fs (active_dir ob @ [''manifest.tx'']) next_dir (d_fs d) (d_fs d3)"
    "unlocked d1 (sack_dir ob)" "unlocked d2 (sack_dir ob)" "unlocked d3 (sack_dir ob)"
    "unlocked d1 (active_dir ob)" "unlocked d3 next_dir" "may_search d2 (active_dir ob) = d_privileged d"
proof -
  note W = orchestrator_wfD [OF assms(1)]
  let ?log = "active_dir ob @ [''manifest.tx'']" and ?sack = "sack_dir ob"
  have active: "active_dir ob = folder_of ?sack (current_state ob)" by (rule W(6) [OF assms(2)])
  have dir: "fs_node (d_fs d) (active_dir ob) = Some Dir" and new: "fs_node (d_fs d) next_dir = None"
    using evolving_folders [of "d_fs d" ?sack] assms(2) W(3,5) active by (auto simp: next_dir_def)
  obtain fs1 where fs1: "fs_remove (d_fs d) ?log = Inr fs1" "fs_wf fs1"
    "\<forall>q. fs_node fs1 q = (if q = ?log then None else fs_node (d_fs d) q)"
    using fs_remove_file [OF W(1) W(4) [OF assms(2)]] by blast
  have "fs_is_directory fs1 ?sack"
    using W(2) fs1(3) active assms(2) by (auto simp: fs_is_directory_def) (cases "current_state ob"; simp)+
  moreover have free: "fs_node fs1 next_dir = None" using fs1(3) new by simp
  ultimately obtain fs3 where fs3: "fs_create_directory fs1 next_dir = Inr fs3" "fs_wf fs3"
    "\<forall>q. fs_node fs3 q = (if q = next_dir then Some Dir else fs_node fs1 q)"
    using fs_create_directory_ok [OF fs1(2), of next_dir] assms(2) by (auto simp: next_dir_def)
  define d1 where "d1 = d\<lparr>d_fs := fs1\<rparr>"
  define d2 where "d2 = d1\<lparr>d_modes := AList.update (active_dir ob) 292 (d_modes d)\<rparr>"
  define d3 where "d3 = d2\<lparr>d_fs := fs3, d_modes := AList.delete next_dir (d_modes d2)\<rparr>"
  note ds = d1_def d2_def d3_def
  have gone: "fs_node fs1 ?log = None" "fs_remove fs1 ?log = Inr fs1" using fs1(3) by (simp_all add: fs_remove_def)
  have there: "fs_exists fs1 (active_dir ob)" using fs1(3) dir by (simp add: fs_exists_def)
  have apart: "active_dir ob \<noteq> ?sack" "next_dir \<noteq> ?log" using active assms(2) by (simp_all add: next_dir_def)
  have snoc: "active_dir ob = ?sack @ [last (active_dir ob)]" "next_dir = ?sack @ [last next_dir]"
    using active assms(2) folder_below by (cases "current_state ob"; simp add: next_dir_def)+
  have long: "length ?sack < length (active_dir ob)" "length ?sack < length next_dir"
    by (subst snoc, simp)+
  have same: "map_of (d_modes x) q = map_of (d_modes d) q" if "length q \<le> length ?sack" "x \<in> {d1, d2, d3}" for x q
  proof -
    have "q \<noteq> active_dir ob" "q \<noteq> next_dir" using that(1) long by auto
    then show ?thesis using that(2) by (auto simp: ds update_conv' delete_conv')
  qed
  have sack: "unlocked x ?sack" if x: "x \<in> {d1, d2, d3}" for x
  proof -
    have "unlocked x ?sack = unlocked d ?sack"
      by (rule unlocked_frame [OF same [OF _ x]]) (use x in \<open>auto simp: ds\<close>)
    then show ?thesis using W(9) by simp
  qed
  have reach: "may_reach x (active_dir ob)" "may_reach x next_dir" if "x \<in> {d1, d2, d3}" for x
    using unlocked_reach [OF sack [OF that]] by (subst snoc, blast)+
  have act: "unlocked d1 (active_dir ob)" using W(10) [OF assms(2)] unlocked_frame [of "active_dir ob" d1 d] by (simp add: ds)
  have m2: "may_search d2 (active_dir ob) = d_privileged d" by (simp add: may_search_def mode_of_def ds update_conv')
  have log: "may_reach x ?log = may_search x (active_dir ob)" if "x \<in> {d1, d2}" for x
    using reach [of x] that by (auto simp: may_reach_snoc)
  have new3: "unlocked d3 next_dir"
    using reach(2) [of d3] by (simp add: unlocked_def may_search_def may_write_def mode_of_def) (simp add: ds delete_conv')
  have butlast: "butlast next_dir = ?sack" using assms(2) by (simp add: next_dir_def)
  show thesis
  proof (rule that [where r = "finalize_steps ob next_dir ! 0" and p = "finalize_steps ob next_dir ! 1"
        and c = "finalize_steps ob next_dir ! 2", OF _ _ _ _ _ _ _ _ _ _ sack sack sack act new3 m2])
    show "(finalize_steps ob next_dir ! 0) d = Inr d1"
      using unlocked_reach [OF W(10) [OF assms(2)]] unlockedD [OF W(10) [OF assms(2)]] fs1(1)
      by (simp add: finalize_steps_def disk_remove_def d1_def)
    show "(finalize_steps ob next_dir ! 0) d1 = Inr d1"
      using log [of d1] unlockedD [OF act] gone by (simp add: finalize_steps_def disk_remove_def fs_exists_def) (simp add: d1_def)
    show "(finalize_steps ob next_dir ! 1) d1 = Inr d2" "(finalize_steps ob next_dir ! 1) d2 = Inr d2"
      using reach(1) [of d1] reach(1) [of d2] there apart
      by (simp_all add: finalize_steps_def fs_permissions_def) (simp_all add: ds AList.update_last)
    show "(finalize_steps ob next_dir ! 2) d2 = Inr d3"
      using reach(2) [of d2] unlockedD [OF sack [of d2]] free fs3(1) butlast
      by (simp add: finalize_steps_def disk_create_directory_def fs_exists_def) (simp add: ds)
    show "(finalize_steps ob next_dir ! 0) d2 = (if d_privileged d then Inr d2 else Inl Filesystem_Error)"
      using log [of d2] m2 gone by (simp add: finalize_steps_def disk_remove_def fs_exists_def) (simp add: ds)
    show "finished_fs ?log next_dir (d_fs d) (d_fs d3)"
      using fs3(2,3) fs1(3) apart(2) by (simp add: finished_fs_def ds)
    show "\<forall>q. fs_node (d_fs d1) q = (if q = ?log then None else fs_node (d_fs d) q)" using fs1(3) by (simp add: ds)
  qed (simp_all add: finalize_steps_def ds)
qed

lemma destroy_engine_idle:
  assumes "engine_wf dir me" "fs_node fs (dir @ [''manifest.tx'']) = None"
  shows "destroy_manifest_engine (Some me) fs = fs"
  using assms by (auto simp: destroy_manifest_engine_def engine_wf_def os_flush_def fs_append_def split: option.splits)

lemma transition_eq:
  "evolving (current_state ob) \<Longrightarrow> transition_to_next_state (d, ob) =
     rbind (finalize_current_state (folder_of (sack_dir ob) (next_state (current_state ob))) (d, ob))
       (\<lambda>(d', ob'). Inr (d', ob'\<lparr>current_state := next_state (current_state ob)\<rparr>))"
  by (cases "current_state ob") (simp_all add: transition_to_next_state_def)

lemma transition_idle: "\<not> evolving (current_state (snd w)) \<Longrightarrow> transition_to_next_state w = Inr w"
  by (cases "current_state (snd w)") (simp_all add: transition_to_next_state_def)

definition after_transition :: "orchestrator \<Rightarrow> orchestrator" where
  "after_transition ob =
     (let k = next_state (current_state ob); dir = folder_of (sack_dir ob) k in
      ob\<lparr>active_dir := dir, current_state := k,
         the_manifest := (if evolving k then Some (mk_manifest_engine dir) else None)\<rparr>)"

lemma last_folder: "evolving k \<Longrightarrow> last (folder_of sack (next_state k)) = product_folder \<longleftrightarrow> next_state k = Product"
  by (cases k) simp_all

lemma evolving_next: "evolving k \<Longrightarrow> evolving (next_state k) \<longleftrightarrow> next_state k \<noteq> Product"
  by (cases k) simp_all

lemma transition_runs:
  assumes "evolving (current_state ob)"
    "run_steps (finalize_steps ob (folder_of (sack_dir ob) (next_state (current_state ob)))) d = Inr d'"
    "destroy_manifest_engine (the_manifest ob) (d_fs d') = d_fs d'"
  shows "transition_to_next_state (d, ob) = Inr (d', after_transition ob)"
  using assms
  by (simp add: transition_eq finalize_current_state_def after_transition_def Let_def last_folder evolving_next)

lemma transition_ok:
  assumes "orchestrator_wf (d, ob)" "evolving (current_state ob)"
  defines "next_dir \<equiv> folder_of (sack_dir ob) (next_state (current_state ob))"
  obtains d' where "transition_to_next_state (d, ob) = Inr (d', after_transition ob)"
    "finished_fs (active_dir ob @ [''manifest.tx'']) next_dir (d_fs d) (d_fs d')"
    "run_steps (finalize_steps ob next_dir) d = Inr d'" "unlocked d' (sack_dir ob)" "unlocked d' next_dir"
proof -
  obtain r p c d1 d2 d3 where F: "finalize_steps ob next_dir = [r, p, c]"
    "r d = Inr d1" "p d1 = Inr d2" "c d2 = Inr d3"
    "finished_fs (active_dir ob @ [''manifest.tx'']) next_dir (d_fs d) (d_fs d3)"
    "unlocked d3 (sack_dir ob)" "unlocked d3 next_dir"
    unfolding next_dir_def by (rule finalize_steps_ok [OF assms(1,2)])
  obtain me where me: "the_manifest ob = Some me" "engine_wf (active_dir ob) me"
    using orchestrator_wfD(7,8) [OF assms(1)] assms(2) by blast
  have "fs_node (d_fs d3) (active_dir ob @ [''manifest.tx'']) = None" using F(5) by (simp add: finished_fs_def)
  then have idle: "destroy_manifest_engine (the_manifest ob) (d_fs d3) = d_fs d3"
    using me destroy_engine_idle by simp
  have run: "run_steps (finalize_steps ob next_dir) d = Inr d3" by (simp add: run_steps_def F(1-4))
  show thesis
    by (rule that [OF transition_runs [OF assms(2) _ idle] F(5) run F(6,7)]) (use run in \<open>simp add: next_dir_def\<close>)
qed

text \<open>Booting, when the sack can be searched.\<close>

lemma boot_eq:
  assumes "may_reach d (sack_dir ob)" "may_search d (sack_dir ob)"
  shows "boot_and_recover (d, ob) =
    (let k = state_on_disk (d_fs d) (sack_dir ob); dir = folder_of (sack_dir ob) k in
     if k = Product then Inr (d, ob\<lparr>current_state := Product\<rparr>)
     else if k = Origin then Inr (d, ob\<lparr>current_state := Origin, active_dir := sack_dir ob\<rparr>)
     else rbind (recover_on_disk d dir) (\<lambda>d1.
       Inr (d1\<lparr>d_fs := destroy_manifest_engine (the_manifest ob) (d_fs d1)\<rparr>,
            ob\<lparr>current_state := k, active_dir := dir, the_manifest := Some (mk_manifest_engine dir)\<rparr>)))"
  using assms
  by (auto simp: boot_and_recover_def state_on_disk_def Let_def disk_exists_def may_reach_snoc)

text \<open>Without a log in the folder of the state, booting changes nothing on the disk.\<close>

definition booted :: "path \<Rightarrow> state_kind \<Rightarrow> orchestrator" where
  "booted sack k = \<lparr>sack_dir = sack, active_dir = (if k = Product then [] else folder_of sack k), current_state = k,
     the_manifest = (if evolving k then Some (mk_manifest_engine (folder_of sack k)) else None)\<rparr>"

lemma boot_without_log:
  assumes "unlocked d sack"
    and "evolving (state_on_disk (d_fs d) sack) \<Longrightarrow>
      fs_node (d_fs d) (folder_of sack (state_on_disk (d_fs d) sack) @ [''manifest.tx'']) = None
      \<and> may_search d (folder_of sack (state_on_disk (d_fs d) sack))"
  shows "boot_and_recover (d, mk_orchestrator sack) = Inr (d, booted sack (state_on_disk (d_fs d) sack))"
proof -
  note U = unlockedD [OF assms(1)]
  have "may_reach d (folder_of sack (state_on_disk (d_fs d) sack))"
    using U by (cases "state_on_disk (d_fs d) sack") (simp_all add: may_reach_snoc)
  then have "may_reach d (folder_of sack (state_on_disk (d_fs d) sack) @ [''manifest.tx''])"
    if "evolving (state_on_disk (d_fs d) sack)"
    using assms(2) [OF that] may_reach_snoc by blast
  then show ?thesis using boot_eq [of d "mk_orchestrator sack"] U assms(2)
    by (cases "state_on_disk (d_fs d) sack")
      (simp_all add: mk_orchestrator_def booted_def recover_on_disk_def disk_exists_def
        recover_state_directory_def fs_exists_def destroy_manifest_engine_def Let_def)
qed

text \<open>Booting a sack whose active folder is locked throws.\<close>

lemma boot_locked:
  assumes "unlocked d sack" "evolving (state_on_disk (d_fs d) sack)"
    and "\<not> may_search d (folder_of sack (state_on_disk (d_fs d) sack))"
  shows "boot_and_recover (d, mk_orchestrator sack) = Inl Filesystem_Error"
  using boot_eq [of d "mk_orchestrator sack"] unlockedD [OF assms(1)] assms(2,3)
  by (cases "state_on_disk (d_fs d) sack")
    (simp_all add: mk_orchestrator_def recover_on_disk_def disk_exists_def may_reach_snoc)

lemma state_after_transition:
  assumes "finished_fs log (folder_of sack (next_state k)) fs fs'" "k = state_on_disk fs sack" "evolving k"
    "log = folder_of sack k @ [f]"
  shows "state_on_disk fs' sack = next_state k"
  using assms by (cases k) (auto simp: finished_fs_def state_on_disk_def fs_exists_def split: if_splits)

lemma after_transition_simps [simp]:
  "sack_dir (after_transition ob) = sack_dir ob" "current_state (after_transition ob) = next_state (current_state ob)"
  "active_dir (after_transition ob) = folder_of (sack_dir ob) (next_state (current_state ob))"
  by (simp_all add: after_transition_def Let_def)

lemma engine_wf_new [simp]: "engine_wf dir (mk_manifest_engine dir)"
  by (simp add: engine_wf_def mk_manifest_engine_def)

lemma booted_simps [simp]: "sack_dir (booted sack k) = sack" "current_state (booted sack k) = k"
  by (simp_all add: booted_def)

lemma booted_active: "evolving k \<Longrightarrow> active_dir (booted sack k) = folder_of sack k"
  by (cases k) (simp_all add: booted_def)

lemma finalize_steps_cong:
  "active_dir a = active_dir b \<Longrightarrow> sack_dir a = sack_dir b \<Longrightarrow> finalize_steps a n = finalize_steps b n"
  by (simp add: finalize_steps_def cong: if_cong)

lemma wf_after_transition:
  assumes wf: "orchestrator_wf (d, ob)" "evolving (current_state ob)"
    and fin: "finished_fs (active_dir ob @ [''manifest.tx''])
      (folder_of (sack_dir ob) (next_state (current_state ob))) (d_fs d) (d_fs d')"
    and open_: "unlocked d' (sack_dir ob)" "unlocked d' (folder_of (sack_dir ob) (next_state (current_state ob)))"
  shows "orchestrator_wf (d', after_transition ob)"
proof -
  note W = orchestrator_wfD [OF wf(1)]
  let ?k = "current_state ob" and ?sack = "sack_dir ob"
  let ?new = "folder_of ?sack (next_state ?k)"
  have active: "active_dir ob = folder_of ?sack ?k" by (rule W(6) [OF wf(2)])
  have new: "fs_node (d_fs d) ?new = None"
    using evolving_folders(2) [of "d_fs d" ?sack] wf(2) W(3,5) by auto
  have nodes: "fs_node (d_fs d') q =
      (if q = active_dir ob @ [''manifest.tx''] then None else if q = ?new then Some Dir else fs_node (d_fs d) q)" for q
    using fin by (simp add: finished_fs_def)
  have 1: "fs_node (d_fs d') (?new @ [''manifest.tx'']) = None"
    using fs_wf_missing_below [OF W(1) new] by (simp add: nodes active)
  have 2: "fs_is_directory (d_fs d') ?sack"
    using W(2) wf(2) active by (auto simp: fs_is_directory_def nodes) (cases ?k; simp)
  have 3: "fs_node (d_fs d') (folder_of ?sack j) \<noteq> Some (File c)" for j c
    using W(3) [of j c] by (simp add: nodes)
  have 4: "state_on_disk (d_fs d') ?sack = next_state ?k"
    using state_after_transition [OF fin W(5) wf(2)] active by simp
  have 5: "fs_wf (d_fs d')" using fin by (simp add: finished_fs_def)
  show ?thesis
    unfolding orchestrator_wf_def prod.case by (simp add: 1 2 3 4 5 open_) (simp add: after_transition_def Let_def)
qed

section \<open>Properties\<close>

text \<open>C19: a transition of a well-formed sack succeeds and leaves a well-formed sack in the next state
  (the state detected on disk, the active folder and the engine agree again, and the new folder is
  not locked; a sack that is not evolving stays as it is); among the files and folders it removes
  the log of the finished folder, creates the next folder and changes nothing else, besides the
  mode of the finished folder.\<close>

theorem transition_keeps_sack_well_formed:
  assumes "orchestrator_wf (d, ob)"
  shows "\<exists>d' ob'. transition_to_next_state (d, ob) = Inr (d', ob') \<and> orchestrator_wf (d', ob') \<and>
    current_state ob' = next_state (current_state ob) \<and>
    (\<forall>q. fs_node (d_fs d') q =
      (if evolving (current_state ob) \<and> q = active_dir ob @ [''manifest.tx''] then None
       else if evolving (current_state ob) \<and> q = folder_of (sack_dir ob) (current_state ob') then Some Dir
       else fs_node (d_fs d) q))"
proof (cases "evolving (current_state ob)")
  case True
  obtain d' where d': "transition_to_next_state (d, ob) = Inr (d', after_transition ob)"
    "finished_fs (active_dir ob @ [''manifest.tx'']) (folder_of (sack_dir ob) (next_state (current_state ob))) (d_fs d) (d_fs d')"
    "unlocked d' (sack_dir ob)" "unlocked d' (folder_of (sack_dir ob) (next_state (current_state ob)))"
    by (rule transition_ok [OF assms True])
  then show ?thesis using wf_after_transition [OF assms True d'(2-4)] True
    by (intro exI [of _ d'] exI [of _ "after_transition ob"]) (simp add: finished_fs_def)
next
  case False
  then have "next_state (current_state ob) = current_state ob" by (cases "current_state ob") simp_all
  then show ?thesis using False transition_idle [of "(d, ob)"] assms by simp
qed

text \<open>C18: what a crash between the steps of a transition leaves behind.  Once the log is removed,
  booting a new orchestrator finds the old state, changes nothing on disk, and repeating the
  transition gives the same disk and the same orchestrator as the transition that was not
  interrupted; after the last step booting finds the next state.  The exception is a process
  without privilege that crashes after it locked the old folder and before it created the next
  one: its folder cannot be searched any more, and booting and repeating the transition both throw.\<close>

theorem interrupted_transition_is_restartable:
  assumes "orchestrator_wf (d, ob)" "evolving (current_state ob)" "0 < k" "k \<le> 3"
  shows "\<exists>dk. run_steps (take k (finalize_steps ob (folder_of (sack_dir ob) (next_state (current_state ob))))) d = Inr dk \<and>
    (if k = 2 \<and> \<not> d_privileged d
     then boot_and_recover (dk, mk_orchestrator (sack_dir ob)) = Inl Filesystem_Error \<and>
       transition_to_next_state (dk, booted (sack_dir ob) (current_state ob)) = Inl Filesystem_Error
     else boot_and_recover (dk, mk_orchestrator (sack_dir ob)) =
         Inr (dk, booted (sack_dir ob) (if k < 3 then current_state ob else next_state (current_state ob))) \<and>
       (if k < 3 then transition_to_next_state (dk, booted (sack_dir ob) (current_state ob))
        else Inr (dk, after_transition ob)) = transition_to_next_state (d, ob))"
proof -
  note W = orchestrator_wfD [OF assms(1)]
  let ?st = "current_state ob" and ?sack = "sack_dir ob"
  let ?next = "folder_of ?sack (next_state ?st)"
  let ?log = "active_dir ob @ [''manifest.tx'']"
  obtain r p c d1 d2 d3 where F: "finalize_steps ob ?next = [r, p, c]"
    "r d = Inr d1" "p d1 = Inr d2" "c d2 = Inr d3" "r d1 = Inr d1" "p d2 = Inr d2"
    "r d2 = (if d_privileged d then Inr d2 else Inl Filesystem_Error)"
    "\<forall>q. fs_node (d_fs d1) q = (if q = ?log then None else fs_node (d_fs d) q)"
    "d_fs d2 = d_fs d1" "finished_fs ?log ?next (d_fs d) (d_fs d3)"
    "unlocked d1 ?sack" "unlocked d2 ?sack" "unlocked d3 ?sack"
    "unlocked d1 (active_dir ob)" "unlocked d3 ?next" "may_search d2 (active_dir ob) = d_privileged d"
    by (rule finalize_steps_ok [OF assms(1,2)])
  have active: "active_dir ob = folder_of ?sack ?st" by (rule W(6) [OF assms(2)])
  obtain d' where d': "transition_to_next_state (d, ob) = Inr (d', after_transition ob)"
    "run_steps (finalize_steps ob ?next) d = Inr d'"
    using transition_ok [OF assms(1,2)] by blast
  then have tr: "transition_to_next_state (d, ob) = Inr (d3, after_transition ob)"
    by (simp add: run_steps_def F(1-4))
  let ?b = "booted ?sack ?st"
  have b: "finalize_steps ?b ?next = [r, p, c]" "after_transition ?b = after_transition ob"
    "current_state ?b = ?st" "sack_dir ?b = ?sack"
    using F(1) finalize_steps_cong [of ?b ob] active booted_active [OF assms(2)]
    by (simp_all add: after_transition_def Let_def booted_def)
  have gone: "fs_node (d_fs x) ?log = None" if "x = d1 \<or> x = d2 \<or> x = d3" for x
    using that F(8,9,10) by (auto simp: finished_fs_def)
  have again: "transition_to_next_state (x, ?b) = Inr (d3, after_transition ob)"
    if "x = d1 \<or> x = d2 \<and> d_privileged d" for x
  proof -
    have "run_steps (finalize_steps ?b ?next) x = Inr d3" using that b(1) F(3-7) by (auto simp: run_steps_def)
    moreover have "destroy_manifest_engine (the_manifest ?b) (d_fs d3) = d_fs d3"
      using assms(2) gone [of d3] active destroy_engine_idle [OF engine_wf_new]
      by (cases ?st) (simp_all add: booted_def)
    ultimately show ?thesis using transition_runs [of ?b x d3] b assms(2) by simp
  qed
  have stops: "transition_to_next_state (d2, ?b) = Inl Filesystem_Error" if "\<not> d_privileged d"
    using that b F(7) assms(2) transition_eq [of ?b d2] by (simp add: finalize_current_state_def run_steps_def)
  have apart: "?sack \<noteq> active_dir ob" using active assms(2) by (cases ?st) simp_all
  have ex: "fs_exists (d_fs x) (?sack @ [n]) = fs_exists (d_fs d) (?sack @ [n])" if "x = d1 \<or> x = d2" for x n
    using that F(8,9) apart by (auto simp: fs_exists_def)
  have same: "state_on_disk (d_fs x) ?sack = ?st" if "x = d1 \<or> x = d2" for x
    using ex [OF that] W(5) by (simp add: state_on_disk_def)
  have boot: "boot_and_recover (x, mk_orchestrator ?sack) = Inr (x, ?b)" if "x = d1 \<or> x = d2 \<and> d_privileged d" for x
    using boot_without_log [of x ?sack] same [of x] gone [of x] that active F(11,12,16) unlockedD [OF F(14)] by auto
  have locked: "boot_and_recover (d2, mk_orchestrator ?sack) = Inl Filesystem_Error" if "\<not> d_privileged d"
    using boot_locked [OF F(12)] same [of d2] that F(16) active assms(2) by simp
  have new: "fs_node (d_fs d) ?next = None" using evolving_folders(2) [of "d_fs d" ?sack] assms(2) W(3,5) by auto
  have st3: "state_on_disk (d_fs d3) ?sack = next_state ?st"
    using state_after_transition [OF F(10) W(5) assms(2)] active by simp
  have "fs_node (d_fs d3) (?next @ [''manifest.tx'']) = None"
    using F(10) fs_wf_missing_below [OF W(1) new] active assms(2) by (simp add: finished_fs_def)
  then have boot3: "boot_and_recover (d3, mk_orchestrator ?sack) = Inr (d3, booted ?sack (next_state ?st))"
    using boot_without_log [OF F(13)] st3 unlockedD [OF F(15)] by simp
  consider "k = 1" | "k = 2" | "k = 3" using assms(3,4) by linarith
  then show ?thesis
    by cases (simp_all add: run_steps_def F(1-4) boot again tr boot3 locked stops numeral_2_eq_2 numeral_3_eq_3)
qed

section \<open>A sack that is being filled\<close>

definition demo_sack :: disk where
  "demo_sack = \<lparr>d_fs = [([''d''], Dir), ([''d'', ''FillingSack''], Dir),
     ([''d'', ''FillingSack'', ''raw_hashes.dat''], File [1, 2]),
     ([''d'', ''FillingSack'', ''manifest.tx''], File [])], d_modes = [], d_privileged = False\<rparr>"

lemma demo_sack_wf: "orchestrator_wf (demo_sack, booted [''d''] Filling)"
proof -
  have "fs_node (d_fs demo_sack) (folder_of [''d''] k) \<noteq> Some (File c)" for k c
    by (cases k) (simp_all add: demo_sack_def fs_node_def filling_folder_def sprinkling_folder_def product_folder_def)
  moreover have "state_on_disk (d_fs demo_sack) [''d''] = Filling"
    by (simp add: demo_sack_def state_on_disk_def fs_exists_def fs_node_def filling_folder_def
        sprinkling_folder_def product_folder_def)
  moreover have "unlocked demo_sack p" for p
    by (simp add: unlocked_def may_reach_def may_search_def may_write_def mode_of_def demo_sack_def)
  ultimately show ?thesis
    by (simp add: orchestrator_wf_def booted_def)
       (simp add: demo_sack_def fs_node_def fs_wf_def fs_is_directory_def filling_folder_def)
qed

theorem transition_keeps_sack_well_formed_witness:
  "\<exists>d' ob'. transition_to_next_state (demo_sack, booted [''d''] Filling) = Inr (d', ob') \<and>
    orchestrator_wf (d', ob') \<and> current_state ob' = Sprinkling"
  using transition_keeps_sack_well_formed [OF demo_sack_wf] by auto

theorem interrupted_transition_is_restartable_witness:
  "(\<exists>d1. run_steps (take 1 (finalize_steps (booted [''d''] Filling) [''d'', ''SprinklingSack''])) demo_sack = Inr d1 \<and>
    boot_and_recover (d1, mk_orchestrator [''d'']) = Inr (d1, booted [''d''] Filling) \<and>
    transition_to_next_state (d1, booted [''d''] Filling) =
      transition_to_next_state (demo_sack, booted [''d''] Filling)) \<and>
   (\<exists>d2. run_steps (take 2 (finalize_steps (booted [''d''] Filling) [''d'', ''SprinklingSack''])) demo_sack = Inr d2 \<and>
    boot_and_recover (d2, mk_orchestrator [''d'']) = Inl Filesystem_Error)"
  using interrupted_transition_is_restartable [OF demo_sack_wf, of 1]
    interrupted_transition_is_restartable [OF demo_sack_wf, of 2]
  by (simp add: sprinkling_folder_def) (auto simp: demo_sack_def)

text \<open>
  Nothing in the orchestrator creates the first state folder: a sack in the state \<open>Origin\<close>
  stays there, however often it is booted and told to go on.
\<close>

lemma origin_never_evolves:
  assumes "state_on_disk (d_fs d) (sack_dir ob) = Origin" "unlocked d (sack_dir ob)"
  shows "boot_and_recover (d, ob) = Inr (d, ob\<lparr>current_state := Origin, active_dir := sack_dir ob\<rparr>)"
    "transition_to_next_state (d, ob\<lparr>current_state := Origin, active_dir := sack_dir ob\<rparr>) =
      Inr (d, ob\<lparr>current_state := Origin, active_dir := sack_dir ob\<rparr>)"
  using boot_eq [of d ob] assms(1) unlockedD [OF assms(2)] by (simp_all add: transition_to_next_state_def)

text \<open>
  Booting after a crash: the sack is found in the state it was in, and the files of the last
  committed slice have the content of the commit.
\<close>

lemma boot_restores_commit:
  assumes unlocked: "unlocked \<lparr>d_fs = fs2, d_modes = m, d_privileged = pr\<rparr> sack"
      "unlocked \<lparr>d_fs = fs2, d_modes = m, d_privileged = pr\<rparr> dir"
    and state: "evolving (state_on_disk fs2 sack)" "dir = folder_of sack (state_on_disk fs2 sack)"
    and log: "log_holds (fs, me) (whole_log recs)" "\<forall>r \<in> set recs. record_wf r"
      "me_manifest_path me = dir @ [''manifest.tx'']"
    and slice: "distinct (map fst (sc_open_files sc))"
      "list_all2 (slice_file_ok dir fs) (sc_open_files sc) cs" "\<forall>c \<in> set cs. length c < 2 ^ 64"
    and destroyed: "destroy_slice_context app_pos (fs, me) sc = (fs1, me1)"
      "fs_node fs1 (dir @ [''manifest.tx'']) = Some (File L)"
    and crash_log: "fs_node fs2 (dir @ [''manifest.tx'']) = Some (File (L @ take j (whole_log (ds @ [Commit i]))))"
      "\<forall>r \<in> set ds. \<not> is_commit r \<and> record_wf r" "j < length (whole_log ds) + 5"
    and crash_data: "list_all2 (\<lambda>f c. \<exists>rest. fs_node fs2 (dir @ [fst f]) = Some (File (c @ rest))) (sc_open_files sc) cs"
      "\<forall>f. fs_node fs2 (dir @ [f]) \<noteq> Some Dir"
  shows "\<exists>fs3. boot_and_recover (\<lparr>d_fs = fs2, d_modes = m, d_privileged = pr\<rparr>, mk_orchestrator sack) =
      Inr (\<lparr>d_fs = fs3, d_modes = m, d_privileged = pr\<rparr>, booted sack (state_on_disk fs2 sack)) \<and>
    list_all2 (\<lambda>f c. fs_node fs3 (dir @ [fst f]) = Some (File c)) (sc_open_files sc) cs"
proof -
  obtain fs3 where fs3: "recover_state_directory fs2 dir = Inr fs3"
    "list_all2 (\<lambda>f c. fs_node fs3 (dir @ [fst f]) = Some (File c)) (sc_open_files sc) cs"
    using recovery_after_commit [OF log slice destroyed crash_log crash_data] by blast
  have "boot_and_recover (\<lparr>d_fs = fs2, d_modes = m, d_privileged = pr\<rparr>, mk_orchestrator sack) =
      Inr (\<lparr>d_fs = fs3, d_modes = m, d_privileged = pr\<rparr>, booted sack (state_on_disk fs2 sack))"
    using boot_eq [of "\<lparr>d_fs = fs2, d_modes = m, d_privileged = pr\<rparr>" "mk_orchestrator sack"] state fs3(1)
      unlockedD [OF unlocked(1)] unlocked_reach [OF unlocked(2)]
    by (cases "state_on_disk fs2 sack")
      (simp_all add: recover_on_disk_def disk_exists_def mk_orchestrator_def booted_def destroy_manifest_engine_def Let_def)
  with fs3(2) show ?thesis by blast
qed

end
