(* ===== verification/Tier_Folder.thy ===== *)
theory Tier_Folder
  imports Object_Folders
begin

text \<open>
  The generic tier of \<^verbatim>\<open>libs/evolving_disk_state/include/evolving_disk_state/tier_folder.hpp\<close> and
  the folder names of the older \<^verbatim>\<open>tier.hpp\<close>.  A tier is rebuilt from the object folders on disk:
  the newest becomes the hatchling, the older ones fill the buffer room.  How an object is
  hydrated from its folder is a virtual function of the tier: an argument here, which is given
  the name of the folder and may change the file system.
\<close>

record 'e generic_tier =
  gt_fanout_bit_count :: int
  gt_fanout :: nat
  gt_hatchling :: 'e
  gt_buffer_room :: "'e list"

text \<open>
  The shift is undefined for a count outside the width of \<open>int\<close>; for 31 it is negative and too
  large a size for the vector.
\<close>

definition fanout_of :: "int \<Rightarrow> nat res" where
  "fanout_of fanout_bit_count =
     (if fanout_bit_count < 0 \<or> 32 \<le> fanout_bit_count then Inl Undefined
      else if fanout_bit_count = 31 then Inl (Logic_Error ''vector::reserve'')
      else Inr (2 ^ nat fanout_bit_count))"

definition offsets_or_first :: "nat \<Rightarrow> fs \<Rightarrow> path \<Rightarrow> (fs \<times> u64 list) res" where
  "offsets_or_first fanout fs p =
     (let first_folder = (\<lambda>fs. rbind (fs_create_directories fs (p @ [object_folder_name 0])) (\<lambda>fs1. Inr (fs1, [0])))
      in if fs_exists fs p
         then if fs_is_directory fs p
              then let offsets = object_folder_offsets fs p in
                   if offsets = [] then first_folder fs
                   else if length offsets > fanout + 1
                   then Inl (Runtime_Error ''TierFolder path contains too many object folders'')
                   else Inr (fs, offsets)
              else Inl (Runtime_Error ''TierFolder path is not a directory'')
         else first_folder fs)"

definition hydrate_into_room ::
    "(path \<Rightarrow> fs \<Rightarrow> ('e \<times> fs) res) \<Rightarrow> 'e list \<times> fs \<Rightarrow> u64 \<Rightarrow> ('e list \<times> fs) res" where
  "hydrate_into_room hydrate s offset =
     (case s of (room, fs) \<Rightarrow>
      rbind (hydrate [object_folder_name offset] fs) (\<lambda>(e, fs1). Inr (room @ [e], fs1)))"

definition mk_generic_tier ::
    "(path \<Rightarrow> fs \<Rightarrow> ('e \<times> fs) res) \<Rightarrow> fs \<Rightarrow> path \<Rightarrow> int \<Rightarrow> ('e generic_tier \<times> fs) res" where
  "mk_generic_tier hydrate fs p fanout_bit_count =
     rbind (fanout_of fanout_bit_count) (\<lambda>fanout.
     rbind (offsets_or_first fanout fs p) (\<lambda>(fs1, offsets).
     rbind (hydrate [object_folder_name (last offsets)] fs1) (\<lambda>(hatchling, fs2).
     rbind (rfold (hydrate_into_room hydrate) ([], fs2) (butlast offsets)) (\<lambda>(room, fs3).
     Inr (\<lparr>gt_fanout_bit_count = fanout_bit_count, gt_fanout = fanout,
            gt_hatchling = hatchling, gt_buffer_room = room\<rparr>, fs3)))))"

section \<open>The older tier\<close>

record old_tier =
  ot_base_path :: path
  ot_tier_index :: u64

definition evolver_folder_name :: "u64 \<Rightarrow> string" where
  "evolver_folder_name start_offset = ''Offset_'' @ to_string (unat start_offset)"

definition old_tier_path :: "old_tier \<Rightarrow> path" where
  "old_tier_path t = ot_base_path t @ [''Tier'' @ to_string (unat (ot_tier_index t))]"

definition mk_old_tier :: "fs \<Rightarrow> path \<Rightarrow> u64 \<Rightarrow> (old_tier \<times> fs) res" where
  "mk_old_tier fs base_path tier_index =
     (let t = \<lparr>ot_base_path = base_path, ot_tier_index = tier_index\<rparr>
      in rbind (fs_create_directory fs (old_tier_path t)) (\<lambda>fs1. Inr (t, fs1)))"

definition create_untyped_evolver_folder :: "fs \<Rightarrow> old_tier \<Rightarrow> u64 \<Rightarrow> fs res" where
  "create_untyped_evolver_folder fs t start_offset =
     fs_create_directory fs (old_tier_path t @ [evolver_folder_name start_offset])"

section \<open>What a tier holds after its construction\<close>

text \<open>An evolver folder of the older tier is an object folder of the new one.\<close>

lemma evolver_folder_is_object_folder: "evolver_folder_name w = object_folder_name w"
  by (simp add: evolver_folder_name_def object_folder_name_def object_folder_prefix_def)

lemma old_folder_found:
  assumes "fs_wf fs" "create_untyped_evolver_folder fs t w = Inr fs'" "unat w < 2 ^ 31"
  shows "w \<in> set (object_folder_offsets fs' (old_tier_path t))"
proof -
  let ?p = "old_tier_path t @ [object_folder_name w]"
  have m: "fs_mkdir fs ?p = Inr fs'" and d: "fs_is_directory fs (old_tier_path t)"
    using assms(2) by (simp_all add: create_untyped_evolver_folder_def fs_create_directory_def
        evolver_folder_is_object_folder split: if_splits)
  have wf: "fs_wf fs'" and dir: "fs_is_directory fs' ?p" and tier: "fs_is_directory fs' (old_tier_path t)"
    using fs_mkdir_spec [OF m] assms(1) d by (auto simp: fs_is_directory_def)
  then have "?p \<in> set (fs_subdirectories fs' (old_tier_path t))"
    by (simp add: fs_subdirectories_iff)
  moreover have "folder_offset_value (filename ?p) = [w]"
    using assms(3) by (simp add: filename_def folder_offset_value_name)
  ultimately have "w \<in> set (concat (map (folder_offset_value \<circ> filename) (fs_subdirectories fs' (old_tier_path t))))"
    by (force simp: image_iff)
  then show ?thesis using tier
    by (simp add: object_folder_offsets_def fs_exists_def fs_is_directory_def del: set_concat set_map)
qed

text \<open>
  With a hydrator that only reads, and names every object it can read, the tier holds exactly
  the objects on disk, the newest as hatchling and the older ones in ascending order.
\<close>

lemma hydrate_all:
  assumes "\<And>w. w \<in> set ws \<Longrightarrow> hydrate [object_folder_name w] fs = Inr (obj w, fs)"
  shows "rfold (hydrate_into_room hydrate) (room, fs) ws = Inr (room @ map obj ws, fs)"
  using assms by (induction ws arbitrary: room) (auto simp: hydrate_into_room_def res_simps)

lemma generic_tier_holds_objects:
  assumes "fs_is_directory fs p" "0 \<le> bits" "bits < 31"
    and offsets: "object_folder_offsets fs p = ws" "ws \<noteq> []" "length ws \<le> 2 ^ nat bits + 1"
    and hydrate: "\<And>w. w \<in> set ws \<Longrightarrow> hydrate [object_folder_name w] fs = Inr (obj w, fs)"
  shows "\<exists>t. mk_generic_tier hydrate fs p bits = Inr (t, fs) \<and> sorted ws \<and>
    gt_buffer_room t @ [gt_hatchling t] = map obj ws \<and> length (gt_buffer_room t) \<le> gt_fanout t"
proof -
  have "rfold (hydrate_into_room hydrate) ([], fs) (butlast ws) = Inr (map obj (butlast ws), fs)"
    using hydrate_all [of "butlast ws" hydrate fs obj "[]"] hydrate by (auto dest: in_set_butlastD)
  moreover have "offsets_or_first (2 ^ nat bits) fs p = Inr (fs, ws)"
    using assms(1) offsets by (simp add: offsets_or_first_def fs_exists_def fs_is_directory_def Let_def)
  moreover have "hydrate [object_folder_name (last ws)] fs = Inr (obj (last ws), fs)"
    using hydrate offsets(2) by simp
  moreover have "map obj (butlast ws) @ [obj (last ws)] = map obj ws"
    using offsets(2) by (metis append_butlast_last_id list.simps(8,9) map_append)
  moreover have "sorted ws" using offsets(1,2) by (auto simp: object_folder_offsets_def split: if_splits)
  ultimately show ?thesis
    using assms(2,3) offsets(3) by (simp add: mk_generic_tier_def fanout_of_def)
qed

lemma generic_tier_too_many:
  assumes "fs_is_directory fs p" "0 \<le> bits" "bits < 31" "2 ^ nat bits + 1 < length (object_folder_offsets fs p)"
  shows "mk_generic_tier hydrate fs p bits =
    Inl (Runtime_Error ''TierFolder path contains too many object folders'')"
  using assms by (auto simp: mk_generic_tier_def fanout_of_def offsets_or_first_def fs_exists_def fs_is_directory_def Let_def)

end
