(* ===== verification/Older_Store.thy ===== *)
theory Older_Store
  imports Tier_Folder Lookup
begin

text \<open>
  The store before the ingester: \<^verbatim>\<open>apps/wedding_cake/include/store.hpp\<close>, \<^verbatim>\<open>tiers.hpp\<close> and
  \<^verbatim>\<open>evolving_type_states.hpp\<close>.  A store has one tier, whose active evolver is a \<^emph>\<open>sack\<close>: a vector of
  optional hashes of fixed capacity with a map for reverse lookups.  The code names a type
  \<open>PiOffset\<close> and the base class \<open>EvolverOrigin\<close> that the repository no longer declares; what the
  code uses of them is the record \<open>retired\<close> of functions, an argument of the definitions.
\<close>

section \<open>What is no longer declared\<close>

record ('o, 'b) retired =
  pi_offset :: "u64 \<Rightarrow> 'o"
  pi_offset_int :: "'o \<Rightarrow> u64"
  gpi_minus_offset :: "global_pi \<Rightarrow> 'o \<Rightarrow> local_pi"
  lpi_plus_offset :: "local_pi \<Rightarrow> 'o \<Rightarrow> global_pi"
  evolver_origin :: "fs \<Rightarrow> old_tier \<Rightarrow> u64 \<Rightarrow> string \<Rightarrow> (fs \<times> 'b) res"
  evolver_start_offset :: "'b \<Rightarrow> u64"
  evolver_object_path :: "'b \<Rightarrow> path"

text \<open>
  What is documented of them: a \<open>PiOffset\<close> is the starting \<open>GlobalPi\<close> of a store
  (\<^verbatim>\<open>docs/ARCHITECTURE.md\<close>), with the arithmetic of \<^verbatim>\<open>types.hpp\<close>.  Of the base class, what
  \<^verbatim>\<open>tests/test_create_empty.cpp\<close> needs to pass: in an existing tier folder without a folder for offset
  0, the base of a sack for offset 0 can be made, it has that offset and, as object path, the folder
  of its state below the folder of the offset; the folders that exist stay, and no file comes to
  stand on that path.  Nothing is said of a tier folder in which the offset has a folder already.
\<close>

definition documented_offsets :: "('o, 'b) retired \<Rightarrow> bool" where
  "documented_offsets P \<longleftrightarrow>
     (\<forall>w. pi_offset_int P (pi_offset P w) = w)
   \<and> (\<forall>g w. gpi_minus_offset P g (pi_offset P w) = gpi_minus_gpi g (GlobalPi w))
   \<and> (\<forall>l w. lpi_plus_offset P l (pi_offset P w) = lpi_plus_gpi l (GlobalPi w))"

definition Sack_TAG :: string where
  "Sack_TAG = ''ST00_Sack''"

definition documented_origin :: "('o, 'b) retired \<Rightarrow> bool" where
  "documented_origin P \<longleftrightarrow> (\<forall>fs t. fs_wf fs \<longrightarrow> fs_is_directory fs (old_tier_path t) \<longrightarrow>
     fs_node fs (old_tier_path t @ [evolver_folder_name 0]) = None \<longrightarrow>
     (\<exists>fs' b. evolver_origin P fs t 0 Sack_TAG = Inr (fs', b) \<and> fs_wf fs' \<and> evolver_start_offset P b = 0
       \<and> evolver_object_path P b = old_tier_path t @ [evolver_folder_name 0, Sack_TAG]
       \<and> (\<forall>q. fs_is_directory fs q \<longrightarrow> fs_is_directory fs' q)
       \<and> (\<forall>q c. prefix q (evolver_object_path P b) \<longrightarrow> fs_node fs' q \<noteq> Some (File c))))"

section \<open>The sack\<close>

record 'b sack =
  sack_base :: 'b
  sack_hashes :: "hash option list"
  sack_capacity :: nat
  sack_hash_to_local_pi :: "hash \<rightharpoonup> local_pi"

definition SealedSack_TAG :: string where
  "SealedSack_TAG = ''ST01_SealedSack''"

text \<open>\<open>reserve\<close> on an empty vector is an argument: the standard promises at least the given capacity.\<close>

definition mk_sack_new ::
    "('o, 'b) retired \<Rightarrow> (nat \<Rightarrow> nat) \<Rightarrow> fs \<Rightarrow> old_tier \<Rightarrow> 'o \<Rightarrow> nat \<Rightarrow> (fs \<times> 'b sack) res" where
  "mk_sack_new P reserve fs parent_tier start_offset capacity =
     rbind (evolver_origin P fs parent_tier (pi_offset_int P start_offset) Sack_TAG) (\<lambda>(fs1, base).
     rbind (fs_create_directories fs1 (evolver_object_path P base)) (\<lambda>fs2.
     Inr (fs2, \<lparr>sack_base = base, sack_hashes = [], sack_capacity = reserve capacity,
                sack_hash_to_local_pi = Map.empty\<rparr>)))"

definition mk_sack_load :: "('o, 'b) retired \<Rightarrow> fs \<Rightarrow> old_tier \<Rightarrow> u64 \<Rightarrow> (fs \<times> 'b sack) res" where
  "mk_sack_load P fs parent_tier start_offset =
     rbind (evolver_origin P fs parent_tier start_offset Sack_TAG) (\<lambda>_.
     Inl (Runtime_Error ''Sack::Sack(LoadExistingFromDisk, ...): Not yet implemented''))"

text \<open>The result says whether the sack is full now.\<close>

definition sack_insert_hash :: "hash \<Rightarrow> 'b sack \<Rightarrow> (bool \<times> 'b sack) res" where
  "sack_insert_hash h s =
     (if length (sack_hashes s) = sack_capacity s
      then Inl (Assert_Failed ''Sack::insert_hash(): Sack was already full'')
      else let localPi = LocalPi (of_nat (length (sack_hashes s)));
               s' = s\<lparr>sack_hashes := sack_hashes s @ [Some h],
                      sack_hash_to_local_pi := (sack_hash_to_local_pi s)(h \<mapsto> localPi)\<rparr>
           in Inr (length (sack_hashes s') = sack_capacity s', s'))"

definition sack_insert_gap :: "'b sack \<Rightarrow> (bool \<times> 'b sack) res" where
  "sack_insert_gap s =
     (if length (sack_hashes s) = sack_capacity s
      then Inl (Assert_Failed ''Sack::insert_gap(): Sack was already full'')
      else let s' = s\<lparr>sack_hashes := sack_hashes s @ [None]\<rparr>
           in Inr (length (sack_hashes s') = sack_capacity s', s'))"

definition sack_count :: "'b sack \<Rightarrow> u64" where
  "sack_count s = of_nat (length (sack_hashes s))"

definition sack_offset :: "('o, 'b) retired \<Rightarrow> 'b sack \<Rightarrow> 'o" where
  "sack_offset P s = pi_offset P (evolver_start_offset P (sack_base s))"

definition sack_forward_lookup :: "('o, 'b) retired \<Rightarrow> 'b sack \<Rightarrow> global_pi \<Rightarrow> hash option res" where
  "sack_forward_lookup P s gpi =
     (let local_pi_int = lpi_int (gpi_minus_offset P gpi (sack_offset P s)) in
      if \<not> length (sack_hashes s) > unat local_pi_int
      then Inl (Assert_Failed ''Out of bounds hashes_ vector access'')
      else read_at (sack_hashes s) (unat local_pi_int))"

definition sack_reverse_lookup_candidate :: "('o, 'b) retired \<Rightarrow> 'b sack \<Rightarrow> hash \<Rightarrow> global_pi" where
  "sack_reverse_lookup_candidate P s h =
     (case sack_hash_to_local_pi s h of
        Some l \<Rightarrow> lpi_plus_offset P l (sack_offset P s)
      | None \<Rightarrow> GLOBAL_PI_NO_MATCH)"

section \<open>The tier\<close>

record 'b tier0 =
  t0_tier :: old_tier
  t0_sack_size :: nat
  t0_active_evolver :: "'b sack"

definition mk_tier_base :: "fs \<Rightarrow> path \<Rightarrow> u64 \<Rightarrow> (old_tier \<times> fs) res" where
  "mk_tier_base fs base_path start_offset = mk_old_tier fs base_path start_offset"

definition mk_tier0_new ::
    "('o, 'b) retired \<Rightarrow> (nat \<Rightarrow> nat) \<Rightarrow> fs \<Rightarrow> path \<Rightarrow> nat \<Rightarrow> (fs \<times> 'b tier0) res" where
  "mk_tier0_new P reserve fs base_path sack_size =
     rbind (mk_tier_base fs base_path 0) (\<lambda>(t, fs1).
     rbind (mk_sack_new P reserve fs1 t (pi_offset P 0) sack_size) (\<lambda>(fs2, s).
     Inr (fs2, \<lparr>t0_tier = t, t0_sack_size = sack_size, t0_active_evolver = s\<rparr>)))"

definition mk_tier0_load :: "fs \<Rightarrow> path \<Rightarrow> nat \<Rightarrow> (fs \<times> 'b tier0) res" where
  "mk_tier0_load fs base_path sack_size =
     rbind (mk_tier_base fs base_path 0) (\<lambda>_. Inl (Runtime_Error ''Tier0::LoadFromDisk not implemented''))"

definition tier0_insert_hash :: "hash \<Rightarrow> 'b tier0 \<Rightarrow> 'b tier0 res" where
  "tier0_insert_hash h t =
     rbind (sack_insert_hash h (t0_active_evolver t)) (\<lambda>(_, s). Inr (t\<lparr>t0_active_evolver := s\<rparr>))"

definition tier0_count :: "'b tier0 \<Rightarrow> u64" where
  "tier0_count t = sack_count (t0_active_evolver t)"

definition tier0_offset :: "('o, 'b) retired \<Rightarrow> 'b tier0 \<Rightarrow> 'o" where
  "tier0_offset P t = sack_offset P (t0_active_evolver t)"

definition tier0_forward_lookup :: "('o, 'b) retired \<Rightarrow> 'b tier0 \<Rightarrow> global_pi \<Rightarrow> hash option res" where
  "tier0_forward_lookup P t gpi = sack_forward_lookup P (t0_active_evolver t) gpi"

definition tier0_reverse_lookup_candidate :: "('o, 'b) retired \<Rightarrow> 'b tier0 \<Rightarrow> hash \<Rightarrow> global_pi" where
  "tier0_reverse_lookup_candidate P t h = sack_reverse_lookup_candidate P (t0_active_evolver t) h"

definition new_origin_evolver ::
    "('o, 'b) retired \<Rightarrow> (nat \<Rightarrow> nat) \<Rightarrow> fs \<Rightarrow> 'b tier0 \<Rightarrow> u64 \<Rightarrow> (fs \<times> 'b sack) res" where
  "new_origin_evolver P reserve fs t start_offset =
     mk_sack_new P reserve fs (t0_tier t) (pi_offset P start_offset) (t0_sack_size t)"

section \<open>The store\<close>

definition SackSize :: nat where
  "SackSize = 65535"

record 'b old_store =
  old_base_path :: path
  old_tier0 :: "'b tier0"
  old_other_tiers_counts_total :: u64

text \<open>
  The constructor asks whether \<open>base_path\<close> exists after it moved the path out of that very
  argument; the standard leaves the value of a moved-from path open, so the answer is an argument.
\<close>

definition mk_old_store ::
    "('o, 'b) retired \<Rightarrow> (nat \<Rightarrow> nat) \<Rightarrow> (fs \<Rightarrow> bool) \<Rightarrow> fs \<Rightarrow> path \<Rightarrow> (fs \<times> 'b old_store) res" where
  "mk_old_store P reserve moved_from_exists fs base_path =
     (if moved_from_exists fs
      then Inl (Runtime_Error ''Store already exists. Manually delete the folder and try again'')
      else rbind (fs_create_directory fs base_path) (\<lambda>fs1.
           rbind (mk_tier0_new P reserve fs1 base_path SackSize) (\<lambda>(fs2, t).
           Inr (fs2, \<lparr>old_base_path = base_path, old_tier0 = t, old_other_tiers_counts_total = 0\<rparr>))))"

definition old_store_insert_hash :: "hash \<Rightarrow> 'b old_store \<Rightarrow> 'b old_store res" where
  "old_store_insert_hash h st =
     rbind (tier0_insert_hash h (old_tier0 st)) (\<lambda>t. Inr (st\<lparr>old_tier0 := t\<rparr>))"

definition old_store_offset :: "('o, 'b) retired \<Rightarrow> 'o" where
  "old_store_offset P = pi_offset P 0"

definition old_store_count :: "'b old_store \<Rightarrow> u64" where
  "old_store_count st = tier0_count (old_tier0 st) + old_other_tiers_counts_total st"

definition old_store_forward_lookup :: "('o, 'b) retired \<Rightarrow> 'b old_store \<Rightarrow> global_pi \<Rightarrow> hash option res" where
  "old_store_forward_lookup P st gpi = tier0_forward_lookup P (old_tier0 st) gpi"

definition old_store_reverse_lookup_candidate :: "('o, 'b) retired \<Rightarrow> 'b old_store \<Rightarrow> hash \<Rightarrow> global_pi" where
  "old_store_reverse_lookup_candidate P st h = tier0_reverse_lookup_candidate P (old_tier0 st) h"

section \<open>Lookups in a sack\<close>

text \<open>The map of a sack leads every hash in it to its latest position.\<close>

definition sack_ok :: "'b sack \<Rightarrow> bool" where
  "sack_ok s \<longleftrightarrow> length (sack_hashes s) \<le> sack_capacity s
   \<and> (\<forall>h. sack_hash_to_local_pi s h = None \<longleftrightarrow> Some h \<notin> set (sack_hashes s))
   \<and> (\<forall>h i. i < length (sack_hashes s) \<longrightarrow> sack_hashes s ! i = Some h \<longrightarrow>
        Some h \<notin> set (drop (Suc i) (sack_hashes s)) \<longrightarrow> sack_hash_to_local_pi s h = Some (LocalPi (of_nat i)))"

lemma sack_insert_hash_ok:
  assumes "sack_ok s" "length (sack_hashes s) < sack_capacity s"
  obtains s' where "sack_insert_hash h s = Inr (length (sack_hashes s) + 1 = sack_capacity s, s')" "sack_ok s'"
    "sack_hashes s' = sack_hashes s @ [Some h]" "sack_base s' = sack_base s" "sack_capacity s' = sack_capacity s"
proof
  let ?s = "s\<lparr>sack_hashes := sack_hashes s @ [Some h],
      sack_hash_to_local_pi := (sack_hash_to_local_pi s)(h \<mapsto> LocalPi (of_nat (length (sack_hashes s))))\<rparr>"
  show "sack_insert_hash h s = Inr (length (sack_hashes s) + 1 = sack_capacity s, ?s)"
    using assms(2) by (simp add: sack_insert_hash_def Let_def)
  show "sack_ok ?s"
    using assms by (auto simp: sack_ok_def nth_append less_Suc_eq)
qed simp_all

lemma sack_insert_gap_ok:
  assumes "sack_ok s" "length (sack_hashes s) < sack_capacity s"
  obtains s' where "sack_insert_gap s = Inr (length (sack_hashes s) + 1 = sack_capacity s, s')" "sack_ok s'"
    "sack_hashes s' = sack_hashes s @ [None]" "sack_base s' = sack_base s" "sack_capacity s' = sack_capacity s"
proof
  let ?s = "s\<lparr>sack_hashes := sack_hashes s @ [None]\<rparr>"
  show "sack_insert_gap s = Inr (length (sack_hashes s) + 1 = sack_capacity s, ?s)"
    using assms(2) by (simp add: sack_insert_gap_def Let_def)
  show "sack_ok ?s"
    using assms by (auto simp: sack_ok_def nth_append less_Suc_eq)
qed simp_all

lemma sack_lookups:
  assumes P: "documented_offsets P" and ok: "sack_ok s" and base: "evolver_start_offset P (sack_base s) = w"
    and fits: "unat w + length (sack_hashes s) < 2 ^ 64 - 1"
  shows "i < length (sack_hashes s) \<Longrightarrow> sack_forward_lookup P s (gpi_at (GlobalPi w) i) = Inr (sack_hashes s ! i)"
    and "sack_reverse_lookup_candidate P s h = GLOBAL_PI_NO_MATCH \<longleftrightarrow> Some h \<notin> set (sack_hashes s)"
    and "i < length (sack_hashes s) \<Longrightarrow> sack_hashes s ! i = Some h \<Longrightarrow> Some h \<notin> set (drop (Suc i) (sack_hashes s)) \<Longrightarrow>
      sack_reverse_lookup_candidate P s h = gpi_at (GlobalPi w) i"
proof -
  have off: "sack_offset P s = pi_offset P w" by (simp add: sack_offset_def base)
  have latest: "\<exists>i < length (sack_hashes s). sack_hashes s ! i = Some h \<and> Some h \<notin> set (drop (Suc i) (sack_hashes s))"
    if h: "Some h \<in> set (sack_hashes s)" for h
  proof -
    obtain ys zs where "sack_hashes s = ys @ Some h # zs" "Some h \<notin> set zs" using split_list_last [OF h] by blast
    then show ?thesis by (intro exI [of _ "length ys"]) (simp add: nth_append)
  qed
  show at: "sack_reverse_lookup_candidate P s h = gpi_at (GlobalPi w) i"
    if "i < length (sack_hashes s)" "sack_hashes s ! i = Some h" "Some h \<notin> set (drop (Suc i) (sack_hashes s))" for i h
    using that ok P fits lpi_plus_gpi_at [of "GlobalPi w" i]
    by (simp add: sack_reverse_lookup_candidate_def sack_ok_def off documented_offsets_def)
  show "sack_reverse_lookup_candidate P s h = GLOBAL_PI_NO_MATCH \<longleftrightarrow> Some h \<notin> set (sack_hashes s)"
  proof (cases "Some h \<in> set (sack_hashes s)")
    case True
    then obtain i where i: "i < length (sack_hashes s)" "sack_hashes s ! i = Some h" "Some h \<notin> set (drop (Suc i) (sack_hashes s))"
      using latest by blast
    have "gpi_at (GlobalPi w) i \<noteq> GLOBAL_PI_NO_MATCH" using fits i(1) by (intro gpi_at_not_no_match) simp
    with at [OF i] True show ?thesis by simp
  next
    case False
    then have "sack_hash_to_local_pi s h = None" using ok by (simp add: sack_ok_def)
    with False show ?thesis by (simp add: sack_reverse_lookup_candidate_def)
  qed
  show "sack_forward_lookup P s (gpi_at (GlobalPi w) i) = Inr (sack_hashes s ! i)" if i: "i < length (sack_hashes s)"
  proof -
    have "gpi_minus_gpi (gpi_at (GlobalPi w) i) (GlobalPi w) = LocalPi (of_nat i)"
      using gpi_minus_gpi_of_nat [of "GlobalPi w" "unat w + i"] fits i by (simp add: gpi_at_def)
    moreover have "unat (of_nat i :: u64) = i" using fits i by (subst unat_of_nat) simp
    ultimately show ?thesis
      using P i by (simp add: sack_forward_lookup_def off documented_offsets_def read_at_def Let_def)
  qed
qed

section \<open>The store as a whole\<close>

definition sack_path :: "path \<Rightarrow> path" where
  "sack_path base = base @ [''Tier0'', ''Offset_0'', ''ST00_Sack'']"

lemma to_string_0: "to_string 0 = ''0''"
  by (simp add: to_string.simps [of 0] digit_char_def char_of_def bit_0)

lemma first_folders:
  "old_tier_path \<lparr>ot_base_path = base, ot_tier_index = 0\<rparr> = base @ [''Tier0'']"
  "evolver_folder_name 0 = ''Offset_0''"
  by (simp_all add: old_tier_path_def evolver_folder_name_def to_string_0)

text \<open>A store is made at a path that does not exist, in a folder that does.\<close>

lemma mk_old_store_ok:
  assumes P: "documented_offsets P" "documented_origin P" and reserve: "SackSize \<le> reserve SackSize"
    and moved: "\<not> moved_from_exists fs"
    and fs: "fs_wf fs" "fs_is_directory fs (butlast base)"
    and new: "fs_node fs base = None"
  obtains fs' st where "mk_old_store P reserve moved_from_exists fs base = Inr (fs', st)"
    "fs_is_directory fs' (sack_path base)" "sack_ok (t0_active_evolver (old_tier0 st))"
    "sack_hashes (t0_active_evolver (old_tier0 st)) = []"
    "sack_capacity (t0_active_evolver (old_tier0 st)) = reserve SackSize"
    "evolver_start_offset P (sack_base (t0_active_evolver (old_tier0 st))) = 0"
    "old_other_tiers_counts_total st = 0"
proof -
  let ?t = "\<lparr>ot_base_path = base, ot_tier_index = 0\<rparr>"
  have below: "fs_node fs (base @ r) = None" for r by (rule fs_wf_missing_below [OF fs(1) new])
  obtain fs1 where 1: "fs_create_directory fs base = Inr fs1" "fs_wf fs1"
    "\<And>q. fs_node fs1 q = (if q = base then Some Dir else fs_node fs q)"
    using fs_create_directory_ok [OF fs new] by blast
  have d1: "fs_is_directory fs1 (butlast (base @ [''Tier0'']))" by (simp add: fs_is_directory_def 1(3))
  have n1: "fs_node fs1 (base @ [''Tier0'']) = None" using below [of "[''Tier0'']"] by (simp add: 1(3))
  obtain fs2 where 2: "fs_create_directory fs1 (base @ [''Tier0'']) = Inr fs2" "fs_wf fs2"
    "\<And>q. fs_node fs2 q = (if q = base @ [''Tier0''] then Some Dir else fs_node fs1 q)"
    using fs_create_directory_ok [OF 1(2) d1 n1] by blast
  have d2: "fs_is_directory fs2 (old_tier_path ?t)" by (simp add: first_folders fs_is_directory_def 2(3))
  have n2: "fs_node fs2 (old_tier_path ?t @ [evolver_folder_name 0]) = None"
    using below [of "[''Tier0'', ''Offset_0'']"] by (simp add: first_folders 1(3) 2(3))
  obtain fs3 b where 3: "evolver_origin P fs2 ?t 0 Sack_TAG = Inr (fs3, b)" "fs_wf fs3" "evolver_start_offset P b = 0"
    "evolver_object_path P b = sack_path base"
    "\<And>q c. prefix q (sack_path base) \<Longrightarrow> fs_node fs3 q \<noteq> Some (File c)"
    using P(2) [unfolded documented_origin_def, rule_format, OF 2(2) d2 n2]
    by (auto simp: first_folders sack_path_def Sack_TAG_def)
  have "fs_node fs3 q \<noteq> Some (File c)" if "prefix q (sack_path base)" for q c by (rule 3(5) [OF that])
  from fs_create_directories_spec [OF 3(2), of "sack_path base", OF this] obtain fs4 where
    4: "fs_create_directories fs3 (sack_path base) = Inr fs4" "fs_node fs4 (sack_path base) = Some Dir" by auto
  let ?s = "\<lparr>sack_base = b, sack_hashes = [], sack_capacity = reserve SackSize, sack_hash_to_local_pi = Map.empty\<rparr>"
  have "mk_sack_new P reserve fs2 ?t (pi_offset P 0) SackSize = Inr (fs4, ?s)"
    using P(1) 3(1,4) 4(1) by (simp add: mk_sack_new_def documented_offsets_def)
  then have "mk_old_store P reserve moved_from_exists fs base = Inr (fs4,
      \<lparr>old_base_path = base, old_tier0 = \<lparr>t0_tier = ?t, t0_sack_size = SackSize, t0_active_evolver = ?s\<rparr>,
       old_other_tiers_counts_total = 0\<rparr>)"
    using moved 1(1) 2(1)
    by (simp add: mk_old_store_def mk_tier0_new_def mk_tier_base_def mk_old_tier_def first_folders Let_def)
  then show ?thesis
    using that 3(3) 4(2) by (simp add: fs_is_directory_def sack_ok_def)
qed

lemma old_store_insert_all:
  assumes "sack_ok (t0_active_evolver (old_tier0 st))"
    and "length (sack_hashes (t0_active_evolver (old_tier0 st))) + length hs \<le> sack_capacity (t0_active_evolver (old_tier0 st))"
  shows "\<exists>st'. rfold (\<lambda>st h. old_store_insert_hash h st) st hs = Inr st'
    \<and> sack_ok (t0_active_evolver (old_tier0 st'))
    \<and> sack_hashes (t0_active_evolver (old_tier0 st')) = sack_hashes (t0_active_evolver (old_tier0 st)) @ map Some hs
    \<and> sack_base (t0_active_evolver (old_tier0 st')) = sack_base (t0_active_evolver (old_tier0 st))
    \<and> sack_capacity (t0_active_evolver (old_tier0 st')) = sack_capacity (t0_active_evolver (old_tier0 st))
    \<and> old_other_tiers_counts_total st' = old_other_tiers_counts_total st"
  using assms
proof (induction hs arbitrary: st)
  case (Cons h hs)
  let ?s = "t0_active_evolver (old_tier0 st)"
  have room: "length (sack_hashes ?s) < sack_capacity ?s" using Cons.prems(2) by simp
  obtain s' where s': "sack_insert_hash h ?s = Inr (length (sack_hashes ?s) + 1 = sack_capacity ?s, s')" "sack_ok s'"
    "sack_hashes s' = sack_hashes ?s @ [Some h]" "sack_base s' = sack_base ?s" "sack_capacity s' = sack_capacity ?s"
    by (rule sack_insert_hash_ok [OF Cons.prems(1) room])
  let ?st = "st\<lparr>old_tier0 := old_tier0 st\<lparr>t0_active_evolver := s'\<rparr>\<rparr>"
  have "old_store_insert_hash h st = Inr ?st"
    by (simp add: old_store_insert_hash_def tier0_insert_hash_def s'(1))
  moreover have "sack_ok (t0_active_evolver (old_tier0 ?st))"
    "length (sack_hashes (t0_active_evolver (old_tier0 ?st))) + length hs \<le> sack_capacity (t0_active_evolver (old_tier0 ?st))"
    using s' Cons.prems(2) by simp_all
  from Cons.IH [OF this] s' obtain st' where "rfold (\<lambda>st h. old_store_insert_hash h st) ?st hs = Inr st'"
    "sack_ok (t0_active_evolver (old_tier0 st'))"
    "sack_hashes (t0_active_evolver (old_tier0 st')) = sack_hashes ?s @ map Some (h # hs)"
    "sack_base (t0_active_evolver (old_tier0 st')) = sack_base ?s"
    "sack_capacity (t0_active_evolver (old_tier0 st')) = sack_capacity ?s"
    "old_other_tiers_counts_total st' = old_other_tiers_counts_total st" by auto
  ultimately show ?case by simp
qed simp

text \<open>A sack that is full refuses the next hash.\<close>

lemma old_store_full:
  "length (sack_hashes (t0_active_evolver (old_tier0 st))) = sack_capacity (t0_active_evolver (old_tier0 st)) \<Longrightarrow>
    old_store_insert_hash h st = Inl (Assert_Failed ''Sack::insert_hash(): Sack was already full'')"
  by (simp add: old_store_insert_hash_def tier0_insert_hash_def sack_insert_hash_def)

section \<open>Properties\<close>

text \<open>C38: The older store answers for what was inserted.  With the offsets and the base class as far
  as they are documented, a store can be made at a path that does not exist yet; it makes the folder
  of its sack, takes up to 65535 hashes, counts them, finds the hash of every index, answers no match
  exactly for hashes it does not have, and, for distinct hashes (its comment allows no duplicates),
  otherwise the index of the hash.\<close>

theorem older_store_lookups_exact:
  assumes "documented_offsets P" "documented_origin P" "SackSize \<le> reserve SackSize" "\<not> moved_from_exists fs"
    and "fs_wf fs" "fs_is_directory fs (butlast base)" "fs_node fs base = None"
    and "length hs \<le> 65535" "distinct hs"
  shows "\<exists>fs' st0 st. mk_old_store P reserve moved_from_exists fs base = Inr (fs', st0)
    \<and> fs_is_directory fs' (sack_path base)
    \<and> rfold (\<lambda>st h. old_store_insert_hash h st) st0 hs = Inr st
    \<and> old_store_count st = of_nat (length hs)
    \<and> (\<forall>i < length hs. old_store_forward_lookup P st (GlobalPi (of_nat i)) = Inr (Some (hs ! i)))
    \<and> (\<forall>h. old_store_reverse_lookup_candidate P st h = GLOBAL_PI_NO_MATCH \<longleftrightarrow> h \<notin> set hs)
    \<and> (\<forall>i < length hs. old_store_reverse_lookup_candidate P st (hs ! i) = GlobalPi (of_nat i))"
proof -
  obtain fs' st0 where m: "mk_old_store P reserve moved_from_exists fs base = Inr (fs', st0)"
    "fs_is_directory fs' (sack_path base)" "sack_ok (t0_active_evolver (old_tier0 st0))"
    "sack_hashes (t0_active_evolver (old_tier0 st0)) = []"
    "sack_capacity (t0_active_evolver (old_tier0 st0)) = reserve SackSize"
    "evolver_start_offset P (sack_base (t0_active_evolver (old_tier0 st0))) = 0"
    "old_other_tiers_counts_total st0 = 0"
    by (rule mk_old_store_ok [where P = P and reserve = reserve and moved_from_exists = moved_from_exists
          and fs = fs and base = base]) (use assms in auto)
  obtain st where st: "rfold (\<lambda>st h. old_store_insert_hash h st) st0 hs = Inr st"
    "sack_ok (t0_active_evolver (old_tier0 st))" "sack_hashes (t0_active_evolver (old_tier0 st)) = map Some hs"
    "evolver_start_offset P (sack_base (t0_active_evolver (old_tier0 st))) = 0" "old_other_tiers_counts_total st = 0"
    using old_store_insert_all [OF m(3), of hs] m(4-7) assms(3,8) by (auto simp: SackSize_def)
  have small: "unat (0 :: u64) + length (sack_hashes (t0_active_evolver (old_tier0 st))) < 2 ^ 64 - 1"
    using assms(8) st(3) by simp
  note L = sack_lookups [OF assms(1) st(2,4) small]
  have at: "gpi_at (GlobalPi 0) i = GlobalPi (of_nat i)" for i by (simp add: gpi_at_def)
  have "old_store_count st = of_nat (length hs)"
    using st(3,5) by (simp add: old_store_count_def tier0_count_def sack_count_def)
  moreover have "old_store_forward_lookup P st (GlobalPi (of_nat i)) = Inr (Some (hs ! i))" if "i < length hs" for i
    using L(1) [of i] that st(3) by (simp add: old_store_forward_lookup_def tier0_forward_lookup_def at)
  moreover have "old_store_reverse_lookup_candidate P st h = GLOBAL_PI_NO_MATCH \<longleftrightarrow> h \<notin> set hs" for h
    using L(2) [of h] st(3)
    by (auto simp: old_store_reverse_lookup_candidate_def tier0_reverse_lookup_candidate_def)
  moreover have later: "hs ! i \<notin> set (drop (Suc i) hs)" if "i < length hs" for i
    using assms(9) that by (metis Cons_nth_drop_Suc distinct.simps(2) distinct_drop)
  have "old_store_reverse_lookup_candidate P st (hs ! i) = GlobalPi (of_nat i)"
    if "i < length hs" for i
    using L(3) [of i "hs ! i"] that(1) later [OF that(1)] st(3)
    by (auto simp: old_store_reverse_lookup_candidate_def tier0_reverse_lookup_candidate_def at drop_map)
  ultimately show ?thesis using m(1,2) st(1) by blast
qed

text \<open>The declarations as documented.\<close>

definition documented_retired :: "(global_pi, old_tier \<times> u64 \<times> string) retired" where
  "documented_retired =
     \<lparr>pi_offset = GlobalPi, pi_offset_int = gpi_int, gpi_minus_offset = gpi_minus_gpi, lpi_plus_offset = lpi_plus_gpi,
      evolver_origin = (\<lambda>fs t w tag. rbind (create_untyped_evolver_folder fs t w) (\<lambda>fs'. Inr (fs', (t, w, tag)))),
      evolver_start_offset = (\<lambda>(t, w, tag). w),
      evolver_object_path = (\<lambda>(t, w, tag). old_tier_path t @ [evolver_folder_name w, tag])\<rparr>"

lemma documented_retired_ok: "documented_offsets documented_retired" "documented_origin documented_retired"
proof -
  show "documented_offsets documented_retired" by (simp add: documented_offsets_def documented_retired_def)
  have "\<exists>fs' b. evolver_origin documented_retired fs t 0 Sack_TAG = Inr (fs', b) \<and> fs_wf fs'
      \<and> evolver_start_offset documented_retired b = 0
      \<and> evolver_object_path documented_retired b = old_tier_path t @ [evolver_folder_name 0, Sack_TAG]
      \<and> (\<forall>q. fs_is_directory fs q \<longrightarrow> fs_is_directory fs' q)
      \<and> (\<forall>q c. prefix q (evolver_object_path documented_retired b) \<longrightarrow> fs_node fs' q \<noteq> Some (File c))"
    if wf: "fs_wf fs" and dir: "fs_is_directory fs (old_tier_path t)"
      and free: "fs_node fs (old_tier_path t @ [evolver_folder_name 0]) = None" for fs t
  proof -
    let ?p = "old_tier_path t @ [evolver_folder_name 0]"
    obtain fs' where fs': "fs_create_directory fs ?p = Inr fs'" "fs_wf fs'"
      "\<forall>q. fs_node fs' q = (if q = ?p then Some Dir else fs_node fs q)"
      using fs_create_directory_ok [OF wf _ free] dir by auto
    have "fs_node fs' q \<noteq> Some (File c)" if q: "prefix q (?p @ [Sack_TAG])" for q c
    proof -
      consider r where "old_tier_path t = q @ r" | "q = ?p" | "q = ?p @ [Sack_TAG]"
        using q unfolding prefix_snoc by (auto simp: prefix_def)
      then show ?thesis
      proof cases
        case (1 r)
        then have "fs_node fs q = Some Dir"
          using dir fs_wf_node_parent [OF wf, of q r] by (cases "r = []") (auto simp: fs_is_directory_def)
        then show ?thesis by (simp add: fs'(3))
      next
        case 3
        have "fs_node fs (?p @ [Sack_TAG]) = None" by (rule fs_wf_missing_below [OF wf free])
        then show ?thesis using 3 by (simp add: fs'(3))
      qed (simp add: fs'(3))
    qed
    then show ?thesis using fs' by (auto simp: documented_retired_def create_untyped_evolver_folder_def fs_is_directory_def)
  qed
  then show "documented_origin documented_retired" by (simp add: documented_origin_def)
qed

theorem older_store_lookups_exact_witness:
  "\<exists>fs' st0 st. mk_old_store documented_retired (\<lambda>n. n) (\<lambda>_. False) [] [''s''] = Inr (fs', st0)
     \<and> fs_is_directory fs' [''s'', ''Tier0'', ''Offset_0'', ''ST00_Sack'']
     \<and> rfold (\<lambda>st h. old_store_insert_hash h st) st0 [[7], [8]] = Inr st
     \<and> old_store_count st = 2
     \<and> old_store_reverse_lookup_candidate documented_retired st [8] = GlobalPi 1
     \<and> old_store_reverse_lookup_candidate documented_retired st [9] = GLOBAL_PI_NO_MATCH"
proof -
  let ?hs = "[[7], [8]] :: hash list"
  have "SackSize \<le> (\<lambda>n. n) SackSize" "\<not> (\<lambda>_ :: fs. False) []" "fs_is_directory [] (butlast [''s''])"
    "fs_node [] [''s''] = None" "length ?hs \<le> 65535" "distinct ?hs"
    by (simp_all add: fs_is_directory_def fs_node_def)
  from older_store_lookups_exact [where reserve = "\<lambda>n. n" and moved_from_exists = "\<lambda>_. False",
      OF documented_retired_ok this(1,2) fs_wf_Nil this(3-6)] obtain fs' st0 st where
    W: "mk_old_store documented_retired (\<lambda>n. n) (\<lambda>_. False) [] [''s''] = Inr (fs', st0)"
    "fs_is_directory fs' (sack_path [''s''])"
    "rfold (\<lambda>st h. old_store_insert_hash h st) st0 ?hs = Inr st" "old_store_count st = of_nat (length ?hs)"
    "old_store_reverse_lookup_candidate documented_retired st [9] = GLOBAL_PI_NO_MATCH \<longleftrightarrow> [9] \<notin> set ?hs"
    "\<forall>i < length ?hs. old_store_reverse_lookup_candidate documented_retired st (?hs ! i) = GlobalPi (of_nat i)"
    by blast
  have "old_store_reverse_lookup_candidate documented_retired st [8] = GlobalPi 1"
    using W(6) [rule_format, of 1] by simp
  with W(1-5) show ?thesis
    by (intro exI [of _ fs'] exI [of _ st0] exI [of _ st]) (simp add: sack_path_def)
qed

end
