(* ===== verification/Buffer_Contract.thy ===== *)
theory Buffer_Contract
  imports Buffer_Room Pipeline_Buffer
begin

text \<open>
  \<^verbatim>\<open>libs/evolving_disk_state/include/evolving_disk_state/concepts.hpp\<close>: what a buffer between two
  stages promises its producer (\<open>BufferInput\<close>: feeding blocks when it is full) and its consumer
  (\<open>BufferOutput\<close>: the contents are seen when the buffer is filled, discarding purges it).  The
  C++ concepts fix the signatures; the locale states the laws for one producer and one consumer,
  and both buffers of the program are shown to keep them.
\<close>

locale batch_buffer =
  fixes ok :: "'b \<Rightarrow> bool"
    and cap :: nat
    and held :: "'b \<Rightarrow> 'a list"
    and feed :: "'a \<Rightarrow> 'b \<Rightarrow> 'b res"
    and consume :: "'b \<Rightarrow> ('a list \<times> 'b) res"
  assumes bound: "ok b \<Longrightarrow> length (held b) \<le> cap"
    and feed_space: "ok b \<Longrightarrow> length (held b) < cap \<Longrightarrow>
      \<exists>b'. feed x b = Inr b' \<and> ok b' \<and> held b' = held b @ [x]"
    and feed_full: "ok b \<Longrightarrow> length (held b) = cap \<Longrightarrow> feed x b = Inl Blocked"
    and consume_full: "ok b \<Longrightarrow> length (held b) = cap \<Longrightarrow>
      \<exists>b'. consume b = Inr (held b, b') \<and> ok b' \<and> held b' = []"
    and consume_waits: "ok b \<Longrightarrow> length (held b) < cap \<Longrightarrow> consume b = Inl Blocked"
begin

text \<open>Exactly one of the two sides can go on, so the pair is never stuck.\<close>

lemma one_side_runs: "ok b \<Longrightarrow> (feed x b = Inl Blocked) \<longleftrightarrow> (consume b \<noteq> Inl Blocked)"
  using bound [of b] feed_space [of b x] feed_full [of b x] consume_full [of b] consume_waits [of b]
  by (cases "length (held b) = cap") auto

lemma feed_many:
  "ok b \<Longrightarrow> length (held b) + length xs \<le> cap \<Longrightarrow>
    \<exists>b'. rfold (\<lambda>b x. feed x b) b xs = Inr b' \<and> ok b' \<and> held b' = held b @ xs"
proof (induction xs arbitrary: b)
  case Nil
  then show ?case by simp
next
  case (Cons x xs)
  obtain b1 where "feed x b = Inr b1" "ok b1" "held b1 = held b @ [x]"
    using feed_space [of b x] Cons.prems by auto
  with Cons.IH [of b1] Cons.prems show ?case by auto
qed

text \<open>Feeding whole batches and consuming each one delivers the stream, batch by batch.\<close>

lemma batches_delivered:
  assumes "ok b" "held b = []" "\<forall>xs \<in> set xss. length xs = cap"
  shows "\<exists>b'. rfold (\<lambda>s xs. rbind (rfold (\<lambda>b x. feed x b) (snd s) xs) (\<lambda>b1.
      rbind (consume b1) (\<lambda>(ys, b2). Inr (fst s @ [ys], b2)))) (done_already, b) xss = Inr (done_already @ xss, b')
    \<and> ok b' \<and> held b' = []"
  using assms
proof (induction xss arbitrary: b done_already)
  case Nil
  then show ?case by simp
next
  case (Cons xs xss)
  obtain b1 where 1: "rfold (\<lambda>b x. feed x b) b xs = Inr b1" "ok b1" "held b1 = xs"
    using feed_many [of b xs] Cons.prems by auto
  obtain b2 where 2: "consume b1 = Inr (xs, b2)" "ok b2" "held b2 = []"
    using consume_full [of b1] 1 Cons.prems(3) by auto
  show ?case using Cons.IH [OF 2(2,3), of "done_already @ [xs]"] Cons.prems(3) 1(1) 2(1) by simp
qed

end

section \<open>The two buffers\<close>

definition room_idle :: "nat \<Rightarrow> 'a buffer_room \<Rightarrow> bool" where
  "room_idle C r \<longleftrightarrow> length (items r) \<le> C \<and> active_readers r = 0 \<and> \<not> is_discarding r"

definition room_consume :: "nat \<Rightarrow> 'a buffer_room \<Rightarrow> ('a list \<times> 'a buffer_room) res" where
  "room_consume C r =
     rbind (with_contents_when_filled C (\<lambda>xs. xs) r) (\<lambda>(r1, seen).
     case seen of None \<Rightarrow> Inl Blocked
     | Some xs \<Rightarrow> rbind (Discard r1) (\<lambda>r2. Inr (xs, r2)))"

interpretation buffer_room: batch_buffer "room_idle C" C items "Feed C" "room_consume C" for C
proof
  show "\<exists>r'. room_consume C r = Inr (items r, r') \<and> room_idle C r' \<and> items r' = []"
    if "room_idle C r" "length (items r) = C" for r
    using that by (simp add: room_consume_def with_contents_when_filled_def consumer_may_run_def
        room_idle_def Discard_def Let_def reader_enter_def reader_exit_def)
qed (auto simp: room_idle_def Feed_def producer_may_run_def room_consume_def with_contents_when_filled_def
      consumer_may_run_def)

definition buffer_holds :: "nat \<Rightarrow> 'a output_buffer \<Rightarrow> bool" where
  "buffer_holds n b \<longleftrightarrow> capacity b = n \<and> length (contents b) \<le> n"

text \<open>The timed wait of this consumer reports false instead of waiting on.\<close>

definition buffer_consume :: "'a output_buffer \<Rightarrow> ('a list \<times> 'a output_buffer) res" where
  "buffer_consume b =
     (case with_full_contents_as_consumer_maybe_wipe (\<lambda>xs. True) b of
        (wiped, b') \<Rightarrow> if wiped then Inr (contents b, b') else Inl Blocked)"

interpretation output_buffer: batch_buffer "buffer_holds n" n contents push_back_as_provider buffer_consume for n
  by unfold_locales
     (auto simp: buffer_holds_def push_back_as_provider_def has_space_def buffer_consume_def consumer_results
        is_full_def Let_def)

text \<open>So both deliver a stream of whole batches unchanged.\<close>

lemmas room_delivers = buffer_room.batches_delivered
lemmas output_buffer_delivers = output_buffer.batches_delivered

end
