(* ===== verification/Spec2Isabelle.thy ===== *)
theory Spec2Isabelle
  imports Flush_Crash Room_Wakeups Shallow_Tree Suffix_Factory Tier_Orchestrator Older_Store Buffer_Contract
begin

text \<open>
  A verification library for the \<^emph>\<open>wedding cake\<close> hash store, a C++20 program that files hashes
  under consecutive \<^emph>\<open>presentation indexes\<close> and looks them up in both directions.  Paths below
  are relative to \<^verbatim>\<open>src/\<close>; \<open>A\<close> stands for \<^verbatim>\<open>apps/wedding_cake/include\<close>, \<open>L\<close> for
  \<^verbatim>\<open>libs/evolving_disk_state/include\<close> and \<open>O\<close> for \<^verbatim>\<open>include/evolving_disk_state_old\<close>.

  \<^bold>\<open>The program.\<close>  A client feeds blocks of optional hashes to the store (\<^verbatim>\<open>A/store_b.hpp\<close>,
  \<^verbatim>\<open>A/ingester.hpp\<close>).  They wait in a buffer in memory (\<^verbatim>\<open>A/ingester_buffer.hpp\<close>) until a worker
  thread (\<^verbatim>\<open>A/ingestor_worker.hpp\<close>) moves them into the \<^emph>\<open>hatchling\<close> of the ingester tier
  (\<^verbatim>\<open>A/ingester_tier_folder.hpp\<close>), a \<^emph>\<open>donut\<close> (\<^verbatim>\<open>A/ingester_evolver_types.hpp\<close>) that appends fixed-width
  records (\<^verbatim>\<open>A/donut_entries_calculator.hpp\<close>) to two files through a files manifest
  (\<^verbatim>\<open>L/files_manifest/dummy_implementation.hpp\<close>).  A full hatchling becomes a filled donut in the
  buffer room of the tier (\<^verbatim>\<open>L/evolving_disk_state/buffer_room.hpp\<close>, \<^verbatim>\<open>A/lookupable_buffer_room.hpp\<close>);
  on a restart the donuts are found again by their folder names
  (\<^verbatim>\<open>L/evolving_disk_state/tier_folder.hpp\<close>) and hydrated from their files.  Beside this pipeline
  stand the compact lookup structure for later tiers (\<^verbatim>\<open>include/wedding_cake/shallow_tree.hpp\<close>), the
  record files for them (\<^verbatim>\<open>A/hashes_order_file.hpp\<close>, \<^verbatim>\<open>A/ls_suffix_entries_file.hpp\<close>,
  \<^verbatim>\<open>A/reader_writer_factory.hpp\<close>), and an older pipeline with a transaction log (\<open>O\<close>).

  \<^bold>\<open>Conventions.\<close>  A C++ function that can fail returns \<open>'a res = fault + 'a\<close> (\<open>Prelude\<close>): exceptions,
  failed assertions (taken as enabled), undefined behaviour and waits that the running thread
  cannot end are values of \<open>fault\<close>.  Objects are records, methods take the record and return it
  updated, the file system is passed along.  Integers that can wrap are words; sizes of vectors
  are naturals.  The template parameter \<open>HashBytesCount\<close> is the first argument \<open>N\<close>; its
  relation to hashes is \<open>hash_wf N\<close>.  Threads are step relations over program counters at the
  places where the code takes or releases a lock, with reachability as an inductive predicate.

  \<^bold>\<open>Theories.\<close>
  \<^item> \<open>Prelude\<close>: faults and combinators, bounds-checked buffers, little-endian bytes, masks.
  \<^item> \<open>File_System\<close>: the part of \<^verbatim>\<open>std::filesystem\<close>, \<^verbatim>\<open>std::ofstream\<close> (with its buffer) and
    \<^verbatim>\<open>std::ifstream\<close> (with its state bits) that the program uses.
  \<^item> \<open>Pi_Types\<close> (\<^verbatim>\<open>A/types.hpp\<close>), \<open>Tier_Constants\<close> (\<^verbatim>\<open>A/tier_constants.hpp\<close>), \<open>Hash_Prefix_Suffix\<close>
    (\<^verbatim>\<open>A/hash_prefix_suffix.hpp\<close>): indexes, hashes, widths, prefixes and the paths of suffix files.
  \<^item> \<open>Lookup\<close> (\<^verbatim>\<open>A/concepts_lookup.hpp\<close>): the contract of everything that can be searched, as the
    locales \<open>range_bounded\<close>, \<open>lookupable\<close> and \<open>earliest_lookupable\<close>.
  \<^item> \<open>Donut_Entries\<close>: the two record formats and their round trips.
  \<^item> \<open>Files_Manifest\<close>: the manifest, with the locale \<open>append_store\<close> for what its client relies on.
  \<^item> \<open>Object_Folders\<close>, \<open>Tier_Folder\<close>: folder names, their discovery, the generic tier.
  \<^item> \<open>Buffer_Room\<close>, \<open>Lookupable_Room\<close>: the room between two tiers, first as one thread uses it, then
    under any number of threads; its lookups.  \<open>Room_Wakeups\<close>: the condition variables of the room on
    top of the steps of its locks, with sleeping threads and the notifications of the code.
  \<^item> \<open>Remainder_Donut\<close>: construction, appending, lookups and hydration of donuts; the invariant
    relates their memory to the bytes of their two files.
  \<^item> \<open>Ingester_Buffer\<close>, \<open>Ingester_Tier\<close>, \<open>Tier_Restart\<close>, \<open>Ingester\<close>: the buffer in memory, the tier, its
    life across restarts, and clients, worker and destructor as one step relation.  The locale
    \<open>batch_consumer\<close> states what the buffer needs of the worker's lambda.  \<open>Ingester_Lookups\<close>: the
    three containers divide the accepted stream among them and find every hash of it.  \<open>Ingester_Log\<close>:
    the abstract log that all of this refines (a worker that waits for ever is a log that hangs, with
    what it moved out of the buffer until then), the durability of a flush, the range of the store.
    \<open>Flush_Crash\<close>: the computed counterexample to a physical flush.
  \<^item> \<open>Shallow_Tree\<close>: construction, lookup and visit of the tree.
  \<^item> \<open>Record_Files\<close>, \<open>Suffix_Factory\<close>: writers and readers of order and suffix files, and their factory.
  \<^item> \<open>Manifest_Log\<close>: the transaction log, work slices and crash recovery of the older pipeline;
    \<open>Pipeline_Buffer\<close>: its bounded buffer and feeder; \<open>Tier_Orchestrator\<close>: its state machine of
    folders; \<open>Older_Store\<close>: the store of sacks that the ingester replaced (\<^verbatim>\<open>A/store.hpp\<close>, \<^verbatim>\<open>A/tiers.hpp\<close>,
    \<^verbatim>\<open>A/evolving_type_states.hpp\<close>); \<open>Buffer_Contract\<close>: one contract (the locale \<open>batch_buffer\<close>) that both buffers keep.

  \<^bold>\<open>What the lemmas show.\<close>  For the ingester: in every reachable state the donuts followed by the
  buffer hold exactly the accepted stream, and every run is a run of an append-only log with a persisted
  prefix; a flush that returned is durable (against an orderly restart, not against a crash); a
  restart restores the donuts if their hashes are distinct; every accepted hash is found.  For
  a donut: lookups are exact and survive a restart, batches are cut to what fits.  For the buffer
  room: thread safety up to one data race, full batches for the worker, no deadlock while at most one
  discard runs at a time, and that the sequential operations are runs of the interleaved ones.  For the tree: it is built exactly when no two
  hashes agree above the tail, it finds every hash, and its lookups are exact or as good as the
  reassurance bytes allow.  For the formats: round trips of records, files and folder names.  For
  the older pipeline: replaying any prefix of a log, recovery to the last commit of an untorn log,
  transitions that restart after a crash (unless the process has locked itself out), and delivery of every item exactly once to a single consumer.
  Where the code falls short of what it says, a theorem or lemma shows that too: the tier that
  fills up for good, the restarted store that takes no hashes, the accepted hashes that a
  destructor drops, the flushed hash that a crash loses, the two overlapping discards or consumers,
  the vector that is cleared while its size is read, the wake-ups that are lost, the torn log that
  hides later commits.

  \<^bold>\<open>Bounds and fuel.\<close>  Only the construction of the shallow tree has fuel; it is run with \<open>N + 1\<close>,
  and the lemmas \<open>builds\<close> show that this never runs out, since every level uses up a byte of the
  hash.  All other loops are structural or come with a measure (the visit of the tree by the
  stack, the replay of a log by the bytes left, parsing by the characters left).  The capacity of the tier
  is \<open>5 * 65535\<close> hashes: four filled donuts and the hatchling.

  \<^bold>\<open>Parameters.\<close>  Code that does not compile because it names something the repository does not
  have is modelled with the missing thing as an argument: \<open>empty()\<close> of the buffer room (asked by the
  \<open>first_offset\<close> of the tier, the ingester and the store), \<open>PiOffset\<close> and \<open>EvolverOrigin\<close> in the older
  store (the record \<open>retired\<close>), the member \<open>hash_bytes\<close> in the unused sorting partition of the tree.
  The suffix-file functions of the factory leave out an explicit conversion, which is written out.
  Properties over such arguments assume what the documents or the tests say of them, and no more.

  \<^bold>\<open>Not modelled.\<close>  \<^verbatim>\<open>A/concepts_wedding_cake.hpp\<close> is commented out;
  \<^verbatim>\<open>L/evolving_disk_state/concepts.hpp\<close> only fixes signatures; main programs, tests and build files
  only call what is modelled.  Permission bits are enforced where the program sets them (\<open>Tier_Orchestrator\<close>),
  for a process that owns its folders; a file system that refuses a write for another reason is not
  modelled; a crash loses what is still in the buffer of a stream.  Condition variables do not wake
  up spuriously.  What an exception in the worker leaves in memory is not modelled, since it ends the
  program.
\<close>

end
